(* ===== verification/Prelude.thy ===== *)
theory Prelude
  imports Main "HOL-Library.Word"
begin

text \<open>
  Shared ground of the development: the names of the machine types the C++ sources use, the
  run-time faults that a C++ operation can raise, results that are either a fault or a value,
  and the generic lemmas on lists and words that the component theories rely on.

  A \<^verbatim>\<open>uint64_t\<close> or \<^verbatim>\<open>size_t\<close> is a 64-bit word, a byte (\<^verbatim>\<open>char\<close>,
  \<^verbatim>\<open>uint8_t\<close>) is a HOL character (eight bits), a \<^verbatim>\<open>std::string\<close> or a restbed
  \<^verbatim>\<open>Bytes\<close> is a list of them.
\<close>

type_synonym u64 = "64 word"
type_synonym byte = char
type_synonym bytes = "char list"

text \<open>
  Collections of equations that evaluate the model on concrete inputs: string functions, and
  rounding of numbers.
\<close>

named_theorems string_eval \<open>evaluation of string functions on literals\<close>
named_theorems double_eval \<open>evaluation of floating-point operations on literals\<close>

section \<open>Faults and results\<close>

text \<open>
  What the C++ program does instead of returning a value: undefined behaviour that the source
  does not exclude (an index outside a vector, a copy past the end of an array,
  \<^verbatim>\<open>pop_back\<close> on an empty string, a zero divisor, a null pointer), an assertion that fails, or an exception that
  leaves the function (\<^verbatim>\<open>std::invalid_argument\<close>, \<^verbatim>\<open>std::out_of_range\<close>,
  \<^verbatim>\<open>std::runtime_error\<close>).
\<close>

datatype fault =
    IndexOutOfBounds
  | BufferOverflow
  | EmptyPopBack
  | DivisionByZero
  | NullPointer
  | InvalidArgument string
  | OutOfRange string
  | RuntimeError string
  | NonTermination
  | AssertionFailed

type_synonym 'a result = "fault + 'a"

definition rbind :: "'a result \<Rightarrow> ('a \<Rightarrow> 'b result) \<Rightarrow> 'b result" where
  "rbind r f = (case r of Inl e \<Rightarrow> Inl e | Inr x \<Rightarrow> f x)"

lemma rbind_Inl [simp]: "rbind (Inl e) f = Inl e"
  by (simp add: rbind_def)

lemma rbind_Inr [simp]: "rbind (Inr x) f = f x"
  by (simp add: rbind_def)

lemma rbind_Inr_iff: "rbind r f = Inr y \<longleftrightarrow> (\<exists>x. r = Inr x \<and> f x = Inr y)"
  by (cases r) simp_all

lemma rbind_Inl_iff: "rbind r f = Inl e \<longleftrightarrow> r = Inl e \<or> (\<exists>x. r = Inr x \<and> f x = Inl e)"
  by (cases r) simp_all

lemma rbind_assoc: "rbind (rbind r f) g = rbind r (\<lambda>x. rbind (f x) g)"
  by (cases r) simp_all

section \<open>Vectors\<close>

text \<open>
  \<^verbatim>\<open>v[i]\<close> and \<^verbatim>\<open>v[i] = x\<close> on a \<^verbatim>\<open>std::vector\<close>: no bounds check in the source, so
  an index outside the vector is the fault \<^const>\<open>IndexOutOfBounds\<close>.
\<close>

definition vec_get :: "'a list \<Rightarrow> nat \<Rightarrow> 'a result" where
  "vec_get xs i = (if i < length xs then Inr (xs ! i) else Inl IndexOutOfBounds)"

definition vec_set :: "'a list \<Rightarrow> nat \<Rightarrow> 'a \<Rightarrow> 'a list result" where
  "vec_set xs i x = (if i < length xs then Inr (xs[i := x]) else Inl IndexOutOfBounds)"

lemma vec_get_in [simp]: "i < length xs \<Longrightarrow> vec_get xs i = Inr (xs ! i)"
  by (simp add: vec_get_def)

lemma vec_get_out [simp]: "length xs \<le> i \<Longrightarrow> vec_get xs i = Inl IndexOutOfBounds"
  by (simp add: vec_get_def)

lemma vec_set_in [simp]: "i < length xs \<Longrightarrow> vec_set xs i x = Inr (xs[i := x])"
  by (simp add: vec_set_def)

lemma vec_set_out [simp]: "length xs \<le> i \<Longrightarrow> vec_set xs i x = Inl IndexOutOfBounds"
  by (simp add: vec_set_def)

lemma vec_set_Inr_iff: "vec_set xs i x = Inr ys \<longleftrightarrow> i < length xs \<and> ys = xs[i := x]"
  by (auto simp: vec_set_def)

section \<open>Words\<close>

lemma unat_u64_less: "unat (w :: u64) < 18446744073709551616"
  using unsigned_less [of w, where ?'a = nat] by simp

lemma unat_drop_bit: "unat (drop_bit n (w :: 'a::len word)) = unat w div 2 ^ n"
  by (simp add: unsigned_drop_bit_eq take_bit_nat_eq_self unsigned_less flip: drop_bit_eq_div)

lemma unat_eq_iff_u64: "unat a = unat b \<longleftrightarrow> a = (b :: u64)"
  by (simp add: word_unat_eq_iff)

lemma unat_add_no_wrap:
  fixes a b :: "'a::len word"
  shows "unat a + unat b < 2 ^ LENGTH('a) \<Longrightarrow> unat (a + b) = unat a + unat b"
  by (simp add: unat_add_lem)

lemma unat_Suc_no_wrap:
  fixes a :: u64
  shows "unat a + 1 < 2 ^ 64 \<Longrightarrow> unat (a + 1) = unat a + 1"
  using unat_add_no_wrap [of a 1] by simp

lemma unat_diff_no_wrap:
  fixes a b :: "'a::len word"
  shows "b \<le> a \<Longrightarrow> unat (a - b) = unat a - unat b"
  by (simp add: unat_sub)

lemma u64_of_nat_unat: "n < 2 ^ 64 \<Longrightarrow> unat (of_nat n :: u64) = n"
  by (simp add: unat_of_nat take_bit_nat_eq_self)

lemma sint_word_of_int_small:
  "- 9223372036854775808 \<le> k \<Longrightarrow> k < 9223372036854775808 \<Longrightarrow> sint (word_of_int k :: u64) = k"
  by (simp add: sint_sbintrunc' signed_take_bit_int_eq_self)

lemma sint_diff_small:
  fixes a b :: u64
  assumes "unat a < 2 ^ 63" and "unat b < 2 ^ 63"
  shows "sint (a - b) = int (unat a) - int (unat b)"
proof -
  have "a - b = word_of_int (int (unat a) - int (unat b))"
    by (simp add: word_of_int_minus [symmetric] wi_hom_sub [symmetric])
  moreover have "sint (word_of_int (int (unat a) - int (unat b)) :: u64) = int (unat a) - int (unat b)"
    by (rule sint_word_of_int_small) (use assms [simplified] in linarith)+
  ultimately show ?thesis by simp
qed

lemma sum_list_upt: "sum_list (map f [a..<b]) = (\<Sum>i\<in>{a..<b}. f i)"
  by (simp add: sum_list_distinct_conv_sum_set)

section \<open>Lists\<close>

lemma nth_mod_range [simp]: "0 < length xs \<Longrightarrow> i mod length xs < length xs"
  by simp

lemma sum_list_map_update:
  fixes f :: "'a \<Rightarrow> 'b::ab_group_add"
  shows "i < length xs \<Longrightarrow>
    sum_list (map f (xs[i := x])) = sum_list (map f xs) - f (xs ! i) + f x"
  by (induction xs arbitrary: i) (auto split: nat.splits simp: algebra_simps)

lemma sum_nth_update:
  fixes f :: "'a \<Rightarrow> 'b::ab_group_add"
  assumes "finite W" and "i < length xs"
  shows "(\<Sum>j\<in>W. f (xs[i := x] ! j)) = (\<Sum>j\<in>W. f (xs ! j)) + (if i \<in> W then f x - f (xs ! i) else 0)"
proof -
  have "(\<Sum>j\<in>W. f (xs[i := x] ! j)) = (\<Sum>j\<in>W. f (xs ! j) + (if j = i then f x - f (xs ! i) else 0))"
    using assms(2) by (intro sum.cong) (auto simp: nth_list_update)
  then show ?thesis
    using assms(1) by (simp add: sum.distrib)
qed

end
