(* ===== verification/Cstd.thy ===== *)
theory Cstd
  imports Prelude
begin

text \<open>
  The parts of the C and C++ standard library on strings that the sources use: C strings,
  character classes, searching in a \<^verbatim>\<open>std::string\<close>, decimal printing as \<^verbatim>\<open>printf\<close> and
  \<^verbatim>\<open>std::to_string\<close> do it, decimal reading as \<^verbatim>\<open>sscanf\<close>, \<^verbatim>\<open>atoi\<close> and \<^verbatim>\<open>std::stoi\<close> do it.
\<close>

section \<open>Characters and C strings\<close>

definition c_str :: "string \<Rightarrow> string" where
  "c_str s = takeWhile (\<lambda>c. c \<noteq> CHR 0x00) s"

definition is_space :: "char \<Rightarrow> bool" where
  "is_space c \<longleftrightarrow> (of_char c :: nat) \<in> {9, 10, 11, 12, 13, 32}"

definition is_digit :: "char \<Rightarrow> bool" where
  "is_digit c \<longleftrightarrow> 48 \<le> (of_char c :: nat) \<and> (of_char c :: nat) \<le> 57"

definition digit_val :: "char \<Rightarrow> nat" where
  "digit_val c = of_char c - 48"

definition digit_char :: "nat \<Rightarrow> char" where
  "digit_char d = char_of (48 + d)"

definition tolower :: "char \<Rightarrow> char" where
  "tolower c = (let n = of_char c :: nat in if 65 \<le> n \<and> n \<le> 90 then char_of (n + 32) else c)"

definition toupper :: "char \<Rightarrow> char" where
  "toupper c = (let n = of_char c :: nat in if 97 \<le> n \<and> n \<le> 122 then char_of (n - 32) else c)"

declare c_str_def [string_eval] is_space_def [string_eval] is_digit_def [string_eval]
  digit_val_def [string_eval] tolower_def [string_eval] toupper_def [string_eval]

lemma digit_char_0: "digit_char 0 = CHR ''0''"
  by (simp add: digit_char_def char_of_def bit_Suc_0_iff)

lemma of_digit_char: "d < 10 \<Longrightarrow> (of_char (digit_char d) :: nat) = 48 + d"
  by (simp add: digit_char_def)

lemma digit_val_char [simp]: "d < 10 \<Longrightarrow> digit_val (digit_char d) = d"
  by (simp add: digit_val_def of_digit_char)

lemma is_digit_char [simp]: "d < 10 \<Longrightarrow> is_digit (digit_char d)"
  by (simp add: is_digit_def of_digit_char)

lemma digit_not_space [simp]: "is_digit c \<Longrightarrow> \<not> is_space c"
  by (auto simp: is_digit_def is_space_def)

lemma digit_not_sign [simp]: "is_digit c \<Longrightarrow> c \<noteq> CHR ''-'' \<and> c \<noteq> CHR ''+''"
  by (auto simp: is_digit_def)

lemma digit_not_nul [simp]: "is_digit c \<Longrightarrow> c \<noteq> CHR 0x00"
  by (auto simp: is_digit_def)

lemma c_str_no_nul: "CHR 0x00 \<notin> set s \<Longrightarrow> c_str s = s"
  by (auto simp: c_str_def takeWhile_eq_all_conv)

lemma length_c_str: "length (c_str s) \<le> length s"
  by (simp add: c_str_def length_takeWhile_le)

section \<open>Searching\<close>

text \<open>
  \<^verbatim>\<open>s.find(pat)\<close>; \<^const>\<open>None\<close> is \<^verbatim>\<open>string::npos\<close>. \<^verbatim>\<open>s.find_first_of(cs, pos)\<close> looks for the
  first character of a set.
\<close>

fun is_prefix :: "string \<Rightarrow> string \<Rightarrow> bool" where
  "is_prefix [] s = True"
| "is_prefix (p # ps) [] = False"
| "is_prefix (p # ps) (c # cs) = (p = c \<and> is_prefix ps cs)"

fun str_find :: "string \<Rightarrow> string \<Rightarrow> nat option" where
  "str_find pat [] = (if pat = [] then Some 0 else None)"
| "str_find pat (c # cs) =
     (if is_prefix pat (c # cs) then Some 0 else map_option Suc (str_find pat cs))"

fun first_of :: "char set \<Rightarrow> string \<Rightarrow> nat option" where
  "first_of cs [] = None"
| "first_of cs (x # xs) = (if x \<in> cs then Some 0 else map_option Suc (first_of cs xs))"

definition find_first_of :: "char set \<Rightarrow> string \<Rightarrow> nat \<Rightarrow> nat option" where
  "find_first_of cs s pos = map_option (\<lambda>i. pos + i) (first_of cs (drop pos s))"

definition substr :: "string \<Rightarrow> nat \<Rightarrow> nat \<Rightarrow> string" where
  "substr s pos n = take n (drop pos s)"

declare find_first_of_def [string_eval] substr_def [string_eval]

lemma is_prefix_iff: "is_prefix p s \<longleftrightarrow> take (length p) s = p"
  by (induction p s rule: is_prefix.induct) auto

lemma is_prefix_append [simp]: "is_prefix p (p @ s)"
  by (simp add: is_prefix_iff)

lemma first_of_Some:
  "first_of cs s = Some i \<longleftrightarrow> i < length s \<and> s ! i \<in> cs \<and> (\<forall>j<i. s ! j \<notin> cs)"
proof (induction s arbitrary: i)
  case Nil
  then show ?case by simp
next
  case (Cons x xs)
  show ?case
    by (cases i) (auto simp: Cons.IH All_less_Suc2 nth_Cons split: nat.splits)
qed

lemma first_of_None: "first_of cs s = None \<longleftrightarrow> set s \<inter> cs = {}"
  by (induction s) auto

lemma first_of_append_hit: "set p \<inter> cs = {} \<Longrightarrow> c \<in> cs \<Longrightarrow> first_of cs (p @ c # s) = Some (length p)"
  by (induction p) auto

lemma str_find_Some:
  "str_find pat s = Some i \<Longrightarrow> is_prefix pat (drop i s) \<and> (\<forall>j<i. \<not> is_prefix pat (drop j s))"
proof (induction s arbitrary: i)
  case Nil
  then show ?case by (auto split: if_splits)
next
  case (Cons c cs)
  show ?case
  proof (cases i)
    case 0
    with Cons.prems show ?thesis by (auto split: if_splits)
  next
    case (Suc k)
    with Cons.prems have "\<not> is_prefix pat (c # cs)" and "str_find pat cs = Some k"
      by (auto split: if_splits)
    with Cons.IH [of k] Suc show ?thesis
      by (auto simp: All_less_Suc2)
  qed
qed

section \<open>Decimal printing\<close>

fun nat_to_dec :: "nat \<Rightarrow> string" where
  "nat_to_dec n =
     (if n < 10 then [digit_char n] else nat_to_dec (n div 10) @ [digit_char (n mod 10)])"

declare nat_to_dec.simps [simp del]

definition int_to_dec :: "int \<Rightarrow> string" where
  "int_to_dec i = (if i < 0 then CHR ''-'' # nat_to_dec (nat (- i)) else nat_to_dec (nat i))"

text \<open>The conversion \<^verbatim>\<open>%0wd\<close>: zero padding to a width that counts the sign.\<close>

definition zero_pad :: "nat \<Rightarrow> string \<Rightarrow> string" where
  "zero_pad w s = replicate (w - length s) (CHR ''0'') @ s"

definition fmt_0d :: "nat \<Rightarrow> int \<Rightarrow> string" where
  "fmt_0d w i =
     (if i < 0 then CHR ''-'' # zero_pad (w - 1) (nat_to_dec (nat (- i)))
      else zero_pad w (nat_to_dec (nat i)))"

definition dec_to_nat :: "string \<Rightarrow> nat" where
  "dec_to_nat s = foldl (\<lambda>a c. 10 * a + digit_val c) 0 s"

declare dec_to_nat_def [string_eval]

lemma digits_nat_to_dec: "\<forall>c\<in>set (nat_to_dec n). is_digit c"
proof (induction n rule: nat_to_dec.induct)
  case (1 n)
  then show ?case by (subst nat_to_dec.simps) auto
qed

lemma nat_to_dec_nonempty [simp]: "nat_to_dec n \<noteq> []"
  by (subst nat_to_dec.simps) simp

lemma dec_to_nat_snoc: "dec_to_nat (s @ [c]) = 10 * dec_to_nat s + digit_val c"
  by (simp add: dec_to_nat_def)

lemma dec_to_nat_append: "dec_to_nat (a @ b) = dec_to_nat a * 10 ^ length b + dec_to_nat b"
proof (induction b rule: rev_induct)
  case (snoc c b)
  then show ?case unfolding append_assoc [symmetric] dec_to_nat_snoc by simp
qed (simp add: dec_to_nat_def)

lemma dec_to_nat_Cons: "dec_to_nat (c # s) = digit_val c * 10 ^ length s + dec_to_nat s"
  using dec_to_nat_append [of "[c]" s] by (simp add: dec_to_nat_def)

lemma dec_to_nat_less: "\<forall>c\<in>set s. is_digit c \<Longrightarrow> dec_to_nat s < 10 ^ length s"
proof (induction s)
  case (Cons c s)
  then have "digit_val c + 1 \<le> 10" by (auto simp: is_digit_def digit_val_def)
  then have "(digit_val c + 1) * 10 ^ length s \<le> 10 * 10 ^ length s" by (rule mult_right_mono) simp
  moreover have "dec_to_nat s < 10 ^ length s" using Cons by simp
  ultimately have "digit_val c * 10 ^ length s + dec_to_nat s < 10 * 10 ^ length s"
    unfolding distrib_right by linarith
  then show ?case by (simp add: dec_to_nat_Cons)
qed (simp add: dec_to_nat_def)

lemma dec_to_nat_nat_to_dec [simp]: "dec_to_nat (nat_to_dec n) = n"
proof (induction n rule: nat_to_dec.induct)
  case (1 n)
  show ?case
  proof (cases "n < 10")
    case True
    then show ?thesis by (subst nat_to_dec.simps) (simp add: dec_to_nat_def)
  next
    case False
    with 1 show ?thesis
      by (subst nat_to_dec.simps) (simp add: dec_to_nat_snoc)
  qed
qed

lemma length_nat_to_dec_le: "n < 10 ^ w \<Longrightarrow> 0 < w \<Longrightarrow> length (nat_to_dec n) \<le> w"
proof (induction n arbitrary: w rule: nat_to_dec.induct)
  case (1 n)
  show ?case
  proof (cases "n < 10")
    case True
    with 1(3) show ?thesis by (subst nat_to_dec.simps) simp
  next
    case False
    with 1(2) obtain k where k: "w = Suc k" "0 < k"
      by (cases w; cases "w - 1") auto
    with 1(2) have "n div 10 < 10 ^ k" by auto
    with 1(1) False k show ?thesis
      by (subst nat_to_dec.simps) simp
  qed
qed

lemma dec_to_nat_zeros: "dec_to_nat (replicate k (CHR ''0'') @ s) = dec_to_nat s"
  by (induction k) (simp_all add: dec_to_nat_def digit_val_def)

lemma is_digit_zero [simp]: "is_digit (CHR ''0'')"
  by (simp add: is_digit_def)

lemma fmt_0d_nonneg:
  assumes "0 \<le> i" and "i < 10 ^ w" and "0 < w"
  shows "length (fmt_0d w i) = w" and "\<forall>c\<in>set (fmt_0d w i). is_digit c"
    and "dec_to_nat (fmt_0d w i) = nat i"
proof -
  have "nat i < 10 ^ w"
    using assms by (simp add: nat_less_iff)
  then have "length (nat_to_dec (nat i)) \<le> w"
    using assms(3) by (rule length_nat_to_dec_le)
  with assms(1) show "length (fmt_0d w i) = w"
    by (simp add: fmt_0d_def zero_pad_def)
  show "\<forall>c\<in>set (fmt_0d w i). is_digit c"
    using assms(1) digits_nat_to_dec by (auto simp: fmt_0d_def zero_pad_def)
  show "dec_to_nat (fmt_0d w i) = nat i"
    using assms(1) by (simp add: fmt_0d_def zero_pad_def dec_to_nat_zeros)
qed

section \<open>Decimal reading\<close>

text \<open>
  One conversion \<^verbatim>\<open>%wd\<close>: leading white space is skipped, then an optional sign and decimal
  digits are read, \<open>w\<close> characters at most with the sign; no digit is a matching failure.
\<close>

definition scan_int :: "nat \<Rightarrow> string \<Rightarrow> (int \<times> string) option" where
  "scan_int w s =
     (let s1 = dropWhile is_space s;
          signed = (0 < w \<and> s1 \<noteq> [] \<and> (hd s1 = CHR ''-'' \<or> hd s1 = CHR ''+''));
          neg = (signed \<and> hd s1 = CHR ''-'');
          s2 = (if signed then tl s1 else s1);
          w2 = (if signed then w - 1 else w);
          ds = takeWhile is_digit (take w2 s2)
      in if ds = [] then None
         else Some (if neg then - int (dec_to_nat ds) else int (dec_to_nat ds),
                    drop (length ds) s2))"

datatype conv = ConvLit char | ConvInt nat

text \<open>The values \<^verbatim>\<open>sscanf\<close> assigns; its return value is their number (or EOF when there is none).\<close>

fun sscanf :: "conv list \<Rightarrow> string \<Rightarrow> int list" where
  "sscanf [] s = []"
| "sscanf (ConvLit c # fs) s = (case s of [] \<Rightarrow> [] | x # xs \<Rightarrow> if x = c then sscanf fs xs else [])"
| "sscanf (ConvInt w # fs) s =
     (case scan_int w s of None \<Rightarrow> [] | Some (v, rest) \<Rightarrow> v # sscanf fs rest)"

lemma length_sscanf_le: "length (sscanf fs s) \<le> length [f \<leftarrow> fs. case f of ConvInt _ \<Rightarrow> True | _ \<Rightarrow> False]"
  by (induction fs s rule: sscanf.induct) (auto split: list.splits option.splits)

lemma scan_int_digits:
  assumes "length ds = w" and "0 < w" and "\<forall>c\<in>set ds. is_digit c"
  shows "scan_int w (ds @ rest) = Some (int (dec_to_nat ds), rest)"
proof -
  obtain d ds' where ds: "ds = d # ds'" using assms by (cases ds) auto
  with assms(3) have d: "is_digit d" by simp
  then have sk: "dropWhile is_space (ds @ rest) = ds @ rest"
    by (simp add: ds)
  have "takeWhile is_digit (take w (ds @ rest)) = ds"
    using assms by (simp add: takeWhile_eq_all_conv)
  with d sk show ?thesis
    by (auto simp: scan_int_def Let_def ds)
qed

lemma scan_int_fmt_0d:
  assumes "0 \<le> i" and "i < 10 ^ w" and "0 < w"
  shows "scan_int w (fmt_0d w i @ rest) = Some (i, rest)"
  using scan_int_digits [OF fmt_0d_nonneg(1) [OF assms] assms(3) fmt_0d_nonneg(2) [OF assms]]
    fmt_0d_nonneg(3) [OF assms] assms(1)
  by simp

lemma sscanf_fmt_0d:
  assumes "0 \<le> i" and "i < 10 ^ w" and "0 < w"
  shows "sscanf (ConvInt w # fs) (fmt_0d w i @ rest) = i # sscanf fs rest"
  using scan_int_fmt_0d [OF assms] by simp

lemma fmt_0d_no_nul: "0 \<le> i \<Longrightarrow> CHR 0x00 \<notin> set (fmt_0d w i)"
  using digits_nat_to_dec [of "nat i"] digit_not_nul
  by (fastforce simp: fmt_0d_def zero_pad_def)

text \<open>
  \<^verbatim>\<open>strtol\<close> with base ten: white space, a sign, digits; the value is clamped to the range of
  \<^verbatim>\<open>long\<close>. The second component says whether there was a digit at all.
\<close>

definition strtol :: "string \<Rightarrow> int \<times> bool" where
  "strtol s =
     (let s1 = dropWhile is_space s;
          neg = (s1 \<noteq> [] \<and> hd s1 = CHR ''-'');
          s2 = (if s1 \<noteq> [] \<and> (hd s1 = CHR ''-'' \<or> hd s1 = CHR ''+'') then tl s1 else s1);
          ds = takeWhile is_digit s2;
          v = (if neg then - int (dec_to_nat ds) else int (dec_to_nat ds))
      in (max (- (2 ^ 63)) (min (2 ^ 63 - 1) v), ds \<noteq> []))"

text \<open>\<^verbatim>\<open>atoi\<close> truncates the \<^verbatim>\<open>long\<close> to an \<^verbatim>\<open>int\<close>; \<^verbatim>\<open>std::stoi\<close> checks both failures.\<close>

definition atoi :: "string \<Rightarrow> int" where
  "atoi s = sint (word_of_int (fst (strtol (c_str s))) :: 32 word)"

definition stoi :: "string \<Rightarrow> int result" where
  "stoi s =
     (let (v, ok) = strtol (c_str s)
      in if \<not> ok then Inl (InvalidArgument ''stoi'')
         else if v < - (2 ^ 31) \<or> 2 ^ 31 - 1 < v then Inl (OutOfRange ''stoi'')
         else Inr v)"

end
