(* ===== verification/Calendar.thy ===== *)
theory Calendar
  imports Cstd
begin

text \<open>
  The calendar functions of the C library that \<^verbatim>\<open>main.cpp\<close> calls: \<^verbatim>\<open>timegm\<close>, from broken-down
  UTC time to seconds since the epoch (with the normalisation of an out-of-range month), and
  \<^verbatim>\<open>gmtime_r\<close>, from seconds to broken-down time, both on the proleptic Gregorian calendar. The
  main lemma is that the second is a right inverse of the first and yields fields in range.
\<close>

record tm =
  tm_year :: int
  tm_mon :: int
  tm_mday :: int
  tm_hour :: int
  tm_min :: int
  tm_sec :: int

definition leap_year :: "int \<Rightarrow> bool" where
  "leap_year y \<longleftrightarrow> y mod 4 = 0 \<and> (y mod 100 \<noteq> 0 \<or> y mod 400 = 0)"

text \<open>Days from 1 January 1970 to 1 January of a year.\<close>

definition days_before_year :: "int \<Rightarrow> int" where
  "days_before_year y =
     365 * (y - 1970) + (y - 1969) div 4 - (y - 1901) div 100 + (y - 1601) div 400"

definition month_starts :: "bool \<Rightarrow> int list" where
  "month_starts leap =
     (if leap then [0, 31, 60, 91, 121, 152, 182, 213, 244, 274, 305, 335]
      else [0, 31, 59, 90, 120, 151, 181, 212, 243, 273, 304, 334])"

definition timegm :: "tm \<Rightarrow> int" where
  "timegm t =
     (let y = 1900 + tm_year t + tm_mon t div 12;
          m = nat (tm_mon t mod 12);
          days = days_before_year y + month_starts (leap_year y) ! m + (tm_mday t - 1)
      in ((days * 24 + tm_hour t) * 60 + tm_min t) * 60 + tm_sec t)"

section \<open>From seconds to broken-down time\<close>

lemma div_less_bound:
  assumes "0 < (n :: int)" and "x < n * k"
  shows "x div n < k"
proof -
  have "n * (x div n) \<le> x"
    using assms(1) by (simp add: mult.commute pos_mod_sign minus_mod_eq_mult_div [symmetric])
  with assms(2) have "n * (x div n) < n * k" by simp
  with assms(1) show ?thesis by simp
qed
lemma div_Suc_int:
  "0 < (n :: int) \<Longrightarrow> (x + 1) div n = x div n + (if (x + 1) mod n = 0 then 1 else 0)"
proof -
  assume n: "0 < n"
  define q r where "q = x div n" and "r = x mod n"
  have x: "x = q * n + r" and r: "0 \<le> r" "r < n"
    using n by (simp_all add: q_def r_def)
  show ?thesis
  proof (cases "r + 1 = n")
    case True
    with x have "x + 1 = (q + 1) * n" by (simp add: algebra_simps)
    with n show ?thesis by (simp add: q_def)
  next
    case False
    with r have r1: "0 \<le> r + 1" "r + 1 < n" by auto
    have e: "x + 1 = (r + 1) + q * n" using x by simp
    have "(x + 1) div n = q" unfolding e using r1 n by simp
    moreover have "(x + 1) mod n = r + 1" unfolding e using r1 n by simp
    ultimately show ?thesis using r by (simp add: q_def [symmetric])
  qed
qed

lemma div_Suc_shift:
  assumes "0 < (n :: int)" and "m = n * k" and "m' = m + 1"
  shows "(y - m) div n = (y - m') div n + (if y mod n = 0 then 1 else 0)"
proof -
  have "(y - m) mod n = y mod n"
    unfolding assms(2) using mod_mult_self2 [of y n "- k"] by simp
  with div_Suc_int [OF assms(1), of "y - m'"] show ?thesis
    by (simp add: assms(3))
qed

lemma regroup:
  "a + 365 + (p + i) - (q + j) + (r + k) = (a + p - q + r) + 365 + i - j + (k :: int)"
  by (simp only: algebra_simps)

lemma shift_years:
  "365 * (y + 1 - 1970) = 365 * (y - 1970) + (365 :: int)" "y + 1 - 1969 = y - (1968 :: int)"
  "y + 1 - 1901 = y - (1900 :: int)" "y + 1 - 1601 = y - (1600 :: int)"
  by simp_all

lemma leap_rule:
  "(c \<Longrightarrow> b) \<Longrightarrow> (b \<Longrightarrow> a) \<Longrightarrow>
     d + 365 + (if a then 1 else 0) - (if b then 1 else 0) + (if c then 1 else 0) =
     d + (if a \<and> (\<not> b \<or> c) then 366 else 365 :: int)"
  by (cases a; cases b; cases c; simp)

lemma days_before_year_Suc:
  "days_before_year (y + 1) = days_before_year y + (if leap_year y then 366 else 365)"
proof -
  have 4: "(y - 1968) div 4 = (y - 1969) div 4 + (if y mod 4 = 0 then 1 else 0)"
    by (rule div_Suc_shift [where k = 492]) simp_all
  have 100: "(y - 1900) div 100 = (y - 1901) div 100 + (if y mod 100 = 0 then 1 else 0)"
    by (rule div_Suc_shift [where k = 19]) simp_all
  have 400: "(y - 1600) div 400 = (y - 1601) div 400 + (if y mod 400 = 0 then 1 else 0)"
    by (rule div_Suc_shift [where k = 4]) simp_all
  have sub: "y mod 400 = 0 \<Longrightarrow> y mod 100 = 0" "y mod 100 = 0 \<Longrightarrow> y mod 4 = 0"
    unfolding mod_eq_0_iff_dvd by (rule dvd_trans [rotated], assumption, simp)+
  have "days_before_year (y + 1) =
      365 * (y - 1970) + 365 + (y - 1968) div 4 - (y - 1900) div 100 + (y - 1600) div 400"
    unfolding days_before_year_def by (simp only: shift_years)
  also have "\<dots> = days_before_year y + 365 + (if y mod 4 = 0 then 1 else 0)
      - (if y mod 100 = 0 then 1 else 0) + (if y mod 400 = 0 then 1 else 0)"
    unfolding 4 100 400 days_before_year_def by (rule regroup)
  also have "\<dots> = days_before_year y + (if leap_year y then 366 else 365)"
    unfolding leap_year_def by (rule leap_rule [OF sub])
  finally show ?thesis .
qed

lemma days_before_year_less: "days_before_year y < days_before_year (y + 1)"
  by (simp add: days_before_year_Suc)

text \<open>The year a day falls in, found upwards from a year that does not start after it.\<close>

function find_year :: "int \<Rightarrow> int \<Rightarrow> int" where
  "find_year d y = (if days_before_year (y + 1) \<le> d then find_year d (y + 1) else y)"
  by pat_completeness auto
termination
proof (relation "measure (\<lambda>(d, y). nat (d - days_before_year y))", goal_cases)
  case 1
  then show ?case by simp
next
  case (2 d y)
  then show ?case using days_before_year_less [of y] by simp
qed

declare find_year.simps [simp del]

definition year_of_days :: "int \<Rightarrow> int" where
  "year_of_days d = find_year d (1970 + (if 0 \<le> d then d div 366 else d div 365))"

text \<open>The month of a day of the year: the last month that starts on or before it.\<close>

definition month_of_yday :: "bool \<Rightarrow> int \<Rightarrow> nat" where
  "month_of_yday leap yday = length (takeWhile (\<lambda>s. s \<le> yday) (tl (month_starts leap)))"

definition gmtime :: "int \<Rightarrow> tm" where
  "gmtime t =
     (let days = t div 86400; rem = t mod 86400;
          y = year_of_days days;
          yday = days - days_before_year y;
          m = month_of_yday (leap_year y) yday
      in \<lparr>tm_year = y - 1900, tm_mon = int m,
          tm_mday = yday - month_starts (leap_year y) ! m + 1,
          tm_hour = rem div 3600, tm_min = rem mod 3600 div 60, tm_sec = rem mod 60\<rparr>)"

section \<open>Correctness\<close>

lemma find_year_bounds:
  "days_before_year y \<le> d \<Longrightarrow>
     days_before_year (find_year d y) \<le> d \<and> d < days_before_year (find_year d y + 1)"
proof (induction d y rule: find_year.induct)
  case (1 d y)
  show ?case
  proof (cases "days_before_year (y + 1) \<le> d")
    case True
    with 1 show ?thesis by (simp add: find_year.simps [of d y])
  next
    case False
    with 1(2) show ?thesis by (simp add: find_year.simps [of d y])
  qed
qed

lemma days_before_year_offset:
  "0 \<le> k \<Longrightarrow> days_before_year (1970 + k) \<le> 366 * k"
  "k \<le> 0 \<Longrightarrow> days_before_year (1970 + k) \<le> 365 * k"
proof -
  have up: "days_before_year (1970 + int n) \<le> 366 * int n" for n
  proof (induction n)
    case 0
    then show ?case by (simp add: days_before_year_def)
  next
    case (Suc n)
    then show ?case
      using days_before_year_Suc [of "1970 + int n"] by (auto simp: algebra_simps split: if_splits)
  qed
  have down: "days_before_year (1970 - int n) \<le> - (365 * int n)" for n
  proof (induction n)
    case 0
    then show ?case by (simp add: days_before_year_def)
  next
    case (Suc n)
    then show ?case
      using days_before_year_Suc [of "1970 - int (Suc n)"]
      by (auto simp: algebra_simps split: if_splits)
  qed
  show "0 \<le> k \<Longrightarrow> days_before_year (1970 + k) \<le> 366 * k"
    using up [of "nat k"] by simp
  show "k \<le> 0 \<Longrightarrow> days_before_year (1970 + k) \<le> 365 * k"
    using down [of "nat (- k)"] by simp
qed

lemma year_of_days_bounds:
  "days_before_year (year_of_days d) \<le> d"
  "d < days_before_year (year_of_days d + 1)"
proof -
  have "days_before_year (1970 + (if 0 \<le> d then d div 366 else d div 365)) \<le> d"
  proof (cases "0 \<le> d")
    case True
    have "days_before_year (1970 + d div 366) \<le> 366 * (d div 366)"
      using True by (intro days_before_year_offset(1)) simp
    also have "\<dots> \<le> d" by presburger
    finally show ?thesis using True by simp
  next
    case False
    have "days_before_year (1970 + d div 365) \<le> 365 * (d div 365)"
      using False by (intro days_before_year_offset(2)) presburger
    also have "\<dots> \<le> d" by presburger
    finally show ?thesis using False by simp
  qed
  from find_year_bounds [OF this]
  show "days_before_year (year_of_days d) \<le> d" "d < days_before_year (year_of_days d + 1)"
    by (simp_all add: year_of_days_def)
qed

lemma days_before_year_mono: "y \<le> z \<Longrightarrow> days_before_year y \<le> days_before_year z"
proof -
  have "days_before_year y \<le> days_before_year (y + int n)" for n
  proof (induction n)
    case (Suc n)
    then show ?case
      using days_before_year_less [of "y + int n"] by (simp add: algebra_simps)
  qed simp
  from this [of "nat (z - y)"] show "y \<le> z \<Longrightarrow> days_before_year y \<le> days_before_year z"
    by simp
qed

lemma year_of_days_le: "d < days_before_year (z + 1) \<Longrightarrow> year_of_days d \<le> z"
  using year_of_days_bounds(1) [of d] days_before_year_mono [of "z + 1" "year_of_days d"]
  by linarith

lemma year_of_days_ge: "days_before_year z \<le> d \<Longrightarrow> z \<le> year_of_days d"
  using year_of_days_bounds(2) [of d] days_before_year_mono [of "year_of_days d + 1" z]
  by linarith

lemma month_of_yday_bounds:
  assumes "0 \<le> yday" and "yday < (if leap then 366 else 365)"
  shows "month_of_yday leap yday < 12"
    and "month_starts leap ! month_of_yday leap yday \<le> yday"
    and "yday - month_starts leap ! month_of_yday leap yday < 31"
proof -
  have "month_of_yday leap yday < 12 \<and> month_starts leap ! month_of_yday leap yday \<le> yday \<and>
    yday - month_starts leap ! month_of_yday leap yday < 31"
    using assms by (cases leap) (simp_all add: month_of_yday_def month_starts_def)
  then show "month_of_yday leap yday < 12"
    and "month_starts leap ! month_of_yday leap yday \<le> yday"
    and "yday - month_starts leap ! month_of_yday leap yday < 31"
    by blast+
qed

lemma yday_bounds:
  "0 \<le> d - days_before_year (year_of_days d)"
  "d - days_before_year (year_of_days d) < (if leap_year (year_of_days d) then 366 else 365)"
  using year_of_days_bounds [of d] days_before_year_Suc [of "year_of_days d"] by auto

lemmas month_of_day_bounds = month_of_yday_bounds [OF yday_bounds]

lemma gmtime_mon_mday:
  "0 \<le> tm_mon (gmtime t) \<and> tm_mon (gmtime t) < 12"
  "1 \<le> tm_mday (gmtime t) \<and> tm_mday (gmtime t) \<le> 31"
proof -
  define d where "d = t div 86400"
  show "0 \<le> tm_mon (gmtime t) \<and> tm_mon (gmtime t) < 12"
    "1 \<le> tm_mday (gmtime t) \<and> tm_mday (gmtime t) \<le> 31"
    using month_of_day_bounds [of d] by (simp_all add: gmtime_def Let_def d_def [symmetric])
qed

lemma clock_fields:
  assumes "0 \<le> r" and "r < (86400 :: int)"
  shows "0 \<le> r div 3600 \<and> r div 3600 < 24"
    and "0 \<le> r mod 3600 div 60 \<and> r mod 3600 div 60 < 60"
    and "((d * 24 + r div 3600) * 60 + r mod 3600 div 60) * 60 + r mod 60 = d * 86400 + r"
proof -
  show "0 \<le> r div 3600 \<and> r div 3600 < 24"
    using assms div_less_bound [of 3600 r 24] by (simp add: pos_imp_zdiv_nonneg_iff)
  show "0 \<le> r mod 3600 div 60 \<and> r mod 3600 div 60 < 60"
    using div_less_bound [of 60 "r mod 3600" 60] by (simp add: pos_imp_zdiv_nonneg_iff)
  have hms: "r = h * 3600 + s \<Longrightarrow> s = m * 60 + u \<Longrightarrow>
      ((d * 24 + h) * 60 + m) * 60 + u = d * 86400 + r" for h s m u
    by simp
  have "r mod 60 = r mod 3600 mod 60"
    by (simp add: mod_mod_cancel)
  then show "((d * 24 + r div 3600) * 60 + r mod 3600 div 60) * 60 + r mod 60 = d * 86400 + r"
    by (simp only:) (rule hms [where s = "r mod 3600"], simp_all only: div_mult_mod_eq)
qed

lemma gmtime_clock:
  "0 \<le> tm_hour (gmtime t) \<and> tm_hour (gmtime t) < 24"
  "0 \<le> tm_min (gmtime t) \<and> tm_min (gmtime t) < 60"
  "0 \<le> tm_sec (gmtime t) \<and> tm_sec (gmtime t) < 60"
  using clock_fields(1,2) [of "t mod 86400"] pos_mod_sign [of 86400 t] pos_mod_bound [of 86400 t]
    pos_mod_sign [of 60 "t mod 86400"] pos_mod_bound [of 60 "t mod 86400"]
  unfolding gmtime_def Let_def tm.simps by (simp_all only: simp_thms)

lemma timegm_fields:
  assumes "m < 12"
  shows "timegm \<lparr>tm_year = y - 1900, tm_mon = int m,
      tm_mday = yday - month_starts (leap_year y) ! m + 1, tm_hour = h, tm_min = mi, tm_sec = s\<rparr> =
    (((days_before_year y + yday) * 24 + h) * 60 + mi) * 60 + s"
  using assms by (simp add: timegm_def Let_def)

lemma timegm_gmtime: "timegm (gmtime t) = t"
proof -
  let ?d = "t div 86400" and ?r = "t mod 86400"
  have "timegm (gmtime t) = ((?d * 24 + ?r div 3600) * 60 + ?r mod 3600 div 60) * 60 + ?r mod 60"
    unfolding gmtime_def Let_def timegm_fields [OF month_of_day_bounds(1)]
    by (simp only: add_diff_eq add_diff_cancel_left')
  also have "\<dots> = ?d * 86400 + ?r"
    by (rule clock_fields(3)) simp_all
  finally show ?thesis by (simp only: div_mult_mod_eq)
qed

text \<open>The year of a second between the epoch and the end of the year 9999.\<close>

lemma gmtime_year_4digits:
  assumes "0 \<le> t" and "t < 253402300800"
  shows "70 \<le> tm_year (gmtime t)" and "tm_year (gmtime t) \<le> 8099"
proof -
  have "0 \<le> t div 86400" "t div 86400 < 2932897"
    using assms div_less_bound [of 86400 t 2932897] by (simp_all add: pos_imp_zdiv_nonneg_iff)
  then have "1970 \<le> year_of_days (t div 86400)" "year_of_days (t div 86400) \<le> 9999"
    by (auto intro!: year_of_days_ge year_of_days_le simp: days_before_year_def)
  then show "70 \<le> tm_year (gmtime t)" "tm_year (gmtime t) \<le> 8099"
    by (simp_all add: gmtime_def Let_def)
qed

end
