(* ===== verification/Worker_Queue.thy ===== *)
theory Worker_Queue
  imports Prelude
begin

text \<open>
  The per-worker payment queue of \<^verbatim>\<open>PaymentService\<close> (src/src/main.cpp): a payment is kept as
  the raw bytes of its request body (\<^verbatim>\<open>struct RawPayment\<close>), a queue is a fixed vector with two
  free-running 64-bit cursors (\<^verbatim>\<open>struct WorkerQueue\<close>), \<^verbatim>\<open>enqueue\<close> writes at the tail cursor
  without asking whether there is room, \<^verbatim>\<open>fetch_next\<close> reads at the head cursor.

  The locale \<open>fifo\<close> states what a client needs of such a queue in terms of the list of pending
  items; the interpretation shows that the ring of the code meets it while it has room, and the
  lemma on a full ring says exactly what is lost when it has none.
\<close>

section \<open>Data\<close>

text \<open>\<^verbatim>\<open>std::array<uint8_t, 70> data\<close> and \<^verbatim>\<open>size_t size\<close>.\<close>

record raw_payment =
  rp_data :: bytes
  rp_size :: u64

definition RAW_CAPACITY :: nat where
  "RAW_CAPACITY = 70"

definition raw_payment_init :: raw_payment where
  "raw_payment_init = \<lparr>rp_data = replicate RAW_CAPACITY (CHR 0x00), rp_size = 0\<rparr>"

text \<open>The condition variable of the struct is never used and has no counterpart.\<close>

record worker_queue =
  wq_queue :: "raw_payment list"
  wq_head :: u64
  wq_tail :: u64

definition QUEUE_CAPACITY :: nat where
  "QUEUE_CAPACITY = 100000"

text \<open>\<^verbatim>\<open>make_unique<WorkerQueue>()\<close> followed by \<^verbatim>\<open>queue.resize(n)\<close>.\<close>

definition worker_queue_new :: "nat \<Rightarrow> worker_queue" where
  "worker_queue_new n = \<lparr>wq_queue = replicate n raw_payment_init, wq_head = 0, wq_tail = 0\<rparr>"

section \<open>Operations\<close>

text \<open>
  \<^verbatim>\<open>q.tail++\<close> and \<^verbatim>\<open>q.queue[pos % q.queue.size()] = r\<close>; the remainder by the size of an empty
  vector is a division by zero.
\<close>

definition wq_push :: "worker_queue \<Rightarrow> raw_payment \<Rightarrow> worker_queue result" where
  "wq_push q r =
     (let pos = wq_tail q; n = length (wq_queue q) in
      if n = 0 then Inl DivisionByZero
      else rbind (vec_set (wq_queue q) (unat pos mod n) r)
             (\<lambda>buf. Inr (q\<lparr>wq_queue := buf, wq_tail := pos + 1\<rparr>)))"

definition wq_pop :: "bool \<Rightarrow> worker_queue \<Rightarrow> (worker_queue \<times> raw_payment option) result" where
  "wq_pop running q =
     (if \<not> running \<or> wq_head q \<ge> wq_tail q then Inr (q, None)
      else let idx = wq_head q; n = length (wq_queue q) in
        if n = 0 then Inl DivisionByZero
        else rbind (vec_get (wq_queue q) (unat idx mod n))
               (\<lambda>r. Inr (q\<lparr>wq_head := idx + 1\<rparr>, Some r)))"

text \<open>The members of \<^verbatim>\<open>PaymentService\<close>: \<^verbatim>\<open>*queues[queue_idx]\<close> is not bounds-checked.\<close>

definition enqueue :: "worker_queue list \<Rightarrow> nat \<Rightarrow> raw_payment \<Rightarrow> worker_queue list result" where
  "enqueue queues queue_idx r =
     rbind (vec_get queues queue_idx) (\<lambda>q.
     rbind (wq_push q r) (\<lambda>q'. vec_set queues queue_idx q'))"

definition fetch_next ::
  "bool \<Rightarrow> worker_queue list \<Rightarrow> nat \<Rightarrow> (worker_queue list \<times> raw_payment option) result" where
  "fetch_next running queues worker_id =
     rbind (vec_get queues worker_id) (\<lambda>q.
     rbind (wq_pop running q) (\<lambda>(q', r).
     rbind (vec_set queues worker_id q') (\<lambda>qs. Inr (qs, r))))"

definition queue_count :: "worker_queue list \<Rightarrow> u64" where
  "queue_count queues = of_nat (length queues)"

section \<open>The interface of a queue\<close>

text \<open>Pushing the items of a list one after the other, popping a number of times.\<close>

fun push_all :: "('q \<Rightarrow> 'a \<Rightarrow> 'q result) \<Rightarrow> 'q \<Rightarrow> 'a list \<Rightarrow> 'q result" where
  "push_all push q [] = Inr q"
| "push_all push q (x # xs) = rbind (push q x) (\<lambda>q'. push_all push q' xs)"

fun pop_many :: "('q \<Rightarrow> ('q \<times> 'a option) result) \<Rightarrow> 'q \<Rightarrow> nat \<Rightarrow> ('q \<times> 'a option list) result" where
  "pop_many pop q 0 = Inr (q, [])"
| "pop_many pop q (Suc n) =
     rbind (pop q) (\<lambda>(q', x). rbind (pop_many pop q' n) (\<lambda>(q'', xs). Inr (q'', x # xs)))"

locale fifo =
  fixes push :: "'q \<Rightarrow> 'a \<Rightarrow> 'q result"
    and pop :: "'q \<Rightarrow> ('q \<times> 'a option) result"
    and contents :: "'q \<Rightarrow> 'a list"
    and room :: "'q \<Rightarrow> nat"
    and wf :: "'q \<Rightarrow> bool"
  assumes push_room: "wf q \<Longrightarrow> 0 < room q \<Longrightarrow>
      \<exists>q'. push q x = Inr q' \<and> wf q' \<and> contents q' = contents q @ [x] \<and> room q \<le> Suc (room q')"
    and pop_empty: "wf q \<Longrightarrow> contents q = [] \<Longrightarrow> pop q = Inr (q, None)"
    and pop_first: "wf q \<Longrightarrow> contents q = x # xs \<Longrightarrow>
      \<exists>q'. pop q = Inr (q', Some x) \<and> wf q' \<and> contents q' = xs \<and> room q \<le> room q'"
begin

lemma push_all_room:
  "wf q \<Longrightarrow> length xs \<le> room q \<Longrightarrow>
     \<exists>q'. push_all push q xs = Inr q' \<and> wf q' \<and> contents q' = contents q @ xs"
proof (induction xs arbitrary: q)
  case Nil
  then show ?case by simp
next
  case (Cons x xs)
  then obtain q1 where q1: "push q x = Inr q1" "wf q1" "contents q1 = contents q @ [x]"
      "room q \<le> Suc (room q1)"
    using push_room [of q x] by auto
  with Cons.prems Cons.IH [of q1] show ?case by auto
qed

lemma pop_many_contents:
  "wf q \<Longrightarrow> n \<le> length (contents q) \<Longrightarrow>
     \<exists>q'. pop_many pop q n = Inr (q', map Some (take n (contents q))) \<and> wf q' \<and>
       contents q' = drop n (contents q)"
proof (induction n arbitrary: q)
  case 0
  then show ?case by simp
next
  case (Suc n)
  then obtain x xs where c: "contents q = x # xs" by (cases "contents q") auto
  with Suc.prems obtain q1 where q1: "pop q = Inr (q1, Some x)" "wf q1" "contents q1 = xs"
    using pop_first [of q x xs] by auto
  with c Suc.prems Suc.IH [of q1] show ?case by auto
qed

lemma first_in_first_out:
  assumes "wf q" and "contents q = []" and "length xs \<le> room q"
  shows "\<exists>q' q''. push_all push q xs = Inr q' \<and>
    pop_many pop q' (length xs) = Inr (q'', map Some xs) \<and> pop q'' = Inr (q'', None)"
proof -
  obtain q1 where q1: "push_all push q xs = Inr q1" "wf q1" "contents q1 = xs"
    using push_all_room [OF assms(1,3)] assms(2) by auto
  then obtain q2 where "pop_many pop q1 (length xs) = Inr (q2, map Some xs)" "wf q2"
      "contents q2 = []"
    using pop_many_contents [of q1 "length xs"] by auto
  then show ?thesis using q1(1) pop_empty [of q2] by blast
qed

end

section \<open>The ring implements the interface\<close>

definition wq_contents :: "worker_queue \<Rightarrow> raw_payment list" where
  "wq_contents q =
     map (\<lambda>i. wq_queue q ! (i mod length (wq_queue q))) [unat (wq_head q)..<unat (wq_tail q)]"

text \<open>
  The ring is well formed when it has at least one slot, the head cursor has not passed the tail
  cursor, and the pending window fits the ring. The tail cursor never wraps within the room that
  \<open>wq_room\<close> counts: the free slots, cut off at the end of the 64-bit range.
\<close>

definition wq_wf :: "worker_queue \<Rightarrow> bool" where
  "wq_wf q \<longleftrightarrow> 0 < length (wq_queue q) \<and> wq_head q \<le> wq_tail q \<and>
     unat (wq_tail q) - unat (wq_head q) \<le> length (wq_queue q)"

definition wq_room :: "worker_queue \<Rightarrow> nat" where
  "wq_room q = min (length (wq_queue q) - (unat (wq_tail q) - unat (wq_head q)))
                   (2 ^ 64 - 1 - unat (wq_tail q))"

lemma length_wq_contents [simp]:
  "length (wq_contents q) = unat (wq_tail q) - unat (wq_head q)"
  by (simp add: wq_contents_def)

lemma wq_wf_new: "0 < n \<Longrightarrow> wq_wf (worker_queue_new n)"
  by (simp add: wq_wf_def worker_queue_new_def)

lemma wq_contents_new [simp]: "wq_contents (worker_queue_new n) = []"
  by (simp add: wq_contents_def worker_queue_new_def)

lemma wq_room_new: "n < 2 ^ 64 \<Longrightarrow> wq_room (worker_queue_new n) = n"
  by (simp add: wq_room_def worker_queue_new_def)

lemma mod_window_distinct:
  assumes "i < j" and "j < i + n"
  shows "i mod n \<noteq> (j :: nat) mod n"
proof
  assume "i mod n = j mod n"
  with assms(1) have "n dvd j - i"
    by (metis less_imp_le mod_eq_dvd_iff_nat)
  with assms show False
    by (auto dest!: dvd_imp_le)
qed

lemma wq_push_eq:
  "0 < length (wq_queue q) \<Longrightarrow>
     wq_push q r = Inr (q\<lparr>wq_queue := (wq_queue q)[unat (wq_tail q) mod length (wq_queue q) := r],
                          wq_tail := wq_tail q + 1\<rparr>)"
  by (simp add: wq_push_def Let_def)

lemma wq_push_contents:
  assumes "wq_wf q" and "0 < wq_room q"
  shows "\<exists>q'. wq_push q r = Inr q' \<and> wq_wf q' \<and> wq_contents q' = wq_contents q @ [r] \<and>
    wq_room q \<le> Suc (wq_room q')"
proof -
  let ?n = "length (wq_queue q)" and ?t = "unat (wq_tail q)" and ?h = "unat (wq_head q)"
  let ?q' = "q\<lparr>wq_queue := (wq_queue q)[?t mod ?n := r], wq_tail := wq_tail q + 1\<rparr>"
  have n: "0 < ?n" and ht: "?h \<le> ?t" and free: "?t - ?h < ?n" and t64: "?t + 1 < 2 ^ 64"
    using assms by (auto simp: wq_wf_def wq_room_def word_le_nat_alt)
  have t': "unat (wq_tail q + 1) = ?t + 1"
    using t64 by (rule unat_Suc_no_wrap)
  have keep: "(wq_queue q)[?t mod ?n := r] ! (i mod ?n) = wq_queue q ! (i mod ?n)"
    if "i \<in> set [?h..<?t]" for i
  proof -
    have "i < ?t" and "?t < i + ?n"
      using that ht free by auto
    then show ?thesis
      using mod_window_distinct [of i ?t ?n] by simp
  qed
  have "wq_contents ?q' = wq_contents q @ [r]"
    using n ht keep by (simp add: wq_contents_def t')
  moreover have "wq_wf ?q'"
    using n ht free t' by (simp add: wq_wf_def word_le_nat_alt)
  moreover have "wq_room q \<le> Suc (wq_room ?q')"
    using ht t' by (simp add: wq_room_def)
  ultimately show ?thesis
    using wq_push_eq [OF n] by blast
qed

lemma wq_pop_empty:
  assumes "wq_wf q" and "wq_contents q = []"
  shows "wq_pop running q = Inr (q, None)"
proof -
  have "unat (wq_tail q) - unat (wq_head q) = 0"
    using assms(2) by (metis length_wq_contents list.size(3))
  with assms(1) show ?thesis
    by (simp add: wq_pop_def wq_wf_def word_le_nat_alt)
qed

lemma wq_pop_first:
  assumes "wq_wf q" and c: "wq_contents q = x # xs"
  shows "\<exists>q'. wq_pop True q = Inr (q', Some x) \<and> wq_wf q' \<and> wq_contents q' = xs \<and>
    wq_room q \<le> wq_room q'"
proof -
  let ?n = "length (wq_queue q)" and ?t = "unat (wq_tail q)" and ?h = "unat (wq_head q)"
  let ?q' = "q\<lparr>wq_head := wq_head q + 1\<rparr>"
  have len: "?t - ?h = Suc (length xs)"
    using c by (metis length_wq_contents length_Cons)
  then have lt: "?h < ?t" by simp
  have n: "0 < ?n" and win: "?t - ?h \<le> ?n"
    using assms(1) by (auto simp: wq_wf_def)
  have h': "unat (wq_head q + 1) = ?h + 1"
    using lt unat_u64_less [of "wq_tail q"] by (intro unat_Suc_no_wrap) simp
  have split: "[?h..<?t] = ?h # [?h + 1..<?t]"
    using lt by (simp add: upt_conv_Cons)
  have x: "x = wq_queue q ! (?h mod ?n)" and xs: "xs = wq_contents ?q'"
    using c by (simp_all add: wq_contents_def split h')
  have "wq_pop True q = Inr (?q', Some x)"
    using lt n by (simp add: wq_pop_def Let_def x word_le_nat_alt)
  moreover have "wq_wf ?q'"
    using n win lt h' by (simp add: wq_wf_def word_le_nat_alt)
  moreover have "wq_room q \<le> wq_room ?q'"
    using h' by (simp add: wq_room_def)
  ultimately show ?thesis using xs by blast
qed

interpretation ring: fifo wq_push "wq_pop True" wq_contents wq_room wq_wf
  by unfold_locales (auto intro: wq_push_contents wq_pop_empty wq_pop_first)

text \<open>
  The members of the service, at a fixed worker: the queue is the one at index \<open>i\<close> of the vector
  of queues.
\<close>

lemma enqueue_eq:
  "i < length qs \<Longrightarrow> enqueue qs i r = rbind (wq_push (qs ! i) r) (\<lambda>q'. Inr (qs[i := q']))"
  by (simp add: enqueue_def)

lemma fetch_next_eq:
  "i < length qs \<Longrightarrow> fetch_next running qs i =
     rbind (wq_pop running (qs ! i)) (\<lambda>(q', r). Inr (qs[i := q'], r))"
  by (simp add: fetch_next_def)

interpretation service_ring: fifo
  "\<lambda>qs. enqueue qs i" "\<lambda>qs. fetch_next True qs i" "\<lambda>qs. wq_contents (qs ! i)"
  "\<lambda>qs. wq_room (qs ! i)" "\<lambda>qs. i < length qs \<and> wq_wf (qs ! i)"
  for i
proof (unfold_locales, goal_cases)
  case (1 qs r)
  then show ?case
    using ring.push_room [of "qs ! i" r] by (auto simp: enqueue_eq)
next
  case (2 qs)
  then show ?case
    using ring.pop_empty [of "qs ! i"] by (auto simp: fetch_next_eq)
next
  case (3 qs r rs)
  then show ?case
    using ring.pop_first [of "qs ! i" r rs] by (auto simp: fetch_next_eq)
qed

lemma enqueue_frame:
  "enqueue qs i r = Inr qs' \<Longrightarrow> length qs' = length qs \<and> (\<forall>j. j \<noteq> i \<longrightarrow> qs' ! j = qs ! j)"
  by (auto simp: enqueue_def rbind_Inr_iff vec_set_Inr_iff)

lemma fetch_next_frame:
  "fetch_next running qs i = Inr (qs', r) \<Longrightarrow>
     length qs' = length qs \<and> (\<forall>j. j \<noteq> i \<longrightarrow> qs' ! j = qs ! j)"
  by (auto simp: fetch_next_def rbind_Inr_iff vec_set_Inr_iff)

section \<open>Properties\<close>

text \<open>
  C1. First in, first out: payments enqueued on an empty queue of a running service, no more of
  them than the queue has room for, are handed out by \<^verbatim>\<open>fetch_next\<close> in the order they came, each
  once, and the queue is empty again afterwards.
\<close>

theorem enqueue_fetch_next_fifo:
  assumes "i < length qs" and "wq_wf (qs ! i)" and "wq_contents (qs ! i) = []"
    and "length rs \<le> wq_room (qs ! i)"
  shows "\<exists>qs' qs''. push_all (\<lambda>qs. enqueue qs i) qs rs = Inr qs' \<and>
    pop_many (\<lambda>qs. fetch_next True qs i) qs' (length rs) = Inr (qs'', map Some rs) \<and>
    fetch_next True qs'' i = Inr (qs'', None)"
  by (rule service_ring.first_in_first_out) (use assms in simp_all)

theorem enqueue_fetch_next_fifo_witness:
  "\<exists>qs' qs''. push_all (\<lambda>qs. enqueue qs 0) [worker_queue_new 2] [raw_payment_init, raw_payment_init\<lparr>rp_size := 5\<rparr>] = Inr qs' \<and>
    pop_many (\<lambda>qs. fetch_next True qs 0) qs' (Suc (Suc 0)) =
      Inr (qs'', [Some raw_payment_init, Some (raw_payment_init\<lparr>rp_size := 5\<rparr>)]) \<and>
    fetch_next True qs'' 0 = Inr (qs'', None)"
  using enqueue_fetch_next_fifo [of 0 "[worker_queue_new 2]"
      "[raw_payment_init, raw_payment_init\<lparr>rp_size := 5\<rparr>]"]
  by (simp add: wq_wf_new wq_room_new)

text \<open>
  C28. A full ring: \<^verbatim>\<open>enqueue\<close> has no test for it. The new payment takes the slot of the oldest
  pending one, so the oldest is never handed out, the next \<^verbatim>\<open>fetch_next\<close> returns the new payment
  instead, and the new payment is handed out a second time in its own turn.
\<close>

theorem enqueue_full_overwrites_oldest:
  assumes wf: "wq_wf q" and c: "wq_contents q = x # xs"
    and full: "length (x # xs) = length (wq_queue q)" and t: "unat (wq_tail q) + 1 < 2 ^ 64"
  shows "\<exists>q'. wq_push q r = Inr q' \<and> wq_contents q' = r # xs @ [r] \<and>
    (\<exists>q''. wq_pop True q' = Inr (q'', Some r))"
proof -
  let ?n = "length (wq_queue q)" and ?t = "unat (wq_tail q)" and ?h = "unat (wq_head q)"
  let ?buf = "(wq_queue q)[?t mod ?n := r]"
  let ?q' = "q\<lparr>wq_queue := ?buf, wq_tail := wq_tail q + 1\<rparr>"
  have n: "0 < ?n" using wf by (simp add: wq_wf_def)
  have th: "?t = ?h + ?n"
    using full length_wq_contents [of q] wf unfolding c by (simp add: wq_wf_def word_le_nat_alt)
  have t': "unat (wq_tail q + 1) = ?t + 1"
    using t by (rule unat_Suc_no_wrap)
  have xs: "xs = map (\<lambda>i. wq_queue q ! (i mod ?n)) [?h + 1..<?t]"
    using c n by (simp add: wq_contents_def th upt_conv_Cons)
  have "map (\<lambda>i. ?buf ! (i mod ?n)) [?h + 1..<?t] = xs"
    unfolding xs
  proof (rule map_cong [OF refl])
    fix i assume "i \<in> set [?h + 1..<?t]"
    then have "i < ?t" and "?t < i + ?n" using th by auto
    then show "?buf ! (i mod ?n) = wq_queue q ! (i mod ?n)"
      using mod_window_distinct [of i ?t ?n] by simp
  qed
  moreover have "[?h..<?t + 1] = ?h # [?h + 1..<?t] @ [?t]"
    using n th by (simp add: upt_conv_Cons)
  ultimately have "wq_contents ?q' = r # xs @ [r]"
    using n th by (simp add: wq_contents_def t')
  moreover have "wq_pop True ?q' = Inr (?q'\<lparr>wq_head := wq_head q + 1\<rparr>, Some r)"
    using n th t' by (simp add: wq_pop_def Let_def word_le_nat_alt)
  ultimately show ?thesis using wq_push_eq [OF n, of r] by blast
qed

theorem enqueue_full_overwrites_oldest_witness:
  "\<exists>q'. wq_push \<lparr>wq_queue = [raw_payment_init], wq_head = 0, wq_tail = 1\<rparr>
        (raw_payment_init\<lparr>rp_size := 5\<rparr>) = Inr q' \<and>
    wq_contents q' = [raw_payment_init\<lparr>rp_size := 5\<rparr>, raw_payment_init\<lparr>rp_size := 5\<rparr>]"
  using enqueue_full_overwrites_oldest [of
      "\<lparr>wq_queue = [raw_payment_init], wq_head = 0, wq_tail = 1\<rparr>" raw_payment_init "[]"
      "raw_payment_init\<lparr>rp_size := 5\<rparr>"]
  by (auto simp: wq_wf_def wq_contents_def)

end
