(* ===== verification/Timestamps.thy ===== *)
theory Timestamps
  imports Calendar "HOL-Library.Signed_Division"
begin

text \<open>
  Time stamps in \<^verbatim>\<open>main.cpp\<close>: reading the query bounds (\<^verbatim>\<open>parse_timestamp_ms\<close>), writing the
  \<^verbatim>\<open>requestedAt\<close> member of a processor payload with its per-thread cache
  (\<^verbatim>\<open>create_processor_payload\<close>), and the local time of the profiler report
  (\<^verbatim>\<open>get_local_time\<close>). The clock and the time zone are arguments: \<^verbatim>\<open>time(nullptr)\<close> is the
  argument \<open>now\<close>, \<^verbatim>\<open>localtime_r\<close> is the argument \<open>localtime\<close>.
\<close>

section \<open>Reading\<close>

definition timestamp_format :: "conv list" where
  "timestamp_format =
     [ConvInt 4, ConvLit (CHR ''-''), ConvInt 2, ConvLit (CHR ''-''), ConvInt 2, ConvLit (CHR ''T''),
      ConvInt 2, ConvLit (CHR '':''), ConvInt 2, ConvLit (CHR '':''), ConvInt 2, ConvLit (CHR ''.''),
      ConvInt 3, ConvLit (CHR ''Z'')]"

text \<open>A result other than seven conversions gives 0; the final \<^verbatim>\<open>Z\<close> is not counted.\<close>

definition parse_timestamp_ms :: "string \<Rightarrow> u64" where
  "parse_timestamp_ms ts =
     (case sscanf timestamp_format (c_str ts) of
        [year, mon, mday, hour, minute, sec, ms] \<Rightarrow>
          (let tm = \<lparr>tm_year = year - 1900, tm_mon = mon - 1, tm_mday = mday,
                     tm_hour = hour, tm_min = minute, tm_sec = sec\<rparr>;
               seconds = timegm tm
           in word_of_int seconds * 1000 + word_of_int ms)
      | _ \<Rightarrow> 0)"

section \<open>Writing\<close>

text \<open>The text \<^verbatim>\<open>snprintf\<close> produces for \<^verbatim>\<open>"%04d-%02d-%02dT%02d:%02d:%02d.000Z"\<close>.\<close>

definition requested_at :: "int \<Rightarrow> string" where
  "requested_at now =
     (let t = gmtime now in
      fmt_0d 4 (tm_year t + 1900) @ ''-'' @ fmt_0d 2 (tm_mon t + 1) @ ''-'' @ fmt_0d 2 (tm_mday t) @
      ''T'' @ fmt_0d 2 (tm_hour t) @ '':'' @ fmt_0d 2 (tm_min t) @ '':'' @ fmt_0d 2 (tm_sec t) @
      ''.000Z'')"

text \<open>
  The thread-local variables of \<^verbatim>\<open>create_processor_payload\<close>: a buffer of 32 characters, the second
  it was written for, and the length \<^verbatim>\<open>snprintf\<close> returned.
\<close>

record ts_cache =
  requestedAt :: string
  last_sec :: int
  ts_len :: nat

definition ts_cache_init :: ts_cache where
  "ts_cache_init = \<lparr>requestedAt = replicate 32 (CHR 0x00), last_sec = 0, ts_len = 0\<rparr>"

text \<open>\<^verbatim>\<open>snprintf\<close> into a buffer: as much as fits before the terminator, the rest is left alone.\<close>

definition snprintf_into :: "string \<Rightarrow> string \<Rightarrow> string" where
  "snprintf_into buf s =
     (let kept = take (length buf - 1) s
      in kept @ CHR 0x00 # drop (Suc (length kept)) buf)"

definition refresh_cache :: "int \<Rightarrow> ts_cache \<Rightarrow> ts_cache" where
  "refresh_cache now c =
     (if now \<noteq> last_sec c
      then \<lparr>requestedAt = snprintf_into (requestedAt c) (requested_at now), last_sec = now,
            ts_len = length (requested_at now)\<rparr>
      else c)"

definition requested_at_key :: string where
  \<open>requested_at_key = '',"requestedAt":"''\<close>

definition requested_at_end :: string where
  \<open>requested_at_end = ''"}''\<close>

definition create_processor_payload ::
  "int \<Rightarrow> ts_cache \<Rightarrow> string \<Rightarrow> (ts_cache \<times> string \<times> u64) result" where
  "create_processor_payload now c json =
     (let c' = refresh_cache now c;
          sec_since_epoch = word_of_int now
      in if json = [] then Inl EmptyPopBack
         else if length (requestedAt c') < ts_len c' then Inl BufferOverflow
         else Inr (c', butlast json @ requested_at_key @ take (ts_len c') (requestedAt c') @
                       requested_at_end, sec_since_epoch))"

text \<open>
  \<^verbatim>\<open>get_local_time\<close>: the clock reading in nanoseconds, broken down by \<open>localtime\<close> and printed by
  \<^verbatim>\<open>put_time\<close> with \<^verbatim>\<open>"%Y-%m-%d %H:%M:%S"\<close>, then the milliseconds to three places.
\<close>

definition get_local_time :: "(int \<Rightarrow> tm) \<Rightarrow> int \<Rightarrow> string" where
  "get_local_time localtime now_ns =
     (let t = localtime (now_ns sdiv 1000000000);
          ms = now_ns sdiv 1000000 smod 1000
      in int_to_dec (tm_year t + 1900) @ ''-'' @ fmt_0d 2 (tm_mon t + 1) @ ''-'' @
         fmt_0d 2 (tm_mday t) @ '' '' @ fmt_0d 2 (tm_hour t) @ '':'' @ fmt_0d 2 (tm_min t) @ '':'' @
         fmt_0d 2 (tm_sec t) @ ''.'' @ fmt_0d 3 ms)"

section \<open>Lemmas\<close>

lemma sscanf_timestamp:
  assumes "0 \<le> y" "y < 10000" "0 \<le> mo" "mo < 100" "0 \<le> d" "d < 100" "0 \<le> h" "h < 100"
    "0 \<le> mi" "mi < 100" "0 \<le> s" "s < 100" "0 \<le> ms" "ms < 1000"
  shows "sscanf timestamp_format
      (fmt_0d 4 y @ ''-'' @ fmt_0d 2 mo @ ''-'' @ fmt_0d 2 d @ ''T'' @ fmt_0d 2 h @ '':'' @
       fmt_0d 2 mi @ '':'' @ fmt_0d 2 s @ ''.'' @ fmt_0d 3 ms @ ''Z'') = [y, mo, d, h, mi, s, ms]"
  using assms by (simp add: timestamp_format_def sscanf_fmt_0d del: sscanf.simps(3))

lemma fmt_0d_3_zero: "fmt_0d 3 0 = ''000''"
  by (simp add: fmt_0d_def zero_pad_def nat_to_dec.simps digit_char_0 numeral_2_eq_2)

lemma requested_at_fields:
  assumes "0 \<le> t" and "t < 253402300800"
  shows "0 \<le> tm_year (gmtime t) + 1900" "tm_year (gmtime t) + 1900 < 10000"
    "0 \<le> tm_mon (gmtime t) + 1" "tm_mon (gmtime t) + 1 < 100"
    "0 \<le> tm_mday (gmtime t)" "tm_mday (gmtime t) < 100"
    "0 \<le> tm_hour (gmtime t)" "tm_hour (gmtime t) < 100"
    "0 \<le> tm_min (gmtime t)" "tm_min (gmtime t) < 100"
    "0 \<le> tm_sec (gmtime t)" "tm_sec (gmtime t) < 100"
  using gmtime_year_4digits [OF assms] gmtime_mon_mday [of t] gmtime_clock [of t] by auto

lemma length_requested_at:
  "0 \<le> t \<Longrightarrow> t < 253402300800 \<Longrightarrow> length (requested_at t) = 24"
  using requested_at_fields [of t] by (simp add: requested_at_def Let_def fmt_0d_nonneg(1))

lemma requested_at_no_nul:
  "0 \<le> t \<Longrightarrow> t < 253402300800 \<Longrightarrow> CHR 0x00 \<notin> set (requested_at t)"
  using requested_at_fields [of t] by (simp add: requested_at_def Let_def fmt_0d_no_nul)

lemma sscanf_requested_at:
  assumes "0 \<le> t" and "t < 253402300800"
  shows "sscanf timestamp_format (requested_at t) =
    [tm_year (gmtime t) + 1900, tm_mon (gmtime t) + 1, tm_mday (gmtime t), tm_hour (gmtime t),
     tm_min (gmtime t), tm_sec (gmtime t), 0]"
  using sscanf_timestamp [OF requested_at_fields [OF assms], of 0]
  by (simp add: requested_at_def Let_def fmt_0d_3_zero)

lemma parse_timestamp_requested:
  assumes "0 \<le> t" and "t < 253402300800"
  shows "parse_timestamp_ms (requested_at t) = word_of_int (t * 1000)"
proof -
  have "timegm \<lparr>tm_year = tm_year (gmtime t), tm_mon = tm_mon (gmtime t),
      tm_mday = tm_mday (gmtime t), tm_hour = tm_hour (gmtime t), tm_min = tm_min (gmtime t),
      tm_sec = tm_sec (gmtime t)\<rparr> = t"
    using timegm_gmtime [of t] by (cases "gmtime t") simp
  then show ?thesis
    using sscanf_requested_at [OF assms]
    by (simp add: parse_timestamp_ms_def Let_def c_str_no_nul requested_at_no_nul assms)
qed

lemma unat_word_of_int_small: "0 \<le> i \<Longrightarrow> i < 18446744073709551616 \<Longrightarrow> unat (word_of_int i :: u64) = nat i"
  by (simp add: unat_eq_nat_uint uint_word_of_int)

lemma unat_parse_requested:
  "0 \<le> t \<Longrightarrow> t < 253402300800 \<Longrightarrow> unat (parse_timestamp_ms (requested_at t)) = nat t * 1000"
  by (simp add: parse_timestamp_requested unat_word_of_int_small nat_mult_distrib del: of_int_mult)

text \<open>What the cache of a thread holds: nothing yet, or the text of the second it names.\<close>

definition cache_ok :: "ts_cache \<Rightarrow> bool" where
  "cache_ok c \<longleftrightarrow> length (requestedAt c) = 32 \<and>
     (last_sec c = 0 \<or> ts_len c \<le> 32 \<and> take (ts_len c) (requestedAt c) = requested_at (last_sec c))"

lemma cache_ok_init: "cache_ok ts_cache_init"
  by (simp add: cache_ok_def ts_cache_init_def)

lemma take_snprintf_into:
  "length s < length buf \<Longrightarrow> take (length s) (snprintf_into buf s) = s"
  by (simp add: snprintf_into_def Let_def)

lemma length_snprintf_into: "0 < length buf \<Longrightarrow> length (snprintf_into buf s) = length buf"
  by (cases buf) (auto simp: snprintf_into_def Let_def min_def)

lemma refresh_cache_ok:
  assumes "cache_ok c" and "0 < now" and "now < 253402300800"
  shows "cache_ok (refresh_cache now c)" and "last_sec (refresh_cache now c) = now"
  using assms length_requested_at [of now] take_snprintf_into [of "requested_at now" "requestedAt c"]
  by (auto simp: cache_ok_def refresh_cache_def length_snprintf_into)

lemma create_payload_ok:
  assumes "cache_ok c" and "0 < now" and "now < 253402300800"
  shows "\<exists>c'. create_processor_payload now c (body @ [ch]) =
      Inr (c', body @ requested_at_key @ requested_at now @ requested_at_end, word_of_int now) \<and>
    cache_ok c'"
proof -
  let ?c = "refresh_cache now c"
  note ok = refresh_cache_ok [OF assms]
  with assms(2) have "take (ts_len ?c) (requestedAt ?c) = requested_at now" "ts_len ?c \<le> 32"
    "length (requestedAt ?c) = 32"
    by (auto simp: cache_ok_def)
  with ok show ?thesis
    by (simp add: create_processor_payload_def Let_def)
qed

section \<open>Properties\<close>

text \<open>
  C7. Round trip of time stamps: the text that the service writes into a payload for a second of
  the years 1970 to 9999 is read back by \<^verbatim>\<open>parse_timestamp_ms\<close> as that second, in milliseconds.
\<close>

theorem parse_requested_at:
  assumes "0 \<le> t" and "t < 253402300800"
  shows "parse_timestamp_ms (requested_at t) = word_of_int (t * 1000)"
  using assms by (rule parse_timestamp_requested)

theorem parse_requested_at_witness:
  "parse_timestamp_ms (requested_at 1755300000) = 1755300000000"
  using parse_requested_at [of 1755300000] by simp



end
