(* ===== verification/Double.thy ===== *)
theory Double
  imports Complex_Main Cstd
begin

text \<open>
  The C++ type \<^verbatim>\<open>double\<close>: IEEE 754 binary64 with rounding to nearest, ties to even. A finite value
  is a sign, an integer significand below $2^{53}$ and an exponent between $-1074$ and 971; the
  operations the sources use (addition, division, the comparisons, conversion from an integer and
  from decimal text) compute the exact rational result and round it once. The lemmas show that
  rounding is within half a unit in the last place, that addition has relative error at most
  $2^{-53}$, and that it is exact on integers that fit the significand.
\<close>

datatype double = NaN | Inf bool | Fin bool nat int

section \<open>Rounding\<close>

fun nbits :: "nat \<Rightarrow> nat" where
  "nbits n = (if n = 0 then 0 else Suc (nbits (n div 2)))"

declare nbits.simps [simp del]

definition round_half_even :: "nat \<Rightarrow> nat \<Rightarrow> nat" where
  "round_half_even p q =
     (let d = p div q; r = p mod q
      in if 2 * r < q then d else if q < 2 * r then d + 1 else if even d then d else d + 1)"

text \<open>The exponent of the leading bit of the positive ratio \<open>p / q\<close>.\<close>

definition ilog2 :: "nat \<Rightarrow> nat \<Rightarrow> int" where
  "ilog2 p q =
     (let k = int (nbits p) - int (nbits q)
      in if q * 2 ^ nat k \<le> p * 2 ^ nat (- k) then k else k - 1)"

definition round_ratio :: "bool \<Rightarrow> nat \<Rightarrow> nat \<Rightarrow> double" where
  "round_ratio s p q =
     (if p = 0 then Fin s 0 (- 1074)
      else let e = max (ilog2 p q - 52) (- 1074);
               m = round_half_even (p * 2 ^ nat (- e)) (q * 2 ^ nat e);
               (m', e') = (if m = 2 ^ 53 then (2 ^ 52, e + 1) else (m, e))
           in if 971 < e' then Inf s else Fin s m' e')"

section \<open>Operations\<close>

definition dzero :: double where
  "dzero = Fin False 0 (- 1074)"

definition signed :: "bool \<Rightarrow> nat \<Rightarrow> int" where
  "signed s m = (if s then - int m else int m)"

text \<open>Rounding of \<open>n * 2 ^ e\<close>; the sign of an exact zero is given.\<close>

definition round_scaled :: "bool \<Rightarrow> int \<Rightarrow> int \<Rightarrow> double" where
  "round_scaled zs n e =
     (if n = 0 then Fin zs 0 (- 1074)
      else round_ratio (n < 0) (nat \<bar>n\<bar> * 2 ^ nat e) (2 ^ nat (- e)))"

fun dadd :: "double \<Rightarrow> double \<Rightarrow> double" where
  "dadd (Fin s1 m1 e1) (Fin s2 m2 e2) =
     (let e = min e1 e2
      in round_scaled (s1 \<and> s2)
           (signed s1 m1 * 2 ^ nat (e1 - e) + signed s2 m2 * 2 ^ nat (e2 - e)) e)"
| "dadd (Inf a) (Inf b) = (if a = b then Inf a else NaN)"
| "dadd (Inf a) (Fin _ _ _) = Inf a"
| "dadd (Fin _ _ _) (Inf b) = Inf b"
| "dadd _ _ = NaN"

fun ddiv :: "double \<Rightarrow> double \<Rightarrow> double" where
  "ddiv (Fin s1 m1 e1) (Fin s2 m2 e2) =
     (if m2 = 0 then (if m1 = 0 then NaN else Inf (s1 \<noteq> s2))
      else round_ratio (s1 \<noteq> s2) (m1 * 2 ^ nat (e1 - e2)) (m2 * 2 ^ nat (e2 - e1)))"
| "ddiv (Inf a) (Fin s _ _) = Inf (a \<noteq> s)"
| "ddiv (Fin s _ _) (Inf b) = Fin (s \<noteq> b) 0 (- 1074)"
| "ddiv _ _ = NaN"

fun dmul :: "double \<Rightarrow> double \<Rightarrow> double" where
  "dmul (Fin s1 m1 e1) (Fin s2 m2 e2) =
     round_ratio (s1 \<noteq> s2) (m1 * m2 * 2 ^ nat (e1 + e2)) (2 ^ nat (- (e1 + e2)))"
| "dmul (Inf a) (Inf b) = Inf (a \<noteq> b)"
| "dmul (Inf a) (Fin s m _) = (if m = 0 then NaN else Inf (a \<noteq> s))"
| "dmul (Fin s m _) (Inf b) = (if m = 0 then NaN else Inf (s \<noteq> b))"
| "dmul _ _ = NaN"

fun dneg :: "double \<Rightarrow> double" where
  "dneg (Fin s m e) = Fin (\<not> s) m e"
| "dneg (Inf s) = Inf (\<not> s)"
| "dneg NaN = NaN"

definition dsub :: "double \<Rightarrow> double \<Rightarrow> double" where
  "dsub x y = dadd x (dneg y)"

text \<open>Conversion to an integer, towards zero; the result must be in the range of the target type.\<close>

fun dtrunc :: "double \<Rightarrow> int" where
  "dtrunc (Fin s m e) = signed s (m * 2 ^ nat e div 2 ^ nat (- e))"
| "dtrunc _ = 0"

text \<open>Comparison: \<^const>\<open>None\<close> when an operand is not a number.\<close>

fun dcmp :: "double \<Rightarrow> double \<Rightarrow> int option" where
  "dcmp (Fin s1 m1 e1) (Fin s2 m2 e2) =
     (let e = min e1 e2
      in Some (sgn (signed s1 m1 * 2 ^ nat (e1 - e) - signed s2 m2 * 2 ^ nat (e2 - e))))"
| "dcmp (Inf a) (Inf b) = Some (if a = b then 0 else if a then - 1 else 1)"
| "dcmp (Inf a) (Fin _ _ _) = Some (if a then - 1 else 1)"
| "dcmp (Fin _ _ _) (Inf b) = Some (if b then 1 else - 1)"
| "dcmp _ _ = None"

definition deq :: "double \<Rightarrow> double \<Rightarrow> bool" where
  "deq x y \<longleftrightarrow> dcmp x y = Some 0"

definition dlt :: "double \<Rightarrow> double \<Rightarrow> bool" where
  "dlt x y \<longleftrightarrow> dcmp x y = Some (- 1)"

definition dge :: "double \<Rightarrow> double \<Rightarrow> bool" where
  "dge x y \<longleftrightarrow> dcmp x y = Some 0 \<or> dcmp x y = Some 1"

definition int_to_double :: "int \<Rightarrow> double" where
  "int_to_double i = round_scaled False i 0"

section \<open>Decimal and hexadecimal text\<close>

definition hex_val :: "char \<Rightarrow> nat option" where
  "hex_val c =
     (let n = of_char c :: nat
      in if 48 \<le> n \<and> n \<le> 57 then Some (n - 48)
         else if 65 \<le> n \<and> n \<le> 70 then Some (n - 55)
         else if 97 \<le> n \<and> n \<le> 102 then Some (n - 87)
         else None)"

definition hex_to_nat :: "string \<Rightarrow> nat" where
  "hex_to_nat s = foldl (\<lambda>a c. 16 * a + the (hex_val c)) 0 s"

text \<open>An exponent part, \<open>e\<close> or \<open>p\<close> with an optional sign and at least one digit, else nothing.\<close>

definition exponent_part :: "char \<Rightarrow> string \<Rightarrow> int" where
  "exponent_part mark s =
     (case s of [] \<Rightarrow> 0
      | c # r \<Rightarrow>
          if tolower c = mark then
            let neg = (r \<noteq> [] \<and> hd r = CHR ''-'');
                r' = (if r \<noteq> [] \<and> (hd r = CHR ''-'' \<or> hd r = CHR ''+'') then tl r else r);
                ds = takeWhile is_digit r'
            in if neg then - int (dec_to_nat ds) else int (dec_to_nat ds)
          else 0)"

text \<open>Digits with an optional point: integer part, fraction part and what follows.\<close>

definition point_split :: "(char \<Rightarrow> bool) \<Rightarrow> string \<Rightarrow> string \<times> string \<times> string" where
  "point_split dig s =
     (let ip = takeWhile dig s; r = dropWhile dig s
      in case r of
           [] \<Rightarrow> (ip, [], [])
         | c # r' \<Rightarrow> if c = CHR ''.'' then (ip, takeWhile dig r', dropWhile dig r') else (ip, [], r))"

text \<open>\<open>n * b ^ x\<close> as a ratio of naturals.\<close>

definition power_ratio :: "nat \<Rightarrow> nat \<Rightarrow> int \<Rightarrow> nat \<times> nat" where
  "power_ratio n b x = (n * b ^ nat x, b ^ nat (- x))"

text \<open>
  \<^verbatim>\<open>strtod\<close> in the C locale: white space, a sign, then \<^verbatim>\<open>inf\<close>, \<^verbatim>\<open>nan\<close>, a hexadecimal or a decimal
  number; \<^const>\<open>None\<close> when there is no number. The flag is a range error: an infinite result from a
  finite text, or a result that is inexact and was tiny before it was stored.
\<close>

definition range_error :: "nat \<Rightarrow> nat \<Rightarrow> double \<Rightarrow> bool" where
  "range_error p q d =
     (case d of Inf _ \<Rightarrow> True | NaN \<Rightarrow> False
      | Fin _ m e \<Rightarrow> p \<noteq> 0 \<and> p * 2 ^ 1076 < q * (2 ^ 54 - 1) \<and>
                     m * 2 ^ nat e * q \<noteq> p * 2 ^ nat (- e))"

definition strtod :: "string \<Rightarrow> (double \<times> bool) option" where
  "strtod s =
     (let s1 = dropWhile is_space s;
          neg = (s1 \<noteq> [] \<and> hd s1 = CHR ''-'');
          s2 = (if s1 \<noteq> [] \<and> (hd s1 = CHR ''-'' \<or> hd s1 = CHR ''+'') then tl s1 else s1);
          low = map tolower s2;
          finish = (\<lambda>(p, q). let d = round_ratio neg p q in Some (d, range_error p q d));
          (hi, hf, hr) = point_split (\<lambda>c. hex_val c \<noteq> None) (drop 2 s2);
          (di, df, dr) = point_split is_digit s2
      in if is_prefix ''inf'' low then Some (Inf neg, False)
         else if is_prefix ''nan'' low then Some (NaN, False)
         else if is_prefix ''0x'' low \<and> hi @ hf \<noteq> [] then
           finish (power_ratio (hex_to_nat (hi @ hf)) 2
                     (exponent_part (CHR ''p'') hr - 4 * int (length hf)))
         else if di @ df = [] then None
         else finish (power_ratio (dec_to_nat (di @ df)) 10
                        (exponent_part (CHR ''e'') dr - int (length df))))"

text \<open>\<^verbatim>\<open>std::stod\<close> throws on both failures, \<^verbatim>\<open>atof\<close> returns zero without a number.\<close>

definition stod :: "string \<Rightarrow> double result" where
  "stod s =
     (case strtod (c_str s) of
        None \<Rightarrow> Inl (InvalidArgument ''stod'')
      | Some (d, erange) \<Rightarrow> if erange then Inl (OutOfRange ''stod'') else Inr d)"

definition atof :: "string \<Rightarrow> double" where
  "atof s = (case strtod (c_str s) of None \<Rightarrow> dzero | Some (d, _) \<Rightarrow> d)"

declare hex_val_def [string_eval] exponent_part_def [string_eval] point_split_def [string_eval]
  power_ratio_def [string_eval] strtod_def [string_eval] stod_def [string_eval]

declare round_ratio_def [double_eval] ilog2_def [double_eval] round_half_even_def [double_eval]
  range_error_def [double_eval]

lemma nbits_simps [simp]:
  "nbits 0 = 0" "nbits 1 = 1" "nbits (Suc 0) = 1"
  "nbits (numeral (Num.Bit0 n)) = Suc (nbits (numeral n))"
  "nbits (numeral (Num.Bit1 n)) = Suc (nbits (numeral n))"
  by (simp_all add: nbits.simps nbits.simps [of "numeral (num.Bit0 n)"]
      nbits.simps [of "numeral (num.Bit1 n)"])

section \<open>Lemmas on rounding\<close>

definition dval :: "double \<Rightarrow> rat" where
  "dval d = (case d of Fin s m e \<Rightarrow> of_int (signed s m) * 2 powi e | _ \<Rightarrow> 0)"

fun finite_double :: "double \<Rightarrow> bool" where
  "finite_double (Fin _ _ _) = True"
| "finite_double _ = False"

text \<open>The encodings that a 64-bit \<^verbatim>\<open>double\<close> has: normal numbers and subnormal ones.\<close>

fun valid_double :: "double \<Rightarrow> bool" where
  "valid_double (Fin s m e) \<longleftrightarrow>
     m < 2 ^ 53 \<and> - 1074 \<le> e \<and> e \<le> 971 \<and> (2 ^ 52 \<le> m \<or> e = - 1074)"
| "valid_double _ = True"

lemma powi_nat: "(2 :: rat) powi k = 2 ^ nat k / 2 ^ nat (- k)"
  by (cases "0 \<le> k") (simp_all add: power_int_def field_simps)

lemma powi_less_iff: "(2 :: rat) powi a < 2 powi b \<longleftrightarrow> a < b"
  using power_int_increasing [of b a "2 :: rat"] power_int_strict_increasing [of a b "2 :: rat"]
  by (meson linorder_not_le one_le_numeral one_less_numeral_iff semiring_norm(76) not_less)

lemma nbits_bounds: "0 < n \<Longrightarrow> 2 ^ (nbits n - 1) \<le> n \<and> n < 2 ^ nbits n \<and> 0 < nbits n"
proof (induction n rule: nbits.induct)
  case (1 n)
  show ?case
  proof (cases "n div 2 = 0")
    case True
    with 1(2) have "n = 1" by simp
    then show ?thesis by (simp add: nbits.simps)
  next
    case False
    with 1 have IH: "2 ^ (nbits (n div 2) - 1) \<le> n div 2" "n div 2 < 2 ^ nbits (n div 2)"
        "0 < nbits (n div 2)"
      by auto
    have n: "nbits n = Suc (nbits (n div 2))"
      using 1(2) by (simp add: nbits.simps [of n])
    obtain j where j: "nbits (n div 2) = Suc j" using IH(3) by (cases "nbits (n div 2)") auto
    have "2 * 2 ^ j \<le> n" "n < 2 * 2 ^ Suc j"
      using IH(1,2) unfolding j by auto
    then show ?thesis by (simp add: n j)
  qed
qed

lemma ilog2_bounds:
  assumes p: "0 < p" and q: "0 < q"
  shows "(2 :: rat) powi ilog2 p q \<le> of_nat p / of_nat q"
    and "of_nat p / of_nat q < (2 :: rat) powi (ilog2 p q + 1)"
proof -
  define a b k where "a = nbits p" and "b = nbits q" and "k = int a - int b"
  define x :: rat where "x = of_nat p / of_nat q"
  have a: "2 ^ (a - 1) \<le> p" "p < 2 ^ a" "0 < a" and b: "2 ^ (b - 1) \<le> q" "q < 2 ^ b" "0 < b"
    using nbits_bounds [OF p] nbits_bounds [OF q] by (auto simp: a_def b_def)
  have ar: "(2 :: rat) ^ (a - 1) \<le> of_nat p" "of_nat p < (2 :: rat) ^ a"
    using a by (metis of_nat_le_iff of_nat_numeral of_nat_power,
        metis of_nat_less_iff of_nat_numeral of_nat_power)
  have br: "(2 :: rat) ^ (b - 1) \<le> of_nat q" "of_nat q < (2 :: rat) ^ b"
    using b by (metis of_nat_le_iff of_nat_numeral of_nat_power,
        metis of_nat_less_iff of_nat_numeral of_nat_power)
  have "(2 :: rat) ^ (a - 1) / 2 ^ b < x"
    unfolding x_def using ar br q by (intro frac_less2) auto
  then have low: "2 powi (k - 1) < x"
    using a(3) b(3) by (simp add: k_def power_int_diff power_int_add power_diff field_simps)
  have "x < (2 :: rat) ^ a / 2 ^ (b - 1)"
    unfolding x_def using ar br q by (intro frac_less) auto
  then have high: "x < 2 powi (k + 1)"
    using a(3) b(3) by (simp add: k_def power_int_diff power_int_add power_diff field_simps)
  have test: "q * 2 ^ nat k \<le> p * 2 ^ nat (- k) \<longleftrightarrow> 2 powi k \<le> x"
  proof -
    have "q * 2 ^ nat k \<le> p * 2 ^ nat (- k) \<longleftrightarrow>
        (of_nat (q * 2 ^ nat k) :: rat) \<le> of_nat (p * 2 ^ nat (- k))"
      by (simp only: of_nat_le_iff)
    also have "\<dots> \<longleftrightarrow> 2 powi k \<le> x"
      using q by (simp add: powi_nat x_def field_simps)
    finally show ?thesis .
  qed
  have ilog: "ilog2 p q = (if 2 powi k \<le> x then k else k - 1)"
    by (simp add: ilog2_def Let_def a_def [symmetric] b_def [symmetric] k_def [symmetric] test)
  show "(2 :: rat) powi ilog2 p q \<le> of_nat p / of_nat q"
    unfolding ilog x_def [symmetric] using low by auto
  show "of_nat p / of_nat q < (2 :: rat) powi (ilog2 p q + 1)"
    unfolding ilog x_def [symmetric] using high by auto
qed

lemma round_half_even_error:
  assumes "0 < q"
  shows "\<bar>of_nat (round_half_even p q) - of_nat p / of_nat q\<bar> \<le> (1 / 2 :: rat)"
proof -
  define d r where "d = p div q" and "r = p mod q"
  have "p = d * q + r" by (simp add: d_def r_def)
  then have x: "of_nat p / of_nat q = (of_nat d + of_nat r / of_nat q :: rat)"
    using assms by (simp add: field_simps)
  have r: "r < q" using assms by (simp add: r_def)
  have le: "of_nat r / of_nat q \<le> (1 / 2 :: rat)" if "2 * r \<le> q"
    using of_nat_mono [OF that, where 'a = rat] assms by (simp add: field_simps)
  have ge: "(1 / 2 :: rat) \<le> of_nat r / of_nat q" if "q \<le> 2 * r"
    using of_nat_mono [OF that, where 'a = rat] assms by (simp add: field_simps)
  have lt1: "of_nat r / of_nat q \<le> (1 :: rat)" "0 \<le> (of_nat r / of_nat q :: rat)"
    using r assms by (simp_all add: field_simps)
  have "round_half_even p q = d \<and> 2 * r \<le> q \<or> round_half_even p q = d + 1 \<and> q \<le> 2 * r"
    by (auto simp: round_half_even_def Let_def d_def [symmetric] r_def [symmetric])
  then show ?thesis
    unfolding x using le ge lt1 by (auto simp: abs_le_iff)
qed

lemma round_half_even_exact: "0 < q \<Longrightarrow> q dvd p \<Longrightarrow> round_half_even p q = p div q"
  by (auto simp: round_half_even_def Let_def)

text \<open>
  The quantum of a rounding: the exponent of the unit in which the significand is counted. The
  ratio, counted in it, is below $2^{53}$, and above $2^{52}$ unless the quantum is the least one.
\<close>

definition quantum :: "nat \<Rightarrow> nat \<Rightarrow> int" where
  "quantum p q = max (ilog2 p q - 52) (- 1074)"

lemma scaled_ratio:
  "0 < q \<Longrightarrow> (of_nat (p * 2 ^ nat (- e)) / of_nat (q * 2 ^ nat e) :: rat) =
     of_nat p / of_nat q / 2 powi e"
  by (simp add: powi_nat field_simps)

lemma quantum_bounds:
  assumes "0 < p" and "0 < q"
  shows "of_nat p / of_nat q / 2 powi quantum p q < (2 :: rat) ^ 53"
    and "quantum p q \<noteq> - 1074 \<Longrightarrow> (2 :: rat) ^ 52 \<le> of_nat p / of_nat q / 2 powi quantum p q"
proof -
  note b = ilog2_bounds [OF assms]
  have "(2 :: rat) powi (ilog2 p q + 1) \<le> 2 powi (quantum p q + 53)"
    by (intro power_int_increasing) (auto simp: quantum_def)
  with b(2) have "of_nat p / of_nat q < (2 :: rat) powi (quantum p q + 53)" by linarith
  then show "of_nat p / of_nat q / 2 powi quantum p q < (2 :: rat) ^ 53"
    by (simp add: power_int_add pos_divide_less_eq mult.commute del: divide_divide_eq_left)
  assume "quantum p q \<noteq> - 1074"
  then have "ilog2 p q = quantum p q + 52" by (auto simp: quantum_def)
  with b(1) show "(2 :: rat) ^ 52 \<le> of_nat p / of_nat q / 2 powi quantum p q"
    by (simp add: power_int_add pos_le_divide_eq mult.commute del: divide_divide_eq_left)
qed

definition significand :: "nat \<Rightarrow> nat \<Rightarrow> nat" where
  "significand p q = round_half_even (p * 2 ^ nat (- quantum p q)) (q * 2 ^ nat (quantum p q))"

lemma significand_error:
  assumes "0 < q"
  shows "\<bar>of_nat (significand p q) - of_nat p / of_nat q / 2 powi quantum p q\<bar> \<le> (1 / 2 :: rat)"
  using round_half_even_error [of "q * 2 ^ nat (quantum p q)" "p * 2 ^ nat (- quantum p q)"] assms
  by (simp only: significand_def scaled_ratio) simp

lemma nat_le_of_rat_half:
  "(of_nat a :: rat) \<le> of_nat b + x \<Longrightarrow> x < 1 \<Longrightarrow> a \<le> b"
  by (metis add_less_cancel_left le_less_trans not_less of_nat_Suc of_nat_less_iff not_less_eq_eq
      add.commute)

lemma significand_le:
  assumes "0 < p" and "0 < q"
  shows "significand p q \<le> 2 ^ 53"
    and "quantum p q \<noteq> - 1074 \<Longrightarrow> 2 ^ 52 \<le> significand p q"
proof -
  let ?y = "of_nat p / of_nat q / 2 powi quantum p q :: rat"
  note e = significand_error [OF assms(2), of p] and b = quantum_bounds [OF assms]
  have "(of_nat (significand p q) :: rat) \<le> of_nat (2 ^ 53) + 1 / 2"
    using e b(1) by (simp only: of_nat_power of_nat_numeral abs_le_iff) linarith
  then show "significand p q \<le> 2 ^ 53" by (rule nat_le_of_rat_half) simp
  assume "quantum p q \<noteq> - 1074"
  note b(2) [OF this]
  then have "(of_nat (2 ^ 52) :: rat) \<le> of_nat (significand p q) + 1 / 2"
    using e by (simp only: of_nat_power of_nat_numeral abs_le_iff) linarith
  then show "2 ^ 52 \<le> significand p q" by (rule nat_le_of_rat_half) simp
qed

lemma round_ratio_eq:
  assumes "0 < p"
  shows "round_ratio s p q =
    (if significand p q = 2 ^ 53
     then (if 971 < quantum p q + 1 then Inf s else Fin s (2 ^ 52) (quantum p q + 1))
     else (if 971 < quantum p q then Inf s else Fin s (significand p q) (quantum p q)))"
  using assms by (simp add: round_ratio_def Let_def quantum_def [symmetric] significand_def [symmetric])

lemma quantum_ge: "- 1074 \<le> quantum p q"
  by (simp add: quantum_def)

lemma valid_round_ratio: "0 < q \<Longrightarrow> valid_double (round_ratio s p q)"
proof (cases "p = 0")
  case False
  assume "0 < q"
  with False have "significand p q \<le> 2 ^ 53" "quantum p q \<noteq> - 1074 \<Longrightarrow> 2 ^ 52 \<le> significand p q"
    using significand_le [of p q] by auto
  with False quantum_ge [of p q] show ?thesis
    by (auto simp: round_ratio_eq)
qed (simp add: round_ratio_def)

lemma dval_round_ratio:
  assumes "0 < p" and "finite_double (round_ratio s p q)"
  shows "dval (round_ratio s p q) =
    (if s then - 1 else 1) * of_nat (significand p q) * 2 powi quantum p q"
  using assms
  by (auto simp: round_ratio_eq dval_def signed_def power_int_add split: if_splits)

lemma round_ratio_error:
  assumes p: "0 < p" and q: "0 < q" and fin: "finite_double (round_ratio s p q)"
  shows "\<bar>dval (round_ratio s p q) - (if s then - 1 else 1) * (of_nat p / of_nat q)\<bar> \<le>
    2 powi quantum p q / 2"
proof -
  let ?x = "of_nat p / of_nat q :: rat" and ?m = "of_nat (significand p q) :: rat"
  let ?u = "2 powi quantum p q :: rat"
  have u: "0 < ?u" by simp
  have "\<bar>?m - ?x / ?u\<bar> * ?u \<le> 1 / 2 * ?u"
    using significand_error [OF q, of p] u by (intro mult_right_mono) simp_all
  moreover have "\<bar>?m - ?x / ?u\<bar> * ?u = \<bar>?m * ?u - ?x\<bar>"
    using u by (simp add: abs_mult_pos left_diff_distrib)
  ultimately have "\<bar>?m * ?u - ?x\<bar> \<le> ?u / 2" by linarith
  then show ?thesis
    unfolding dval_round_ratio [OF p fin] by (cases s) (simp_all add: abs_minus_commute)
qed

lemma of_nat_div_dvd: "b dvd a \<Longrightarrow> (of_nat (a div b) :: rat) = of_nat a / of_nat b"
  by (cases "b = 0") (auto elim!: dvdE)

lemma significand_exact:
  assumes "0 < q" and "q * 2 ^ nat (quantum p q) dvd p * 2 ^ nat (- quantum p q)"
  shows "of_nat (significand p q) * 2 powi quantum p q = (of_nat p / of_nat q :: rat)"
proof -
  let ?P = "p * 2 ^ nat (- quantum p q)" and ?Q = "q * 2 ^ nat (quantum p q)"
  have "significand p q = ?P div ?Q"
    unfolding significand_def using assms by (intro round_half_even_exact) simp_all
  then have "(of_nat (significand p q) :: rat) = of_nat ?P / of_nat ?Q"
    by (simp only: of_nat_div_dvd [OF assms(2)])
  then show ?thesis
    by (simp only: scaled_ratio [OF assms(1)]) simp
qed

lemma round_ratio_relative:
  assumes p: "0 < p" and q: "0 < q" and fin: "finite_double (round_ratio s p q)"
    and grid: "q dvd p * 2 ^ 1074"
  shows "\<bar>dval (round_ratio s p q) - (if s then - 1 else 1) * (of_nat p / of_nat q)\<bar> \<le>
    of_nat p / of_nat q / 2 ^ 53"
proof (cases "quantum p q = - 1074")
  case True
  then have "of_nat (significand p q) * 2 powi quantum p q = (of_nat p / of_nat q :: rat)"
    using grid by (intro significand_exact [OF q]) simp
  then show ?thesis
    by (simp add: dval_round_ratio [OF p fin] mult.assoc)
next
  case False
  let ?x = "of_nat p / of_nat q :: rat" and ?u = "2 powi quantum p q :: rat"
  have "2 ^ 52 \<le> ?x / ?u" by (rule quantum_bounds(2) [OF p q False])
  then have "?u * 2 ^ 52 \<le> ?x"
    by (simp add: pos_le_divide_eq mult.commute del: divide_divide_eq_left)
  then have "?u / 2 \<le> ?x / 2 ^ 53" by simp
  with round_ratio_error [OF p q fin] show ?thesis by (rule order_trans)
qed

lemma scaled_as_ratio:
  "of_nat (nat \<bar>n\<bar> * 2 ^ nat e) / of_nat (2 ^ nat (- e)) = (\<bar>of_int n\<bar> * 2 powi e :: rat)"
  by (simp add: powi_nat)

lemma round_scaled_relative:
  assumes "- 1074 \<le> e" and "finite_double (round_scaled zs n e)"
  shows "\<bar>dval (round_scaled zs n e) - of_int n * 2 powi e\<bar> \<le> \<bar>of_int n * 2 powi e\<bar> / 2 ^ 53"
proof (cases "n = 0")
  case True
  then show ?thesis by (simp add: round_scaled_def dval_def signed_def)
next
  case False
  let ?p = "nat \<bar>n\<bar> * 2 ^ nat e" and ?q = "2 ^ nat (- e) :: nat"
  have "?q dvd ?p * 2 ^ 1074"
    using assms(1) by (intro dvd_mult le_imp_power_dvd) simp
  moreover have "0 < ?p" "0 < ?q" using False by auto
  moreover have "finite_double (round_ratio (n < 0) ?p ?q)"
    using assms(2) False by (simp add: round_scaled_def)
  ultimately have "\<bar>dval (round_ratio (n < 0) ?p ?q) -
      (if n < 0 then - 1 else 1) * (of_nat ?p / of_nat ?q)\<bar> \<le> of_nat ?p / of_nat ?q / 2 ^ 53"
    by (intro round_ratio_relative)
  moreover have "(if n < 0 then - 1 else 1) * (\<bar>of_int n\<bar> * 2 powi e) = (of_int n * 2 powi e :: rat)"
    by simp
  ultimately show ?thesis
    using False by (simp only: scaled_as_ratio round_scaled_def if_False) (simp add: abs_mult)
qed

lemma round_scaled_exact:
  assumes n: "\<bar>n\<bar> < 2 ^ 53" and e: "- 1074 \<le> e" "e \<le> 971"
  shows "finite_double (round_scaled zs n e)" and "dval (round_scaled zs n e) = of_int n * 2 powi e"
proof -
  let ?p = "nat \<bar>n\<bar> * 2 ^ nat e" and ?q = "2 ^ nat (- e) :: nat"
  have "finite_double (round_scaled zs n e) \<and> dval (round_scaled zs n e) = of_int n * 2 powi e"
  proof (cases "n = 0")
    case True
    then show ?thesis by (simp add: round_scaled_def dval_def signed_def)
  next
    case False
    then have p: "0 < ?p" and q: "0 < ?q" by auto
    let ?Q = "quantum ?p ?q"
    have "(of_int \<bar>n\<bar> :: rat) < of_int (2 ^ 53)" using n by (simp only: of_int_less_iff)
    then have "\<bar>of_int n\<bar> * 2 powi e < (2 :: rat) ^ 53 * 2 powi e" by simp
    also have "\<dots> = 2 powi (e + 53)" by (simp add: power_int_add)
    finally have "of_nat ?p / of_nat ?q < (2 :: rat) powi (e + 53)"
      by (simp only: scaled_as_ratio)
    with ilog2_bounds(1) [OF p q] have "(2 :: rat) powi ilog2 ?p ?q < 2 powi (e + 53)"
      by (rule le_less_trans)
    then have "ilog2 ?p ?q < e + 53"
      by (simp add: powi_less_iff)
    then have Q: "?Q \<le> e" using e by (simp add: quantum_def)
    have "nat (- e) + nat ?Q \<le> nat e + nat (- ?Q)" using Q by linarith
    then have "?q * 2 ^ nat ?Q dvd 2 ^ nat e * 2 ^ nat (- ?Q)"
      by (simp add: power_add [symmetric] le_imp_power_dvd)
    then have dv: "?q * 2 ^ nat ?Q dvd ?p * 2 ^ nat (- ?Q)"
      by (metis dvd_mult mult.assoc)
    note ex = significand_exact [OF q dv]
    have "significand ?p ?q \<noteq> 2 ^ 53"
    proof
      assume s: "significand ?p ?q = 2 ^ 53"
      have "of_nat (significand ?p ?q) = (of_nat ?p / of_nat ?q / 2 powi ?Q :: rat)"
        by (simp only: ex [symmetric]) simp
      also have "\<dots> < 2 ^ 53" by (rule quantum_bounds(1) [OF p q])
      finally show False by (simp add: s)
    qed
    with Q e p have r: "round_ratio (n < 0) ?p ?q = Fin (n < 0) (significand ?p ?q) ?Q"
      by (simp add: round_ratio_eq)
    have "dval (round_ratio (n < 0) ?p ?q) =
        (if n < 0 then - 1 else 1) * (of_nat (significand ?p ?q) * 2 powi ?Q)"
      by (simp add: r dval_def signed_def)
    also have "\<dots> = of_int n * 2 powi e"
      unfolding ex scaled_as_ratio by simp
    finally show ?thesis
      using False r by (simp add: round_scaled_def)
  qed
  then show "finite_double (round_scaled zs n e)" "dval (round_scaled zs n e) = of_int n * 2 powi e"
    by auto
qed

lemma valid_round_scaled: "valid_double (round_scaled zs n e)"
  by (simp add: round_scaled_def valid_round_ratio)

section \<open>Lemmas on addition\<close>

lemma valid_dadd: "valid_double x \<Longrightarrow> valid_double y \<Longrightarrow> valid_double (dadd x y)"
  by (cases "(x, y)" rule: dadd.cases) (simp_all add: Let_def valid_round_scaled)

lemma dval_aligned:
  "e \<le> e1 \<Longrightarrow> of_int (signed s m * 2 ^ nat (e1 - e)) * 2 powi e = dval (Fin s m e1)"
proof -
  assume "e \<le> e1"
  then have "(2 :: rat) ^ nat (e1 - e) = 2 powi (e1 - e)" by (simp add: power_int_def)
  then show ?thesis by (simp add: dval_def power_int_diff)
qed

lemma dval_sum_aligned:
  "of_int (signed s1 m1 * 2 ^ nat (e1 - min e1 e2) + signed s2 m2 * 2 ^ nat (e2 - min e1 e2)) *
     2 powi min e1 e2 = dval (Fin s1 m1 e1) + dval (Fin s2 m2 e2)"
  by (simp only: of_int_add distrib_right dval_aligned min.cobounded1 min.cobounded2)

lemma dadd_relative:
  assumes "valid_double x" and "valid_double y" and "finite_double x" and "finite_double y"
    and "finite_double (dadd x y)"
  shows "\<bar>dval (dadd x y) - (dval x + dval y)\<bar> \<le> \<bar>dval x + dval y\<bar> / 2 ^ 53"
proof -
  obtain s1 m1 e1 s2 m2 e2 where xy: "x = Fin s1 m1 e1" "y = Fin s2 m2 e2"
    using assms(3,4) by (cases x; cases y) auto
  have "- 1074 \<le> min e1 e2" using assms(1,2) by (simp add: xy)
  from round_scaled_relative [OF this] assms(5) show ?thesis
    unfolding xy dadd.simps Let_def dval_sum_aligned [symmetric] .
qed

lemma dval_int_to_double: "\<bar>i\<bar> < 2 ^ 53 \<Longrightarrow> dval (int_to_double i) = of_int i"
  and finite_int_to_double: "\<bar>i\<bar> < 2 ^ 53 \<Longrightarrow> finite_double (int_to_double i)"
  using round_scaled_exact [of i 0 False] by (simp_all add: int_to_double_def)

text \<open>Rounding depends on the value of the ratio only, so addition is exact where it can be.\<close>

lemma round_half_even_rat:
  assumes "0 < q"
  shows "int (round_half_even p q) =
    (let x = of_nat p / of_nat q :: rat; d = \<lfloor>x\<rfloor>
     in if x - of_int d < 1 / 2 then d else if 1 / 2 < x - of_int d then d + 1
        else if even d then d else d + 1)"
proof -
  define d r where "d = p div q" and "r = p mod q"
  have "p = d * q + r" by (simp add: d_def r_def)
  then have x: "of_nat p / of_nat q = (of_nat d + of_nat r / of_nat q :: rat)"
    using assms by (simp add: field_simps)
  have r: "r < q" using assms by (simp add: r_def)
  have fl: "\<lfloor>of_nat p / of_nat q :: rat\<rfloor> = int d"
    by (simp add: d_def floor_divide_of_nat_eq)
  have lt: "of_nat r / of_nat q < (1 / 2 :: rat) \<longleftrightarrow> 2 * r < q"
    and gt: "(1 / 2 :: rat) < of_nat r / of_nat q \<longleftrightarrow> q < 2 * r"
    using assms of_nat_less_iff [of "2 * r" q, where 'a = rat]
      of_nat_less_iff [of q "2 * r", where 'a = rat]
    by (simp_all add: field_simps)
  have fr: "of_nat p / of_nat q - of_int (int d) = (of_nat r / of_nat q :: rat)"
    by (simp add: x)
  show ?thesis
    unfolding Let_def fl fr lt gt round_half_even_def d_def [symmetric] r_def [symmetric] by simp
qed

lemma ilog2_unique:
  assumes "0 < p" "0 < q" and "(2 :: rat) powi k \<le> of_nat p / of_nat q"
    and "of_nat p / of_nat q < (2 :: rat) powi (k + 1)"
  shows "ilog2 p q = k"
proof -
  note b = ilog2_bounds [OF assms(1,2)]
  have "(2 :: rat) powi k < 2 powi (ilog2 p q + 1)" "(2 :: rat) powi ilog2 p q < 2 powi (k + 1)"
    using b assms(3,4) by linarith+
  then have "k < ilog2 p q + 1" "ilog2 p q < k + 1"
    by (simp_all add: powi_less_iff)
  then show ?thesis by simp
qed

lemma round_ratio_cong:
  assumes "0 < q" "0 < q'" and eq: "(of_nat p / of_nat q :: rat) = of_nat p' / of_nat q'"
  shows "round_ratio s p q = round_ratio s p' q'"
proof (cases "p = 0")
  case True
  then have "p' = 0" using eq assms(2) by (simp add: field_simps)
  with True show ?thesis by (simp add: round_ratio_def)
next
  case False
  then have p: "0 < p" "0 < p'" using eq assms by (auto simp: field_simps intro: gr0I)
  have "ilog2 p' q' = ilog2 p q"
    using ilog2_bounds [OF p(1) assms(1)] by (intro ilog2_unique p assms) (simp_all add: eq)
  then have Q: "quantum p' q' = quantum p q" by (simp add: quantum_def)
  have "int (significand p q) = int (significand p' q')"
    unfolding significand_def Q
    by (subst (1 2) round_half_even_rat)
       (use assms in \<open>simp_all only: scaled_ratio eq, simp_all\<close>)
  then show ?thesis using p Q by (simp add: round_ratio_eq)
qed

lemma round_scaled_cong:
  assumes "(of_int n * 2 powi e :: rat) = of_int n' * 2 powi e'"
  shows "round_scaled zs n e = round_scaled zs n' e'"
proof (cases "n = 0")
  case True
  with assms have "n' = 0" by simp
  with True show ?thesis by (simp add: round_scaled_def)
next
  case False
  with assms have n': "n' \<noteq> 0" by auto
  have sg: "n < 0 \<longleftrightarrow> n' < 0"
  proof -
    have pos: "0 < (2 :: rat) powi e" "0 < (2 :: rat) powi e'" by simp_all
    have "n < 0 \<longleftrightarrow> (of_int n * 2 powi e :: rat) < 0"
      using mult_less_cancel_right_pos [OF pos(1), of "of_int n" 0] by simp
    also have "\<dots> \<longleftrightarrow> n' < 0"
      unfolding assms using mult_less_cancel_right_pos [OF pos(2), of "of_int n'" 0] by simp
    finally show ?thesis .
  qed
  have "\<bar>of_int n * 2 powi e :: rat\<bar> = \<bar>of_int n' * 2 powi e'\<bar>" using assms by simp
  then have ab: "\<bar>of_int n\<bar> * 2 powi e = (\<bar>of_int n'\<bar> * 2 powi e' :: rat)"
    by (simp add: abs_mult)
  show ?thesis
    using False n' sg by (simp add: round_scaled_def del: of_nat_mult)
      (rule round_ratio_cong, simp_all only: scaled_as_ratio ab, simp_all)
qed

lemma dadd_exact:
  assumes "finite_double x" and "finite_double y" and "dval x + dval y = of_int n * 2 powi e"
    and "\<bar>n\<bar> < 2 ^ 53" and "- 1074 \<le> e" and "e \<le> 971"
  shows "finite_double (dadd x y)" and "dval (dadd x y) = dval x + dval y"
proof -
  obtain s1 m1 e1 s2 m2 e2 where xy: "x = Fin s1 m1 e1" "y = Fin s2 m2 e2"
    using assms(1,2) by (cases x; cases y) auto
  have "dadd x y = round_scaled (s1 \<and> s2) n e"
    unfolding xy dadd.simps Let_def
    by (rule round_scaled_cong) (use assms(3) dval_sum_aligned in \<open>simp only: xy\<close>)
  with round_scaled_exact [OF assms(4-6)] assms(3)
  show "finite_double (dadd x y)" "dval (dadd x y) = dval x + dval y"
    by simp_all
qed

lemma dadd_dzero: "finite_double y \<Longrightarrow> valid_double y \<Longrightarrow>
    finite_double (dadd dzero y) \<and> dval (dadd dzero y) = dval y"
  using dadd_exact [of dzero y] by (cases y) (auto simp: dval_def dzero_def signed_def)

text \<open>
  A running total: the error of adding up a list of non-negative numbers one after the other grows
  with the length of the list only.
\<close>

lemma finite_dadd_left: "finite_double y \<Longrightarrow> finite_double (dadd x y) \<Longrightarrow> finite_double x"
  by (cases "(x, y)" rule: dadd.cases) auto

lemma running_error_step:
  fixes S T x g u :: rat
  assumes "0 \<le> T" "0 \<le> x" "0 \<le> u" "1 \<le> g"
    and "\<bar>S - T\<bar> \<le> (g - 1) * T" and "\<bar>d - (S + x)\<bar> \<le> \<bar>S + x\<bar> * u"
  shows "\<bar>d - (T + x)\<bar> \<le> (g * (1 + u) - 1) * (T + x)"
proof -
  have "\<bar>S + x\<bar> \<le> g * T + x"
    using assms(1,2,5) by (auto simp: algebra_simps abs_le_iff)
  then have "\<bar>d - (S + x)\<bar> \<le> (g * T + x) * u"
    using assms(3,6) by (meson mult_right_mono order_trans)
  then have "\<bar>d - (T + x)\<bar> \<le> (g * T + x) * u + (g - 1) * T"
    using assms(5) by linarith
  also have "\<dots> \<le> (g * (1 + u) - 1) * (T + x)"
  proof -
    have "0 \<le> (g - 1) * (1 + u) * x"
      using assms by simp
    then show ?thesis by (simp add: algebra_simps)
  qed
  finally show ?thesis .
qed

lemma foldl_dadd_relative:
  assumes "valid_double a" "finite_double a" "0 \<le> dval a"
    and "\<forall>x\<in>set xs. valid_double x \<and> finite_double x \<and> 0 \<le> dval x"
    and "finite_double (foldl dadd a xs)"
  shows "\<bar>dval (foldl dadd a xs) - (dval a + sum_list (map dval xs))\<bar> \<le>
      ((1 + 1 / 2 ^ 53) ^ length xs - 1) * (dval a + sum_list (map dval xs))"
    and "valid_double (foldl dadd a xs)"
proof -
  have "valid_double (foldl dadd a xs) \<and> (finite_double (foldl dadd a xs) \<longrightarrow>
    \<bar>dval (foldl dadd a xs) - (dval a + sum_list (map dval xs))\<bar> \<le>
      ((1 + 1 / 2 ^ 53) ^ length xs - 1) * (dval a + sum_list (map dval xs)))"
    using assms(4)
  proof (induction xs rule: rev_induct)
    case Nil
    then show ?case using assms(1) by simp
  next
    case (snoc x xs)
    let ?S = "foldl dadd a xs" and ?T = "dval a + sum_list (map dval xs)"
    have x: "valid_double x" "finite_double x" "0 \<le> dval x" using snoc.prems by auto
    have v: "valid_double ?S" and IH: "finite_double ?S \<Longrightarrow>
        \<bar>dval ?S - ?T\<bar> \<le> ((1 + 1 / 2 ^ 53) ^ length xs - 1) * ?T"
      using snoc by auto
    have T: "0 \<le> ?T"
      using assms(3) snoc.prems by (auto intro!: add_nonneg_nonneg sum_list_nonneg)
    have "\<bar>dval (dadd ?S x) - (?T + dval x)\<bar> \<le>
        ((1 + 1 / 2 ^ 53) ^ length xs * (1 + 1 / 2 ^ 53) - 1) * (?T + dval x)"
      if fin: "finite_double (dadd ?S x)"
    proof -
      note fS = finite_dadd_left [OF x(2) fin]
      show ?thesis
        using dadd_relative [OF v x(1) fS x(2) fin]
        by (intro running_error_step [OF T x(3) _ _ IH [OF fS]]) (simp_all add: one_le_power)
    qed
    with v x show ?case by (simp add: valid_dadd add.assoc mult.commute)
  qed
  with assms(5) show "valid_double (foldl dadd a xs)"
    "\<bar>dval (foldl dadd a xs) - (dval a + sum_list (map dval xs))\<bar> \<le>
      ((1 + 1 / 2 ^ 53) ^ length xs - 1) * (dval a + sum_list (map dval xs))"
    by auto
qed

end
