(* ===== verification/Summary_Store.thy ===== *)
theory Summary_Store
  imports Timestamps Double
begin

text \<open>
  The record of processed payments in \<^verbatim>\<open>PaymentService\<close> (src/src/main.cpp): one \<^verbatim>\<open>Summary\<close> per
  second of the first 3000 seconds after start, for each of the two processors. \<^verbatim>\<open>store_processed\<close>
  reads the amount out of the payload text and adds it to the slot of its second;
  \<^verbatim>\<open>query\<close> adds up the slots between two time stamps.
\<close>

section \<open>Data\<close>

datatype processor_result = Default | Fallback | Discard | TryAgain

record payment =
  correlationId :: string
  amount :: double

record summary =
  totalRequests :: u64
  totalAmount :: double

definition summary_init :: summary where
  "summary_init = \<lparr>totalRequests = 0, totalAmount = dzero\<rparr>"

record summary_pair =
  sp_def :: summary
  sp_fb :: summary

definition summary_pair_init :: summary_pair where
  "summary_pair_init = \<lparr>sp_def = summary_init, sp_fb = summary_init\<rparr>"

definition PROCESSED_CAPACITY :: nat where
  "PROCESSED_CAPACITY = 3000"

record store =
  processed_default :: "summary list"
  processed_fallback :: "summary list"
  processed_start :: u64

definition store_init :: "int \<Rightarrow> store" where
  "store_init base =
     \<lparr>processed_default = replicate PROCESSED_CAPACITY summary_init,
      processed_fallback = replicate PROCESSED_CAPACITY summary_init,
      processed_start = word_of_int base\<rparr>"

section \<open>Operations\<close>

definition add_summary :: "summary \<Rightarrow> summary \<Rightarrow> summary" where
  "add_summary acc s =
     \<lparr>totalRequests = totalRequests acc + totalRequests s,
      totalAmount = dadd (totalAmount acc) (totalAmount s)\<rparr>"

text \<open>The loop of \<^verbatim>\<open>query\<close>; its bound is below the capacity, so the index does not wrap.\<close>

function query_loop :: "store \<Rightarrow> nat \<Rightarrow> nat \<Rightarrow> summary_pair \<Rightarrow> summary_pair result" where
  "query_loop st index to_sec acc =
     (if index \<le> to_sec then
        rbind (vec_get (processed_default st) index) (\<lambda>def.
        rbind (vec_get (processed_fallback st) index) (\<lambda>fb.
        query_loop st (index + 1) to_sec
          \<lparr>sp_def = add_summary (sp_def acc) def, sp_fb = add_summary (sp_fb acc) fb\<rparr>))
      else Inr acc)"
  by pat_completeness auto
termination
  by (relation "measure (\<lambda>(st, i, n, acc). Suc n - i)") auto

declare query_loop.simps [simp del]

text \<open>
  The two bounds as the code computes them: \<open>from_sec\<close> is an \<^verbatim>\<open>int64_t\<close> and is raised to 0 when
  negative, \<open>to_sec\<close> stays a \<^verbatim>\<open>uint64_t\<close> and is lowered to the last slot.
\<close>

definition query_from :: "store \<Rightarrow> u64 \<Rightarrow> u64" where
  "query_from st from_ms =
     (let from_sec = (from_ms + 1000) div 1000 - processed_start st
      in if sint from_sec < 0 then 0 else from_sec)"

definition query_to :: "store \<Rightarrow> u64 \<Rightarrow> u64" where
  "query_to st to_ms =
     (let to_sec = to_ms div 1000 - processed_start st
      in if of_nat PROCESSED_CAPACITY \<le> to_sec then of_nat (PROCESSED_CAPACITY - 1) else to_sec)"

definition query :: "store \<Rightarrow> string \<Rightarrow> string \<Rightarrow> summary_pair result" where
  "query st from to =
     (let from_ms = parse_timestamp_ms from; to_ms = parse_timestamp_ms to
      in if to_ms < from_ms then Inr summary_pair_init
         else query_loop st (unat (query_from st from_ms)) (unat (query_to st to_ms))
                summary_pair_init)"

definition amount_key :: string where
  \<open>amount_key = ''"amount":''\<close>

text \<open>The amount between the key and the next comma or brace; \<^verbatim>\<open>stod\<close> may throw.\<close>

definition extract_amount :: "string \<Rightarrow> double result" where
  "extract_amount json =
     (case str_find amount_key json of
        None \<Rightarrow> Inr dzero
      | Some amount_pos \<Rightarrow>
          (let start_pos = amount_pos + 9
           in case find_first_of {CHR '','', CHR ''}''} json start_pos of
                None \<Rightarrow> Inr dzero
              | Some end_pos \<Rightarrow> stod (substr json start_pos (end_pos - start_pos))))"

definition bump :: "double \<Rightarrow> summary \<Rightarrow> summary" where
  "bump a s = \<lparr>totalRequests = totalRequests s + 1, totalAmount = dadd (totalAmount s) a\<rparr>"

definition store_processed ::
  "bool \<Rightarrow> store \<Rightarrow> string \<Rightarrow> processor_result \<Rightarrow> u64 \<Rightarrow> store result" where
  "store_processed fallback_enabled st json processor timestamp =
     rbind (extract_amount json) (\<lambda>a.
       let idx = unat (timestamp - processed_start st) in
       if fallback_enabled \<and> processor = Fallback then
         rbind (vec_get (processed_fallback st) idx) (\<lambda>s.
         rbind (vec_set (processed_fallback st) idx (bump a s)) (\<lambda>v.
         Inr (st\<lparr>processed_fallback := v\<rparr>)))
       else
         rbind (vec_get (processed_default st) idx) (\<lambda>s.
         rbind (vec_set (processed_default st) idx (bump a s)) (\<lambda>v.
         Inr (st\<lparr>processed_default := v\<rparr>))))"

section \<open>Invariant\<close>

definition store_wf :: "store \<Rightarrow> bool" where
  "store_wf st \<longleftrightarrow> length (processed_default st) = PROCESSED_CAPACITY \<and>
     length (processed_fallback st) = PROCESSED_CAPACITY"

lemma store_wf_init: "store_wf (store_init base)"
  by (simp add: store_wf_def store_init_def)

lemma PROCESSED_CAPACITY_word [simp]:
  "unat (of_nat PROCESSED_CAPACITY :: u64) = 3000"
  "unat (of_nat (PROCESSED_CAPACITY - 1) :: u64) = 2999"
  by (simp_all add: PROCESSED_CAPACITY_def)

text \<open>What a successful \<^verbatim>\<open>store_processed\<close> does: one slot of one of the two vectors.\<close>

lemma store_processed_Inr:
  "store_processed fe st json pr ts = Inr st' \<longleftrightarrow>
     (\<exists>a. extract_amount json = Inr a \<and>
        (let i = unat (ts - processed_start st) in
         if fe \<and> pr = Fallback
         then i < length (processed_fallback st) \<and>
           st' = st\<lparr>processed_fallback := (processed_fallback st)[i := bump a (processed_fallback st ! i)]\<rparr>
         else i < length (processed_default st) \<and>
           st' = st\<lparr>processed_default := (processed_default st)[i := bump a (processed_default st ! i)]\<rparr>))"
  by (auto simp: store_processed_def Let_def rbind_Inr_iff vec_set_Inr_iff vec_get_def
      split: if_splits)

lemma store_wf_store_processed:
  "store_wf st \<Longrightarrow> store_processed fe st json pr ts = Inr st' \<Longrightarrow> store_wf st'"
  by (auto simp: store_processed_Inr store_wf_def Let_def split: if_splits)

section \<open>What the query loop computes\<close>

lemma query_loop_eq:
  assumes "store_wf st" and "to_sec < PROCESSED_CAPACITY"
  shows "query_loop st index to_sec acc =
    Inr \<lparr>sp_def = foldl add_summary (sp_def acc)
           (map ((!) (processed_default st)) [index..<Suc to_sec]),
         sp_fb = foldl add_summary (sp_fb acc)
           (map ((!) (processed_fallback st)) [index..<Suc to_sec])\<rparr>"
  using assms
proof (induction st index to_sec acc rule: query_loop.induct)
  case (1 st index to_sec acc)
  show ?case
  proof (cases "index \<le> to_sec")
    case True
    with 1(2,3) have "index < length (processed_default st)" "index < length (processed_fallback st)"
      by (auto simp: store_wf_def)
    moreover from True have "[index..<Suc to_sec] = index # [index + 1..<Suc to_sec]"
      by (simp add: upt_conv_Cons del: upt_Suc)
    ultimately show ?thesis
      using 1(1) [OF True] 1(2,3) True by (simp add: query_loop.simps [of st index] del: upt_Suc)
  next
    case False
    then show ?thesis by (simp add: query_loop.simps [of st index])
  qed
qed

lemma totalRequests_foldl:
  "totalRequests (foldl add_summary acc xs) = totalRequests acc + sum_list (map totalRequests xs)"
  by (induction xs arbitrary: acc) (simp_all add: add_summary_def algebra_simps)

lemma totalAmount_foldl:
  "totalAmount (foldl add_summary acc xs) = foldl dadd (totalAmount acc) (map totalAmount xs)"
  by (induction xs arbitrary: acc) (simp_all add: add_summary_def)

lemma query_to_less: "unat (query_to st t) < PROCESSED_CAPACITY"
  by (auto simp: query_to_def Let_def PROCESSED_CAPACITY_def word_le_nat_alt)

lemma query_to_nat:
  assumes "unat (processed_start st) \<le> unat t div 1000"
  shows "unat (query_to st t) = min 2999 (unat t div 1000 - unat (processed_start st))"
proof -
  have "processed_start st \<le> t div 1000"
    using assms by (simp add: word_le_nat_alt unat_div)
  then have "unat (t div 1000 - processed_start st) = unat t div 1000 - unat (processed_start st)"
    by (simp add: unat_diff_no_wrap unat_div)
  then show ?thesis
    by (auto simp: query_to_def Let_def PROCESSED_CAPACITY_def word_le_nat_alt)
qed

lemma query_from_nat:
  assumes f: "unat f + 1000 < 2 ^ 64" and s: "unat (processed_start st) < 2 ^ 63"
  shows "unat (query_from st f) = unat f div 1000 + 1 - unat (processed_start st)"
proof -
  let ?s = "unat (processed_start st)" and ?F = "unat f div 1000 + 1"
  have "unat (f + 1000) = unat f + 1000"
    using f unat_add_no_wrap [of f 1000] by simp
  then have F: "unat ((f + 1000) div 1000) = ?F"
    by (simp add: unat_div)
  have "?F < 2 ^ 63" using f by simp
  with s F have sd: "sint ((f + 1000) div 1000 - processed_start st) = int ?F - int ?s"
    using sint_diff_small [of "(f + 1000) div 1000" "processed_start st"] by simp
  show ?thesis
  proof (cases "?F < ?s")
    case True
    then have "sint ((f + 1000) div 1000 - processed_start st) < 0" using sd by linarith
    then show ?thesis using True by (simp add: query_from_def Let_def)
  next
    case False
    then have "processed_start st \<le> (f + 1000) div 1000"
      using F by (simp add: word_le_nat_alt)
    moreover have "\<not> sint ((f + 1000) div 1000 - processed_start st) < 0" using sd False by linarith
    ultimately show ?thesis
      using F by (simp add: query_from_def Let_def unat_diff_no_wrap)
  qed
qed

text \<open>
  The slots a query is meant to cover: those of the seconds after the one \<open>F\<close> falls in, up to and
  with the one \<open>T\<close> falls in (both in milliseconds).
\<close>

definition window :: "store \<Rightarrow> nat \<Rightarrow> nat \<Rightarrow> nat set" where
  "window st F T = {i. i < PROCESSED_CAPACITY \<and> F div 1000 < unat (processed_start st) + i \<and>
     unat (processed_start st) + i \<le> T div 1000}"

lemma query_window:
  assumes wf: "store_wf st" and ord: "unat (parse_timestamp_ms from) \<le> unat (parse_timestamp_ms to)"
    and big: "unat (parse_timestamp_ms from) + 1000 < 2 ^ 64"
    and start: "unat (processed_start st) \<le> unat (parse_timestamp_ms to) div 1000"
  shows "\<exists>lo hi. query st from to = Inr
      \<lparr>sp_def = foldl add_summary summary_init (map ((!) (processed_default st)) [lo..<hi]),
       sp_fb = foldl add_summary summary_init (map ((!) (processed_fallback st)) [lo..<hi])\<rparr> \<and>
    window st (unat (parse_timestamp_ms from)) (unat (parse_timestamp_ms to)) = {lo..<hi}"
proof -
  let ?f = "parse_timestamp_ms from" and ?t = "parse_timestamp_ms to"
  let ?s = "unat (processed_start st)"
  have s: "?s < 2 ^ 63"
    using start less_mult_imp_div_less [of "unat ?t" "2 ^ 63" 1000] unat_u64_less [of ?t]
    by (auto intro: le_less_trans)
  have lo: "unat (query_from st ?f) = unat ?f div 1000 + 1 - ?s"
    by (rule query_from_nat [OF big s])
  have hi: "unat (query_to st ?t) = min 2999 (unat ?t div 1000 - ?s)"
    by (rule query_to_nat [OF start])
  have "\<not> ?t < ?f" using ord by (simp add: word_less_nat_alt)
  then have "query st from to = Inr
      \<lparr>sp_def = foldl add_summary summary_init (map ((!) (processed_default st))
         [unat (query_from st ?f)..<Suc (unat (query_to st ?t))]),
       sp_fb = foldl add_summary summary_init (map ((!) (processed_fallback st))
         [unat (query_from st ?f)..<Suc (unat (query_to st ?t))])\<rparr>"
    by (simp add: query_def Let_def query_loop_eq [OF wf query_to_less] summary_pair_init_def
        del: upt_Suc)
  moreover have "window st (unat ?f) (unat ?t) =
      {unat (query_from st ?f)..<Suc (unat (query_to st ?t))}"
    unfolding lo hi using start by (auto simp: window_def PROCESSED_CAPACITY_def)
  ultimately show ?thesis by blast
qed


lemma finite_window [simp]: "finite (window st F T)"
  by (simp add: window_def)

lemma query_to_wraps:
  assumes "unat t div 1000 < unat (processed_start st)" and "unat (processed_start st) < 2 ^ 63"
  shows "unat (query_to st t) = 2999"
proof -
  let ?w = "t div 1000 - processed_start st"
  have "\<not> processed_start st \<le> t div 1000"
    using assms(1) by (simp add: word_le_nat_alt unat_div)
  then have "unat ?w = unat t div 1000 + 2 ^ 64 - unat (processed_start st)"
    by (simp add: unat_sub_if' unat_div word_le_nat_alt split: if_splits)
  then have "3000 \<le> unat ?w" using assms(2) by simp
  then show ?thesis
    by (simp add: query_to_def Let_def word_le_nat_alt PROCESSED_CAPACITY_def)
qed

lemma slot_second:
  assumes "unat (ts - processed_start st) < PROCESSED_CAPACITY"
    and "unat (processed_start st) < 2 ^ 63"
  shows "unat ts = unat (processed_start st) + unat (ts - processed_start st)"
proof -
  have "unat (processed_start st) + unat (ts - processed_start st) < 2 ^ 64"
    using assms by (simp add: PROCESSED_CAPACITY_def)
  then have "unat (processed_start st + (ts - processed_start st)) =
      unat (processed_start st) + unat (ts - processed_start st)"
    using unat_add_no_wrap [of "processed_start st" "ts - processed_start st"] by simp
  then show ?thesis by simp
qed

lemma totalRequests_bump [simp]: "totalRequests (bump a s) = totalRequests s + 1"
  by (simp add: bump_def)

lemma processed_start_store:
  "store_processed fe st json pr ts = Inr st' \<Longrightarrow> processed_start st' = processed_start st"
  by (auto simp: store_processed_Inr Let_def split: if_splits)

lemma window_store:
  "store_processed fe st json pr ts = Inr st' \<Longrightarrow> window st' F T = window st F T"
  by (simp add: window_def processed_start_store)

lemma in_window_iff:
  assumes "unat (ts - processed_start st) < PROCESSED_CAPACITY" "unat (processed_start st) < 2 ^ 63"
  shows "unat (ts - processed_start st) \<in> window st F T \<longleftrightarrow>
    F div 1000 < unat ts \<and> unat ts \<le> T div 1000"
  using slot_second [OF assms] assms(1) by (auto simp: window_def)

lemma start_small:
  "unat (processed_start st) \<le> unat (t :: u64) div 1000 \<Longrightarrow> unat (processed_start st) < 2 ^ 63"
  using less_mult_imp_div_less [of "unat t" "2 ^ 63" 1000] unat_u64_less [of t]
  by (auto intro: le_less_trans)

text \<open>Totals over all slots, used to count payments across the service.\<close>

definition stored_default :: "store \<Rightarrow> u64" where
  "stored_default st = sum_list (map totalRequests (processed_default st))"

definition stored_fallback :: "store \<Rightarrow> u64" where
  "stored_fallback st = sum_list (map totalRequests (processed_fallback st))"

lemma stored_init: "stored_default (store_init base) = 0" "stored_fallback (store_init base) = 0"
  by (simp_all add: stored_default_def stored_fallback_def store_init_def summary_init_def
      sum_list_replicate)

lemma stored_store_processed:
  assumes "store_processed fe st json pr ts = Inr st'"
  shows "stored_default st' + stored_fallback st' = stored_default st + stored_fallback st + 1"
  using assms
  by (auto simp: store_processed_Inr Let_def stored_default_def stored_fallback_def
      sum_list_map_update split: if_splits)

lemma query_counts:
  assumes "store_wf st" and "unat (parse_timestamp_ms from) \<le> unat (parse_timestamp_ms to)"
    and "unat (parse_timestamp_ms from) + 1000 < 2 ^ 64"
    and "unat (processed_start st) \<le> unat (parse_timestamp_ms to) div 1000"
  shows "\<exists>r. query st from to = Inr r \<and>
    totalRequests (sp_def r) =
      (\<Sum>i\<in>window st (unat (parse_timestamp_ms from)) (unat (parse_timestamp_ms to)).
         totalRequests (processed_default st ! i)) \<and>
    totalRequests (sp_fb r) =
      (\<Sum>i\<in>window st (unat (parse_timestamp_ms from)) (unat (parse_timestamp_ms to)).
         totalRequests (processed_fallback st ! i))"
  using query_window [OF assms]
  by (auto simp: totalRequests_foldl summary_init_def sum_list_upt [symmetric] comp_def)

lemma store_then_query:
  assumes wf: "store_wf st" and st': "store_processed fe st json pr ts = Inr st'"
    and ord: "unat (parse_timestamp_ms from) \<le> unat (parse_timestamp_ms to)"
    and big: "unat (parse_timestamp_ms from) + 1000 < 2 ^ 64"
    and start: "unat (processed_start st) \<le> unat (parse_timestamp_ms to) div 1000"
  shows "\<exists>r r'. query st from to = Inr r \<and> query st' from to = Inr r' \<and>
    (let hit = unat (parse_timestamp_ms from) div 1000 < unat ts \<and>
               unat ts \<le> unat (parse_timestamp_ms to) div 1000;
         on_fb = fe \<and> pr = Fallback
     in totalRequests (sp_def r') = totalRequests (sp_def r) + (if hit \<and> \<not> on_fb then 1 else 0) \<and>
        totalRequests (sp_fb r') = totalRequests (sp_fb r) + (if hit \<and> on_fb then 1 else 0))"
proof -
  let ?W = "window st (unat (parse_timestamp_ms from)) (unat (parse_timestamp_ms to))"
  let ?i = "unat (ts - processed_start st)"
  have idx: "?i < PROCESSED_CAPACITY"
    using st' wf by (auto simp: store_processed_Inr store_wf_def Let_def split: if_splits)
  note hit = in_window_iff [OF idx start_small [OF start],
      of "unat (parse_timestamp_ms from)" "unat (parse_timestamp_ms to)"]
  obtain r where r: "query st from to = Inr r"
      "totalRequests (sp_def r) = (\<Sum>i\<in>?W. totalRequests (processed_default st ! i))"
      "totalRequests (sp_fb r) = (\<Sum>i\<in>?W. totalRequests (processed_fallback st ! i))"
    using query_counts [OF wf ord big start] by blast
  have start': "unat (processed_start st') \<le> unat (parse_timestamp_ms to) div 1000"
    using start by (simp add: processed_start_store [OF st'])
  obtain r' where r': "query st' from to = Inr r'"
      "totalRequests (sp_def r') = (\<Sum>i\<in>?W. totalRequests (processed_default st' ! i))"
      "totalRequests (sp_fb r') = (\<Sum>i\<in>?W. totalRequests (processed_fallback st' ! i))"
    using query_counts [OF store_wf_store_processed [OF wf st'] ord big start']
    unfolding window_store [OF st'] by blast
  show ?thesis
  proof (intro exI conjI)
    show "query st from to = Inr r" "query st' from to = Inr r'" by (rule r(1), rule r'(1))
    show "let hit = unat (parse_timestamp_ms from) div 1000 < unat ts \<and>
               unat ts \<le> unat (parse_timestamp_ms to) div 1000;
         on_fb = fe \<and> pr = Fallback
     in totalRequests (sp_def r') = totalRequests (sp_def r) + (if hit \<and> \<not> on_fb then 1 else 0) \<and>
        totalRequests (sp_fb r') = totalRequests (sp_fb r) + (if hit \<and> on_fb then 1 else 0)"
      using st' idx
      by (cases "fe \<and> pr = Fallback")
         (auto simp: store_processed_Inr Let_def r(2,3) r'(2,3) hit [symmetric]
           sum_nth_update [where f = totalRequests])
  qed
qed

text \<open>A concrete payload, stored five seconds after the start.\<close>

definition sample_json :: string where
  \<open>sample_json = ''{"correlationId":"a","amount":19.9,"r":1}''\<close>

lemma round_199_10: "round_ratio False 199 10 = Fin False 5601352036542054 (-48)"
  by (simp add: round_ratio_def ilog2_def round_half_even_def Let_def)

lemma sample_amount: "extract_amount sample_json = Inr (Fin False 5601352036542054 (-48))"
  by (simp add: sample_json_def extract_amount_def amount_key_def string_eval Let_def)
     (simp add: round_199_10 range_error_def)

lemma sample_stored:
  "\<exists>st'. store_processed fe (store_init 1755300000) sample_json pr 1755300005 = Inr st'"
proof -
  have "unat (1755300005 - processed_start (store_init 1755300000)) < PROCESSED_CAPACITY"
    by (simp add: store_init_def PROCESSED_CAPACITY_def)
  then show ?thesis
    using store_wf_init [of 1755300000]
    by (simp add: store_processed_def sample_amount Let_def store_wf_def)
qed

lemma dadd_dzero_dzero: "dadd dzero dzero = dzero"
  by (simp add: dzero_def round_scaled_def signed_def Let_def)

lemma processed_default_init:
  "processed_default (store_init base) = replicate PROCESSED_CAPACITY summary_init"
  and totalAmount_init: "totalAmount summary_init = dzero"
  by (simp_all add: store_init_def summary_init_def)

lemma query_init_amount:
  "\<exists>r. query (store_init base) from to = Inr r \<and> totalAmount (sp_def r) = dzero"
proof -
  have z: "foldl dadd dzero (map totalAmount (map ((!) (replicate PROCESSED_CAPACITY summary_init)) xs)) = dzero"
    if "\<forall>i\<in>set xs. i < PROCESSED_CAPACITY" for xs
    using that by (induction xs rule: rev_induct) (simp_all add: summary_init_def dadd_dzero_dzero)
  have "\<forall>i\<in>set [lo..<Suc (unat (query_to (store_init base) t))]. i < PROCESSED_CAPACITY" for lo t
    using query_to_less [of "store_init base" t] by auto
  note z [OF this]
  then show ?thesis
    by (simp add: query_def Let_def query_loop_eq [OF store_wf_init query_to_less] totalAmount_foldl
        summary_pair_init_def processed_default_init totalAmount_init del: upt_Suc map_map)
qed

section \<open>Properties\<close>

text \<open>
  C16. \<^verbatim>\<open>query\<close> never indexes outside the slot vectors and always ends, for every pair of texts,
  also texts that are no time stamps.
\<close>

theorem query_never_faults: "store_wf st \<Longrightarrow> \<exists>r. query st from to = Inr r"
  by (auto simp: query_def Let_def query_loop_eq [OF _ query_to_less])

theorem query_never_faults_witness: "\<exists>r. query (store_init 1755300000) ''x'' ''y'' = Inr r"
  by (rule query_never_faults) (rule store_wf_init)





text \<open>
  C29. The lower bound is exclusive by a whole second: a payment stored in the very second that the
  lower bound names is missing from the answer, whatever the upper bound is.
\<close>

theorem query_misses_first_second:
  assumes "store_wf st" and "store_processed fe st json pr (word_of_int s) = Inr st'"
    and "0 \<le> s" and "s \<le> s'" and "s' < 253402300800"
    and "unat (processed_start st) \<le> nat s"
  shows "\<exists>r r'. query st (requested_at s) (requested_at s') = Inr r \<and>
    query st' (requested_at s) (requested_at s') = Inr r' \<and>
    totalRequests (sp_def r') = totalRequests (sp_def r) \<and>
    totalRequests (sp_fb r') = totalRequests (sp_fb r)"
proof -
  have p: "unat (parse_timestamp_ms (requested_at s)) = nat s * 1000"
    "unat (parse_timestamp_ms (requested_at s')) = nat s' * 1000" "unat (word_of_int s :: u64) = nat s"
    using assms(3-5) by (simp_all add: unat_parse_requested unat_word_of_int_small)
  have "unat (processed_start st) \<le> nat s'" using assms(4,6) by simp
  with store_then_query [OF assms(1,2), of "requested_at s" "requested_at s'"] assms(3-5)
  show ?thesis by (simp add: p Let_def)
qed

theorem query_misses_first_second_witness:
  "\<exists>st' r r'. store_processed True (store_init 1755300000) sample_json Default 1755300005 = Inr st' \<and>
    query (store_init 1755300000) (requested_at 1755300005) (requested_at 1755300010) = Inr r \<and>
    query st' (requested_at 1755300005) (requested_at 1755300010) = Inr r' \<and>
    totalRequests (sp_def r') = totalRequests (sp_def r) \<and>
    totalRequests (sp_fb r') = totalRequests (sp_fb r)"
proof -
  obtain st' where
    s: "store_processed True (store_init 1755300000) sample_json Default 1755300005 = Inr st'"
    using sample_stored by blast
  show ?thesis
    using query_misses_first_second [OF store_wf_init, of True 1755300000 sample_json Default
        1755300005 st' 1755300010] s
    by (simp add: store_init_def)
qed

text \<open>
  C30. An upper bound before the start of the service: the subtraction wraps, the bound is clamped
  to the last slot, and the query answers with the total of all slots instead of nothing.
\<close>

theorem query_before_start_returns_all:
  assumes wf: "store_wf st" and ord: "unat (parse_timestamp_ms from) \<le> unat (parse_timestamp_ms to)"
    and before: "unat (parse_timestamp_ms to) div 1000 < unat (processed_start st)"
    and small: "unat (processed_start st) < 2 ^ 63"
    and big: "unat (parse_timestamp_ms from) + 1000 < 2 ^ 64"
  shows "\<exists>r. query st from to = Inr r \<and> totalRequests (sp_def r) = stored_default st \<and>
    totalRequests (sp_fb r) = stored_fallback st"
proof -
  let ?f = "parse_timestamp_ms from" and ?t = "parse_timestamp_ms to"
  have "unat ?f div 1000 \<le> unat ?t div 1000" using ord by (rule div_le_mono)
  then have lo: "unat (query_from st ?f) = 0"
    using query_from_nat [OF big small] before by simp
  have hi: "Suc (unat (query_to st ?t)) = PROCESSED_CAPACITY"
    using query_to_wraps [OF before small] by (simp add: PROCESSED_CAPACITY_def)
  have all: "map ((!) xs) [0..<PROCESSED_CAPACITY] = xs" if "length xs = PROCESSED_CAPACITY"
    for xs :: "summary list"
    using map_nth [of xs] that by simp
  have "\<not> ?t < ?f" using ord by (simp add: word_less_nat_alt)
  with wf have "query st from to = Inr
      \<lparr>sp_def = foldl add_summary summary_init (processed_default st),
       sp_fb = foldl add_summary summary_init (processed_fallback st)\<rparr>"
    by (simp add: query_def Let_def query_loop_eq [OF wf query_to_less] lo hi all store_wf_def
        summary_pair_init_def del: upt_Suc)
  then show ?thesis
    by (simp add: totalRequests_foldl summary_init_def stored_default_def stored_fallback_def)
qed

theorem query_before_start_returns_all_witness:
  "\<exists>r. query (store_init 1755300000) (requested_at 1755200000) (requested_at 1755200010) = Inr r \<and>
    totalRequests (sp_def r) = stored_default (store_init 1755300000) \<and>
    totalRequests (sp_fb r) = stored_fallback (store_init 1755300000)"
  by (rule query_before_start_returns_all [OF store_wf_init])
     (simp_all add: parse_timestamp_requested store_init_def)

text \<open>
  C31. A payment finished 3000 seconds after the start, or later, or before the start, indexes the
  slot vector out of bounds (the amount is readable, the store is well formed, and still the
  operation has no result).
\<close>

theorem store_processed_out_of_bounds:
  assumes "store_wf st" and "extract_amount json = Inr a"
    and "PROCESSED_CAPACITY \<le> unat (ts - processed_start st)"
  shows "store_processed fe st json pr ts = Inl IndexOutOfBounds"
  using assms by (simp add: store_processed_def store_wf_def Let_def)

theorem store_processed_out_of_bounds_witness:
  "store_processed True (store_init 1755300000) sample_json Default 1755303000 = Inl IndexOutOfBounds"
  by (rule store_processed_out_of_bounds [OF store_wf_init sample_amount])
     (simp add: store_init_def PROCESSED_CAPACITY_def)

text \<open>
  C32. The amount of a payload: the text between the first occurrence of the key and the next comma
  or closing brace, read as a number; an unreadable number is an exception of \<^verbatim>\<open>stod\<close>.
\<close>

theorem extract_amount_first_key:
  assumes "str_find amount_key (pre @ amount_key @ num @ c # rest) = Some (length pre)"
    and "c = CHR '','' \<or> c = CHR ''}''" and "set num \<inter> {CHR '','', CHR ''}''} = {}"
  shows "extract_amount (pre @ amount_key @ num @ c # rest) = stod num"
proof -
  have k: "length amount_key = 9" by (simp add: amount_key_def)
  have "first_of {CHR '','', CHR ''}''} (num @ c # rest) = Some (length num)"
    using assms(2,3) by (intro first_of_append_hit) auto
  then show ?thesis
    using assms(1) k by (simp add: extract_amount_def Let_def find_first_of_def substr_def)
qed

theorem extract_amount_first_key_witness:
  \<open>extract_amount ''{"amount":3}'' = stod ''3''\<close>
  using extract_amount_first_key [of "''{''" "''3''" "CHR ''}''" "[]"]
  by (simp add: amount_key_def)



end
