(* ===== verification/Switching.thy ===== *)
theory Switching
  imports Summary_Store
begin

text \<open>
  The choice between the two payment processors in \<^verbatim>\<open>PaymentService\<close> (src/src/main.cpp): which
  processor is the primary one (\<^verbatim>\<open>primary_label\<close>, \<^verbatim>\<open>main_url\<close>), which are known to be down, and
  the last response times. \<^verbatim>\<open>handle_response\<close> is called after every request.

  The locale \<open>failover\<close> states what the rest of the service needs of this choice: two labels that
  stay distinct and a pair of addresses that always agrees with them.
\<close>

section \<open>State\<close>

text \<open>The members of the class that take part in the choice.\<close>

record switching =
  default_processor :: string
  fallback_processor :: string
  main_url :: string
  test_url :: string
  default_time_ms :: double
  fallback_time_ms :: double
  fallback_down :: bool
  default_down :: bool
  fee_difference :: double
  fallback_interval_ms :: int
  fallback_enabled :: bool
  fallback_evaluated :: bool
  primary_label :: processor_result
  secondary_label :: processor_result

section \<open>Operations\<close>

text \<open>\<^verbatim>\<open>swap\<close> of the addresses and of the labels; the report is compiled out.\<close>

definition trigger_switch :: "switching \<Rightarrow> switching" where
  "trigger_switch sw =
     (if \<not> fallback_enabled sw then sw
      else sw\<lparr>main_url := test_url sw, test_url := main_url sw,
              primary_label := secondary_label sw, secondary_label := primary_label sw\<rparr>)"

definition update_time :: "processor_result \<Rightarrow> double \<Rightarrow> switching \<Rightarrow> switching" where
  "update_time processor elapsed sw =
     (if processor = Default then sw\<lparr>default_time_ms := elapsed\<rparr>
      else sw\<lparr>fallback_time_ms := elapsed\<rparr>)"

definition evaluate_switch :: "switching \<Rightarrow> switching" where
  "evaluate_switch sw =
     (if \<not> fallback_enabled sw \<or> fallback_evaluated sw then sw
      else
        let sw = sw\<lparr>fallback_evaluated := True\<rparr>;
            def = default_time_ms sw;
            fb = fallback_time_ms sw
        in if deq def dzero \<or> deq fb dzero then sw
           else
             let improvement = ddiv def fb;
                 using_default = (main_url sw = default_processor sw)
             in if dlt fb def \<and> dge improvement (fee_difference sw)
                then (if using_default then trigger_switch sw else sw)
                else (if \<not> using_default then trigger_switch sw else sw))"

text \<open>
  \<^verbatim>\<open>handle_response\<close>, with the milliseconds it sleeps when both processors are down (\<open>None\<close>: it does
  not sleep).
\<close>

definition mark_down :: "processor_result \<Rightarrow> switching \<Rightarrow> switching" where
  "mark_down processor sw =
     (if processor = Default then sw\<lparr>default_down := True\<rparr> else sw\<lparr>fallback_down := True\<rparr>)"

definition server_error :: "processor_result \<Rightarrow> switching \<Rightarrow> switching \<times> int option" where
  "server_error processor sw0 =
     (let using_default_as_main = (primary_label sw0 = Default);
          sw = mark_down processor sw0
      in if default_down sw \<and> fallback_down sw
         then (sw, Some (fallback_interval_ms sw sdiv 2))
         else if default_down sw \<and> \<not> fallback_down sw \<and> using_default_as_main
         then (trigger_switch sw, None)
         else if \<not> default_down sw \<and> fallback_down sw \<and> \<not> using_default_as_main
         then (trigger_switch sw, None)
         else (sw, None))"

definition recover :: "processor_result \<Rightarrow> switching \<Rightarrow> switching" where
  "recover processor sw =
     (let default_called = (processor = Default) in
      if default_called \<and> default_down sw then
        (let sw = sw\<lparr>default_down := False\<rparr> in if fallback_down sw then trigger_switch sw else sw)
      else if \<not> default_called \<and> fallback_down sw then
        (let sw = sw\<lparr>fallback_down := False\<rparr> in if default_down sw then trigger_switch sw else sw)
      else sw)"

definition handle_response ::
  "processor_result \<Rightarrow> double \<Rightarrow> int \<Rightarrow> switching \<Rightarrow> switching \<times> int option" where
  "handle_response processor elapsed code sw =
     (if fallback_enabled sw then
        if code = 500 then server_error processor sw
        else (evaluate_switch (update_time processor elapsed (recover processor sw)), None)
      else (sw, None))"

section \<open>Labels and addresses\<close>

definition url_of :: "switching \<Rightarrow> processor_result \<Rightarrow> string" where
  "url_of sw p = (if p = Default then default_processor sw else fallback_processor sw)"

definition other_label :: "processor_result \<Rightarrow> processor_result" where
  "other_label p = (if p = Default then Fallback else Default)"

definition proc_down :: "switching \<Rightarrow> processor_result \<Rightarrow> bool" where
  "proc_down sw p = (if p = Default then default_down sw else fallback_down sw)"

text \<open>
  The invariant: the primary label is one of the two processors, the secondary label is the other
  one, and the two addresses are theirs.
\<close>

definition sw_inv :: "switching \<Rightarrow> bool" where
  "sw_inv sw \<longleftrightarrow> primary_label sw \<in> {Default, Fallback} \<and>
     secondary_label sw = other_label (primary_label sw) \<and>
     main_url sw = url_of sw (primary_label sw) \<and> test_url sw = url_of sw (secondary_label sw)"

text \<open>What no operation of this part changes.\<close>

definition sw_frame :: "switching \<Rightarrow> switching \<Rightarrow> bool" where
  "sw_frame sw sw' \<longleftrightarrow> default_processor sw' = default_processor sw \<and>
     fallback_processor sw' = fallback_processor sw \<and> fee_difference sw' = fee_difference sw \<and>
     fallback_interval_ms sw' = fallback_interval_ms sw \<and> fallback_enabled sw' = fallback_enabled sw"

named_theorems sw_defs \<open>definitions of the operations on the choice of the processor\<close>
declare trigger_switch_def [sw_defs] update_time_def [sw_defs] evaluate_switch_def [sw_defs]
  mark_down_def [sw_defs] server_error_def [sw_defs] recover_def [sw_defs] handle_response_def [sw_defs]

lemma other_label_simps [simp]: "other_label Default = Fallback" "other_label Fallback = Default"
  by (simp_all add: other_label_def)

lemma sw_frame_refl [simp]: "sw_frame sw sw"
  by (simp add: sw_frame_def)

lemma sw_frame_trans: "sw_frame a b \<Longrightarrow> sw_frame b c \<Longrightarrow> sw_frame a c"
  by (simp add: sw_frame_def)

text \<open>A sequence of responses, handled one after the other.\<close>

definition respond_all ::
  "(processor_result \<Rightarrow> double \<Rightarrow> int \<Rightarrow> 's \<Rightarrow> 's) \<Rightarrow> (processor_result \<times> double \<times> int) list \<Rightarrow> 's \<Rightarrow> 's"
where
  "respond_all respond rs s = foldl (\<lambda>s (p, e, c). respond p e c s) s rs"

text \<open>An operation that moves within the frame and keeps labels and addresses in step.\<close>

locale failover =
  fixes labels_ok :: "'s \<Rightarrow> bool"
    and frame :: "'s \<Rightarrow> 's \<Rightarrow> bool"
    and respond :: "processor_result \<Rightarrow> double \<Rightarrow> int \<Rightarrow> 's \<Rightarrow> 's"
  assumes frame_refl: "frame s s"
    and frame_trans: "frame s1 s2 \<Longrightarrow> frame s2 s3 \<Longrightarrow> frame s1 s3"
    and respond_frame: "frame s (respond p e c s)"
    and respond_ok: "labels_ok s \<Longrightarrow> labels_ok (respond p e c s)"
begin

lemma respond_all_ok:
  "labels_ok s \<Longrightarrow> labels_ok (respond_all respond rs s) \<and> frame s (respond_all respond rs s)"
proof (induction rs rule: rev_induct)
  case Nil
  then show ?case by (simp add: respond_all_def frame_refl)
next
  case (snoc r rs)
  then show ?case
    using respond_ok respond_frame frame_trans
    by (cases r) (force simp: respond_all_def)
qed

end

lemma trigger_switch_frame: "sw_frame sw (trigger_switch sw)"
  by (simp add: sw_frame_def trigger_switch_def)

lemma trigger_switch_inv: "sw_inv sw \<Longrightarrow> sw_inv (trigger_switch sw)"
  by (auto simp: sw_inv_def trigger_switch_def url_of_def)

lemma trigger_switch_primary:
  "sw_inv sw \<Longrightarrow> primary_label (trigger_switch sw) =
     (if fallback_enabled sw then other_label (primary_label sw) else primary_label sw)"
  by (auto simp: sw_inv_def trigger_switch_def)

lemma trigger_switch_keeps [simp]:
  "default_down (trigger_switch sw) = default_down sw"
  "fallback_down (trigger_switch sw) = fallback_down sw"
  "fallback_evaluated (trigger_switch sw) = fallback_evaluated sw"
  "fallback_enabled (trigger_switch sw) = fallback_enabled sw"
  "default_time_ms (trigger_switch sw) = default_time_ms sw"
  "fallback_time_ms (trigger_switch sw) = fallback_time_ms sw"
  by (simp_all add: trigger_switch_def)

lemma sw_inv_flags:
  "sw_inv (sw\<lparr>default_down := b\<rparr>) = sw_inv sw" "sw_inv (sw\<lparr>fallback_down := b\<rparr>) = sw_inv sw"
  "sw_inv (sw\<lparr>default_time_ms := x\<rparr>) = sw_inv sw" "sw_inv (sw\<lparr>fallback_time_ms := x\<rparr>) = sw_inv sw"
  "sw_inv (sw\<lparr>fallback_evaluated := b\<rparr>) = sw_inv sw"
  by (simp_all add: sw_inv_def url_of_def)

lemma sw_frame_flags:
  "sw_frame s (sw\<lparr>default_down := b\<rparr>) = sw_frame s sw" "sw_frame s (sw\<lparr>fallback_down := b\<rparr>) = sw_frame s sw"
  "sw_frame s (sw\<lparr>default_time_ms := x\<rparr>) = sw_frame s sw"
  "sw_frame s (sw\<lparr>fallback_time_ms := x\<rparr>) = sw_frame s sw"
  "sw_frame s (sw\<lparr>fallback_evaluated := b\<rparr>) = sw_frame s sw"
  "sw_frame s (trigger_switch sw) = sw_frame s sw"
  by (simp_all add: sw_frame_def trigger_switch_def)

lemma evaluate_switch_inv: "sw_inv sw \<Longrightarrow> sw_inv (evaluate_switch sw)"
  by (simp add: evaluate_switch_def Let_def sw_inv_flags trigger_switch_inv)

lemma evaluate_switch_frame: "sw_frame s (evaluate_switch sw) = sw_frame s sw"
  by (simp add: evaluate_switch_def Let_def sw_frame_flags)

lemma recover_inv: "sw_inv sw \<Longrightarrow> sw_inv (recover p sw)"
  by (simp add: recover_def Let_def sw_inv_flags trigger_switch_inv)

lemma recover_frame: "sw_frame s (recover p sw) = sw_frame s sw"
  by (simp add: recover_def Let_def sw_frame_flags)

lemma handle_response_inv: "sw_inv sw \<Longrightarrow> sw_inv (fst (handle_response p e c sw))"
  by (simp add: handle_response_def server_error_def mark_down_def Let_def update_time_def
      sw_inv_flags trigger_switch_inv evaluate_switch_inv recover_inv)

lemma handle_response_frame: "sw_frame sw (fst (handle_response p e c sw))"
  by (simp add: handle_response_def server_error_def mark_down_def Let_def update_time_def
      sw_frame_flags evaluate_switch_frame recover_frame)

interpretation labels: failover sw_inv sw_frame "\<lambda>p e c sw. fst (handle_response p e c sw)"
  by unfold_locales (auto intro: sw_frame_trans handle_response_inv handle_response_frame)

lemma handle_response_disabled: "\<not> fallback_enabled sw \<Longrightarrow> handle_response p e c sw = (sw, None)"
  by (simp add: handle_response_def)

lemma evaluate_switch_primary:
  assumes inv: "sw_inv sw" and urls: "default_processor sw \<noteq> fallback_processor sw"
    and "fallback_enabled sw" and "\<not> fallback_evaluated sw"
    and "\<not> deq (default_time_ms sw) dzero" and "\<not> deq (fallback_time_ms sw) dzero"
  shows "primary_label (evaluate_switch sw) =
    (if dlt (fallback_time_ms sw) (default_time_ms sw) \<and>
        dge (ddiv (default_time_ms sw) (fallback_time_ms sw)) (fee_difference sw)
     then Fallback else Default)"
  using assms by (auto simp: evaluate_switch_def Let_def trigger_switch_def sw_inv_def url_of_def)

text \<open>A concrete choice, used as an example: the fallback is primary when the flag says so.\<close>

definition sample_sw :: "bool \<Rightarrow> switching" where
  "sample_sw on_fallback =
     \<lparr>default_processor = ''http://d/payments'', fallback_processor = ''http://f/payments'',
      main_url = (if on_fallback then ''http://f/payments'' else ''http://d/payments''),
      test_url = (if on_fallback then ''http://d/payments'' else ''http://f/payments''),
      default_time_ms = Fin False 6755399441055744 (-50), fallback_time_ms = Fin False 4503599627370496 (-52),
      fallback_down = False, default_down = False, fee_difference = Fin False 6755399441055744 (-51),
      fallback_interval_ms = 1000, fallback_enabled = True, fallback_evaluated = True,
      primary_label = (if on_fallback then Fallback else Default),
      secondary_label = (if on_fallback then Default else Fallback)\<rparr>"

lemma sample_sw_inv: "sw_inv (sample_sw b)"
  by (simp add: sw_inv_def sample_sw_def url_of_def)

lemma sample_sw_simps [simp]:
  "default_processor (sample_sw b) = ''http://d/payments''"
  "fallback_processor (sample_sw b) = ''http://f/payments''"
  "fallback_down (sample_sw b) = False" "default_down (sample_sw b) = False"
  "fallback_enabled (sample_sw b) = True" "fallback_evaluated (sample_sw b) = True"
  "primary_label (sample_sw b) = (if b then Fallback else Default)"
  "default_time_ms (sample_sw b) = Fin False 6755399441055744 (-50)"
  "fallback_time_ms (sample_sw b) = Fin False 4503599627370496 (-52)"
  "fee_difference (sample_sw b) = Fin False 6755399441055744 (-51)"
  by (simp_all add: sample_sw_def)

lemma sample_improvement:
  "round_ratio False 27021597764222976 4503599627370496 = Fin False 6755399441055744 (-50)"
  by (simp add: round_ratio_def ilog2_def round_half_even_def Let_def)

section \<open>Properties\<close>

text \<open>
  C19. Labels and addresses stay in step: after any sequence of responses, with any codes and any
  times, the two labels still name the two processors, one each, the main address is the one of the
  primary label and the test address the one of the secondary label, and the configured addresses
  have not changed.
\<close>

theorem handle_responses_labels:
  assumes "sw_inv sw"
  shows "let sw' = respond_all (\<lambda>p e c sw. fst (handle_response p e c sw)) rs sw
    in sw_inv sw' \<and> sw_frame sw sw'"
  unfolding Let_def using assms by (rule labels.respond_all_ok)

theorem handle_responses_labels_witness:
  "let sw' = respond_all (\<lambda>p e c sw. fst (handle_response p e c sw))
       [(Default, dzero, 500), (Fallback, dzero, 200), (Default, dzero, 0)] (sample_sw False)
    in sw_inv sw' \<and> sw_frame (sample_sw False) sw'"
  by (rule handle_responses_labels) (rule sample_sw_inv)

text \<open>
  C20. A server error (code 500) of a processor: it is marked down; when the other one is up the
  other one is the primary from then on, whichever was before; when the other one is down as well
  the primary stays and the caller sleeps for half the fallback interval.
\<close>

theorem server_error_leaves_down_processor:
  assumes "sw_inv sw" and "fallback_enabled sw" and "p = Default \<or> p = Fallback"
  shows "let (sw', sleep) = handle_response p e 500 sw in
    proc_down sw' p \<and> proc_down sw' (other_label p) = proc_down sw (other_label p) \<and>
    (if proc_down sw (other_label p)
     then primary_label sw' = primary_label sw \<and> sleep = Some (fallback_interval_ms sw sdiv 2)
     else primary_label sw' = other_label p \<and> sleep = None)"
  using assms
  by (auto simp: handle_response_def server_error_def mark_down_def Let_def proc_down_def sw_inv_def
      trigger_switch_def)

theorem server_error_leaves_down_processor_witness:
  "let (sw', sleep) = handle_response Fallback dzero 500 (sample_sw True) in
    proc_down sw' Fallback \<and> \<not> proc_down sw' Default \<and> primary_label sw' = Default \<and> sleep = None"
  using server_error_leaves_down_processor [OF sample_sw_inv, of True Fallback dzero]
  by (simp add: proc_down_def split_def Let_def)

text \<open>
  C34. Recovery with both processors down: when the primary one answers again (any code but 500), the
  switch makes the other one the primary although it is still down.
\<close>

theorem recovered_primary_is_demoted:
  assumes "sw_inv sw" and "fallback_enabled sw" and "fallback_evaluated sw"
    and "default_down sw" and "fallback_down sw" and "code \<noteq> 500"
  shows "let p = primary_label sw; sw' = fst (handle_response p e code sw) in
    \<not> proc_down sw' p \<and> primary_label sw' = other_label p \<and> proc_down sw' (primary_label sw')"
  using assms
  by (auto simp: handle_response_def recover_def update_time_def evaluate_switch_def Let_def
      proc_down_def sw_inv_def trigger_switch_def)

theorem recovered_primary_is_demoted_witness:
  "let sw = (sample_sw False)\<lparr>default_down := True, fallback_down := True\<rparr>;
       sw' = fst (handle_response Default dzero 200 sw) in
    \<not> proc_down sw' Default \<and> primary_label sw' = Fallback \<and> proc_down sw' (primary_label sw')"
  using recovered_primary_is_demoted
    [of "(sample_sw False)\<lparr>default_down := True, fallback_down := True\<rparr>" 200 dzero]
    sample_sw_inv [of False]
  by (auto simp: sw_inv_flags Let_def)



text \<open>
  C36. One address for both processors (what the configuration gives when no fallback address is set):
  the test whether the default is in use compares addresses and is always true, so every evaluation
  that favours the fallback swaps the labels, also when the fallback is the primary already.
\<close>

theorem evaluate_switch_equal_addresses:
  assumes "sw_inv sw" and "default_processor sw = fallback_processor sw"
    and "fallback_enabled sw" and "\<not> fallback_evaluated sw"
    and "\<not> deq (default_time_ms sw) dzero" and "\<not> deq (fallback_time_ms sw) dzero"
    and "dlt (fallback_time_ms sw) (default_time_ms sw)"
    and "dge (ddiv (default_time_ms sw) (fallback_time_ms sw)) (fee_difference sw)"
  shows "primary_label (evaluate_switch sw) = other_label (primary_label sw)"
  using assms by (auto simp: evaluate_switch_def Let_def trigger_switch_def sw_inv_def url_of_def)

theorem evaluate_switch_equal_addresses_witness:
  "primary_label (evaluate_switch ((sample_sw True)\<lparr>default_processor := ''u'', fallback_processor := ''u'',
     main_url := ''u'', test_url := ''u'', fallback_evaluated := False\<rparr>)) = Default"
proof -
  have "sw_inv ((sample_sw True)\<lparr>default_processor := ''u'', fallback_processor := ''u'',
     main_url := ''u'', test_url := ''u'', fallback_evaluated := False\<rparr>)"
    by (simp add: sw_inv_def url_of_def sample_sw_def)
  from evaluate_switch_equal_addresses [OF this] show ?thesis
    by (simp add: sample_improvement deq_def dlt_def dge_def dzero_def signed_def)
qed

end
