(* ===== verification/Processor.thy ===== *)
theory Processor
  imports Switching Worker_Queue
begin

text \<open>
  Sending a payment to a processor in \<^verbatim>\<open>PaymentService\<close> (src/src/main.cpp): the libcurl handles
  (\<^verbatim>\<open>struct CurlHandle\<close>), one request (\<^verbatim>\<open>send_to_processor\<close>), one attempt at a payment with its
  second request to the other processor (\<^verbatim>\<open>process_payment\<close>), and what the worker does with the
  outcome (\<^verbatim>\<open>process\<close>).

  The operating system and libcurl are arguments: a record \<open>env\<close> of functions on a world \<open>'w\<close>. The
  theorems hold for every such record. \<open>traced\<close> turns an environment into one that also keeps the
  list of requests made, so that statements can speak about them.
\<close>

section \<open>libcurl handles\<close>

text \<open>
  The options the source sets on an easy handle. The two callbacks of the source are the two
  constructors of \<open>write_fn\<close>.
\<close>

datatype write_fn = write_callback | ignore_write_callback

record easy =
  opt_url :: string
  opt_httpheader :: "string list"
  opt_post :: int
  opt_writefunction :: "write_fn option"
  opt_tcp_keepalive :: int
  opt_tcp_keepidle :: int
  opt_tcp_keepintvl :: int
  opt_maxlifetime_conn :: int
  opt_maxage_conn :: int
  opt_postfields :: "string option"

text \<open>A fresh handle: nothing set by the source yet.\<close>

definition easy_new :: easy where
  "easy_new = \<lparr>opt_url = [], opt_httpheader = [], opt_post = 0, opt_writefunction = None,
     opt_tcp_keepalive = 0, opt_tcp_keepidle = 60, opt_tcp_keepintvl = 60, opt_maxlifetime_conn = 0,
     opt_maxage_conn = 118, opt_postfields = None\<rparr>"

text \<open>
  What a callback does with a chunk of the response: the new contents of the buffer, and the number
  of bytes it reports as consumed.
\<close>

fun run_write_fn :: "write_fn \<Rightarrow> string \<Rightarrow> string \<Rightarrow> string \<times> nat" where
  "run_write_fn write_callback buf contents = (buf @ contents, length contents)"
| "run_write_fn ignore_write_callback buf contents = (buf, length contents)"

record curl_handle =
  ch_handle :: "easy option"
  ch_headers :: "string list"
  response_buffer :: string

text \<open>The constructor; \<open>init\<close> is what \<^verbatim>\<open>curl_easy_init\<close> returned.\<close>

definition CurlHandle :: "easy option \<Rightarrow> string \<Rightarrow> curl_handle" where
  "CurlHandle init url =
     (case init of
        None \<Rightarrow> \<lparr>ch_handle = None, ch_headers = [], response_buffer = []\<rparr>
      | Some h \<Rightarrow>
          (let hs = [''Content-Type: application/json'']
           in \<lparr>ch_handle = Some (h\<lparr>opt_url := c_str url, opt_httpheader := hs, opt_post := 1,
                 opt_writefunction := Some ignore_write_callback, opt_tcp_keepalive := 1,
                 opt_tcp_keepidle := 360, opt_tcp_keepintvl := 15, opt_maxlifetime_conn := 360,
                 opt_maxage_conn := 360\<rparr>),
               ch_headers = hs, response_buffer = []\<rparr>))"

definition clear_response :: "curl_handle \<Rightarrow> curl_handle" where
  "clear_response h = h\<lparr>response_buffer := []\<rparr>"

definition curl_response :: "curl_handle \<Rightarrow> string" where
  "curl_response h = response_buffer h"

text \<open>The body is passed as a C string without a length: libcurl sends it up to the first zero byte.\<close>

definition set_payload :: "string \<Rightarrow> curl_handle \<Rightarrow> curl_handle" where
  "set_payload body h = h\<lparr>ch_handle := map_option (\<lambda>c. c\<lparr>opt_postfields := Some (c_str body)\<rparr>) (ch_handle h)\<rparr>"

section \<open>The environment\<close>

text \<open>
  What a transfer gives: whether \<^verbatim>\<open>curl_easy_perform\<close> returned \<^verbatim>\<open>CURLE_OK\<close>, the response code that
  \<^verbatim>\<open>curl_easy_getinfo\<close> reports, and the chunks of the body handed to the write callback.
\<close>

record reply =
  curle_ok :: bool
  response_code :: int
  chunks :: "string list"

text \<open>
  The clocks give nanoseconds, except \<^verbatim>\<open>time(nullptr)\<close>, which gives seconds; \<open>env_sleep\<close> takes
  nanoseconds.
\<close>

record 'w env =
  env_time :: "'w \<Rightarrow> int \<times> 'w"
  env_steady :: "'w \<Rightarrow> int \<times> 'w"
  env_now :: "'w \<Rightarrow> int \<times> 'w"
  env_perform :: "easy \<Rightarrow> 'w \<Rightarrow> reply \<times> 'w"
  env_sleep :: "int \<Rightarrow> 'w \<Rightarrow> 'w"

section \<open>One request\<close>

type_synonym handle_map = "nat \<Rightarrow> (processor_result \<Rightarrow> curl_handle option) option"

text \<open>\<^verbatim>\<open>m.at(k)\<close>.\<close>

definition map_at :: "('k \<Rightarrow> 'v option) \<Rightarrow> 'k \<Rightarrow> 'v result" where
  "map_at m k = (case m k of None \<Rightarrow> Inl (OutOfRange ''at'') | Some v \<Rightarrow> Inr v)"

text \<open>\<^verbatim>\<open>duration<double, milli>(end - start).count()\<close>.\<close>

definition elapsed_ms :: "int \<Rightarrow> int \<Rightarrow> double" where
  "elapsed_ms start stop = ddiv (int_to_double (stop - start)) (int_to_double 1000000)"

text \<open>
  The two references of the source are thread-local and bound once per thread; a thread always
  passes the same \<open>worker\<close>, so they are the entries of that worker. Results: success, elapsed time,
  response code.
\<close>

definition send_to_processor ::
  "'w env \<Rightarrow> nat \<Rightarrow> processor_result \<Rightarrow> string \<Rightarrow> handle_map \<Rightarrow> 'w \<Rightarrow>
     ((bool \<times> double \<times> int) \<times> handle_map \<times> 'w) result" where
  "send_to_processor env worker processor payload handles w =
     rbind (map_at handles worker) (\<lambda>hm.
     rbind (map_at hm Default) (\<lambda>worker_default_handle.
     rbind (map_at hm Fallback) (\<lambda>worker_fallback_handle.
       let key = (if processor = Default then Default else Fallback);
           curl_wrapper = (if processor = Default then worker_default_handle
                           else worker_fallback_handle)
       in case ch_handle curl_wrapper of
            None \<Rightarrow> Inr ((False, dzero, 0), handles, w)
          | Some _ \<Rightarrow>
              (let curl_wrapper = set_payload payload (clear_response curl_wrapper);
                   (start, w) = env_steady env w;
                   (rep, w) = env_perform env (the (ch_handle curl_wrapper)) w;
                   (stop, w) = env_steady env w;
                   code = response_code rep
               in Inr ((curle_ok rep \<and> code = 200, elapsed_ms start stop, code),
                       handles(worker \<mapsto> hm(key \<mapsto> curl_wrapper)), w)))))"

section \<open>One attempt at a payment\<close>

text \<open>The members of \<^verbatim>\<open>PaymentService\<close> other than the queue vector's, the record's and the choice's.\<close>

record service =
  sv_queues :: "worker_queue list"
  sv_processed :: store
  sv_switch :: switching
  curl_handles :: handle_map
  sv_running :: bool
  last_fallback :: int
  sv_started :: int
  fallback_is_running :: bool
  inter_interval :: int
  empty_interval :: int

text \<open>\<^verbatim>\<open>handle_response\<close> as a member of the service, its sleep included.\<close>

definition respond_io ::
  "'w env \<Rightarrow> processor_result \<Rightarrow> double \<Rightarrow> int \<Rightarrow> service \<Rightarrow> 'w \<Rightarrow> service \<times> 'w" where
  "respond_io env processor elapsed code sv w =
     (let (sw, sleep) = handle_response processor elapsed code (sv_switch sv)
      in (sv\<lparr>sv_switch := sw\<rparr>, case sleep of None \<Rightarrow> w | Some ms \<Rightarrow> env_sleep env (ms * 1000000) w))"

text \<open>The second half of \<^verbatim>\<open>process_payment\<close>: the request to the other processor.\<close>

definition try_secondary ::
  "'w env \<Rightarrow> nat \<Rightarrow> processor_result \<Rightarrow> string \<Rightarrow> u64 \<Rightarrow> int \<Rightarrow> service \<Rightarrow> 'w \<Rightarrow>
     ((processor_result \<times> u64 \<times> string) \<times> service \<times> 'w) result" where
  "try_secondary env worker_id secondary_label_local payload ts code sv w =
     rbind (send_to_processor env worker_id secondary_label_local payload (curl_handles sv) w)
       (\<lambda>((ok, elapsed2, code2), hs, w).
        let (sv, w) = respond_io env secondary_label_local elapsed2 code2 (sv\<lparr>curl_handles := hs\<rparr>) w
        in if ok then Inr ((secondary_label_local, ts, payload), sv, w)
           else if code = 422 then Inr ((Discard, ts, payload), sv, w)
           else Inr ((TryAgain, ts, payload), sv, w))"

definition process_payment ::
  "'w env \<Rightarrow> nat \<Rightarrow> string \<Rightarrow> bool \<Rightarrow> ts_cache \<Rightarrow> service \<Rightarrow> 'w \<Rightarrow>
     ((processor_result \<times> u64 \<times> string) \<times> ts_cache \<times> service \<times> 'w) result" where
  "process_payment env worker_id json isFallbackPool cache sv w =
     (let (now, w) = env_time env w in
      rbind (create_processor_payload now cache json) (\<lambda>(cache, payload, ts).
        let sw = sv_switch sv;
            primary_label_local = (if isFallbackPool then secondary_label sw else primary_label sw);
            secondary_label_local = (if isFallbackPool then primary_label sw else secondary_label sw)
        in rbind (send_to_processor env worker_id primary_label_local payload (curl_handles sv) w)
             (\<lambda>((ok, elapsed, code), hs, w).
              let sv = sv\<lparr>curl_handles := hs\<rparr>;
                  sv = (if isFallbackPool
                        then sv\<lparr>sv_switch := (sv_switch sv)\<lparr>fallback_evaluated := False\<rparr>\<rparr> else sv);
                  (sv, w) = respond_io env primary_label_local elapsed code sv w
              in if ok then Inr ((primary_label_local, ts, payload), cache, sv, w)
                 else if code = 422 then Inr ((Discard, ts, payload), cache, sv, w)
                 else if \<not> fallback_enabled (sv_switch sv)
                 then Inr ((TryAgain, ts, payload), cache, sv, w)
                 else rbind (try_secondary env worker_id secondary_label_local payload ts code sv w)
                        (\<lambda>(out, sv, w). Inr (out, cache, sv, w)))))"

section \<open>What the worker does with the outcome\<close>

text \<open>\<^verbatim>\<open>string(json, r.size)\<close>: as many bytes as the size says, from an array of 70.\<close>

definition raw_text :: "raw_payment \<Rightarrow> string result" where
  "raw_text r =
     (if length (rp_data r) < unat (rp_size r) then Inl BufferOverflow
      else Inr (take (unat (rp_size r)) (rp_data r)))"

definition dispose ::
  "nat \<Rightarrow> raw_payment \<Rightarrow> processor_result \<times> u64 \<times> string \<Rightarrow> service \<Rightarrow> service result" where
  "dispose worker_id r out sv =
     (case out of (processor, ts, payload) \<Rightarrow>
        if processor = TryAgain
        then rbind (enqueue (sv_queues sv) worker_id r) (\<lambda>qs. Inr (sv\<lparr>sv_queues := qs\<rparr>))
        else if processor \<noteq> Discard
        then rbind (store_processed (fallback_enabled (sv_switch sv)) (sv_processed sv) payload processor ts)
               (\<lambda>st. Inr (sv\<lparr>sv_processed := st\<rparr>))
        else Inr sv)"

definition process ::
  "'w env \<Rightarrow> nat \<Rightarrow> raw_payment \<Rightarrow> bool \<Rightarrow> ts_cache \<Rightarrow> service \<Rightarrow> 'w \<Rightarrow>
     (ts_cache \<times> service \<times> 'w) result" where
  "process env worker_id r isFallbackPool cache sv w =
     rbind (raw_text r) (\<lambda>json_str.
     rbind (process_payment env worker_id json_str isFallbackPool cache sv w)
       (\<lambda>(out, cache, sv, w).
     rbind (dispose worker_id r out sv) (\<lambda>sv.
       let (sv, w) = (if isFallbackPool
                      then (let (now, w) = env_now env w
                            in (sv\<lparr>fallback_is_running := False, last_fallback := now\<rparr>, w))
                      else (sv, w));
           w = (if 0 < inter_interval sv \<and> \<not> isFallbackPool
                then env_sleep env (inter_interval sv * 1000) w else w)
       in Inr (cache, sv, w))))"

section \<open>Requests made\<close>

text \<open>The same environment, with the list of requests and replies kept beside its world.\<close>

definition traced :: "'w env \<Rightarrow> ('w \<times> (easy \<times> reply) list) env" where
  "traced env =
     \<lparr>env_time = (\<lambda>(w, l). let (t, w') = env_time env w in (t, w', l)),
      env_steady = (\<lambda>(w, l). let (t, w') = env_steady env w in (t, w', l)),
      env_now = (\<lambda>(w, l). let (t, w') = env_now env w in (t, w', l)),
      env_perform = (\<lambda>req (w, l). let (rep, w') = env_perform env req w in (rep, w', l @ [(req, rep)])),
      env_sleep = (\<lambda>n (w, l). (env_sleep env n w, l))\<rparr>"

lemma traced_simps [simp]:
  "env_now (traced env) (w, l) = (fst (env_now env w), snd (env_now env w), l)"
  "env_sleep (traced env) n (w, l) = (env_sleep env n w, l)"
  by (simp_all add: traced_def split_def Let_def)

definition accepted :: "easy \<times> reply \<Rightarrow> bool" where
  "accepted x \<longleftrightarrow> curle_ok (snd x) \<and> response_code (snd x) = 200"

text \<open>The address a worker's handle for a processor points to.\<close>

definition handle_url :: "handle_map \<Rightarrow> nat \<Rightarrow> processor_result \<Rightarrow> string option" where
  "handle_url hs worker p =
     (case hs worker of None \<Rightarrow> None | Some hm \<Rightarrow>
        (case hm p of None \<Rightarrow> None | Some h \<Rightarrow> map_option opt_url (ch_handle h)))"

definition handles_ok :: "switching \<Rightarrow> nat \<Rightarrow> handle_map \<Rightarrow> bool" where
  "handles_ok sw worker hs \<longleftrightarrow>
     handle_url hs worker Default = Some (c_str (default_processor sw)) \<and>
     handle_url hs worker Fallback = Some (c_str (fallback_processor sw))"

lemma handle_url_Some:
  "handle_url hs worker p = Some u \<longleftrightarrow>
     (\<exists>hm h c. hs worker = Some hm \<and> hm p = Some h \<and> ch_handle h = Some c \<and> opt_url c = u)"
  by (auto simp: handle_url_def split: option.splits)

lemma handles_ok_frame:
  "handles_ok sw worker hs \<Longrightarrow> sw_frame sw sw' \<Longrightarrow> handles_ok sw' worker hs"
  by (simp add: handles_ok_def sw_frame_def)

lemma map_at_Some [simp]: "m k = Some v \<Longrightarrow> map_at m k = Inr v"
  by (simp add: map_at_def)

lemma send_traced:
  assumes ok: "handles_ok sw worker hs"
  shows "\<exists>req rep e hs' w'. send_to_processor (traced env) worker p payload hs (w, l) =
      Inr ((accepted (req, rep), e, response_code rep), hs', w', l @ [(req, rep)]) \<and>
    (\<forall>i. handles_ok sw i hs \<longrightarrow> handles_ok sw i hs') \<and>
    opt_url req = c_str (url_of sw p) \<and> opt_postfields req = Some (c_str payload)"
proof -
  obtain hm d f ed ef where h: "hs worker = Some hm" "hm Default = Some d" "hm Fallback = Some f"
      "ch_handle d = Some ed" "ch_handle f = Some ef"
      "opt_url ed = c_str (default_processor sw)" "opt_url ef = c_str (fallback_processor sw)"
    using ok unfolding handles_ok_def handle_url_Some by auto
  show ?thesis
    by (cases "p = Default")
       (auto simp: send_to_processor_def h traced_def set_payload_def clear_response_def accepted_def
         Let_def split_def url_of_def handles_ok_def handle_url_Some)
qed

lemma respond_io_traced:
  "\<exists>sw' w'. respond_io (traced env) p e c sv (w, l) = (sv\<lparr>sv_switch := sw'\<rparr>, w', l) \<and>
     sw_frame (sv_switch sv) sw' \<and> (sw_inv (sv_switch sv) \<longrightarrow> sw_inv sw')"
  using handle_response_frame [of "sv_switch sv" p e c] handle_response_inv [of "sv_switch sv" p e c]
  by (auto simp: respond_io_def traced_def split_def Let_def split: option.splits)

text \<open>
  How the requests of an attempt decide its outcome: one request, or two when the fallback is
  enabled and the first one was neither accepted nor refused with 422; every request carries the
  payload; only the last one can be accepted, and then the outcome is the processor it went to.
\<close>

definition attempt_ok ::
  "switching \<Rightarrow> string \<Rightarrow> processor_result \<Rightarrow> (easy \<times> reply) list \<Rightarrow> bool" where
  "attempt_ok sw payload res new \<longleftrightarrow>
     new \<noteq> [] \<and> length new \<le> (if fallback_enabled sw then 2 else 1) \<and>
     (\<forall>x\<in>set new. opt_postfields (fst x) = Some (c_str payload)) \<and>
     (\<forall>x\<in>set (butlast new). \<not> accepted x) \<and>
     (res = Default \<or> res = Fallback \<longleftrightarrow> accepted (last new)) \<and>
     (accepted (last new) \<longrightarrow> opt_url (fst (last new)) = c_str (url_of sw res)) \<and>
     (res = Discard \<longleftrightarrow> length new = 1 \<and> response_code (snd (hd new)) = 422)"

lemma url_of_frame: "sw_frame sw sw' \<Longrightarrow> url_of sw' p = url_of sw p"
  by (simp add: sw_frame_def url_of_def)

lemma try_secondary_traced:
  assumes h: "handles_ok (sv_switch sv) worker (curl_handles sv)"
    and code: "code \<noteq> 422"
  shows "\<exists>res sv' w' req rep. try_secondary (traced env) worker p payload ts code sv (w, l) =
      Inr ((res, ts, payload), sv', w', l @ [(req, rep)]) \<and>
    res = (if accepted (req, rep) then p else TryAgain) \<and>
    opt_url req = c_str (url_of (sv_switch sv) p) \<and> opt_postfields req = Some (c_str payload) \<and>
    (\<exists>hs sw'. sv' = sv\<lparr>curl_handles := hs, sv_switch := sw'\<rparr> \<and>
       (\<forall>i. handles_ok (sv_switch sv) i (curl_handles sv) \<longrightarrow> handles_ok (sv_switch sv) i hs) \<and>
       sw_frame (sv_switch sv) sw' \<and> (sw_inv (sv_switch sv) \<longrightarrow> sw_inv sw'))"
proof -
  obtain req rep e hs w1 where s: "send_to_processor (traced env) worker p payload (curl_handles sv) (w, l) =
      Inr ((accepted (req, rep), e, response_code rep), hs, w1, l @ [(req, rep)])"
    and hs: "\<forall>i. handles_ok (sv_switch sv) i (curl_handles sv) \<longrightarrow> handles_ok (sv_switch sv) i hs"
    and u: "opt_url req = c_str (url_of (sv_switch sv) p)" "opt_postfields req = Some (c_str payload)"
    using send_traced [OF h, of env p payload w l] by (elim exE conjE)
  obtain sw' w' where r: "respond_io (traced env) p e (response_code rep) (sv\<lparr>curl_handles := hs\<rparr>)
      (w1, l @ [(req, rep)]) = (sv\<lparr>curl_handles := hs, sv_switch := sw'\<rparr>, w', l @ [(req, rep)])"
    "sw_frame (sv_switch sv) sw'" "sw_inv (sv_switch sv) \<longrightarrow> sw_inv sw'"
    using respond_io_traced [of env p e "response_code rep" "sv\<lparr>curl_handles := hs\<rparr>" w1 "l @ [(req, rep)]"]
    by auto
  show ?thesis
    using s hs u r code by (auto simp: try_secondary_def)
qed

text \<open>What an attempt keeps of the service: only the handles and the choice can change.\<close>

definition attempt_frame :: "service \<Rightarrow> service \<Rightarrow> bool" where
  "attempt_frame sv sv' \<longleftrightarrow>
     (\<exists>hs sw'. sv' = sv\<lparr>curl_handles := hs, sv_switch := sw'\<rparr> \<and>
       (\<forall>i. handles_ok (sv_switch sv) i (curl_handles sv) \<longrightarrow> handles_ok (sv_switch sv) i hs) \<and>
       sw_frame (sv_switch sv) sw' \<and> (sw_inv (sv_switch sv) \<longrightarrow> sw_inv sw'))"

lemma attempt_frame_trans:
  assumes "attempt_frame a b" and "attempt_frame b c"
  shows "attempt_frame a c"
proof -
  obtain hs sw where b: "b = a\<lparr>curl_handles := hs, sv_switch := sw\<rparr>"
      "\<forall>i. handles_ok (sv_switch a) i (curl_handles a) \<longrightarrow> handles_ok (sv_switch a) i hs"
      "sw_frame (sv_switch a) sw" "sw_inv (sv_switch a) \<longrightarrow> sw_inv sw"
    using assms(1) by (auto simp: attempt_frame_def)
  obtain hs' sw' where c: "c = b\<lparr>curl_handles := hs', sv_switch := sw'\<rparr>"
      "\<forall>i. handles_ok sw i hs \<longrightarrow> handles_ok sw i hs'" "sw_frame sw sw'" "sw_inv sw \<longrightarrow> sw_inv sw'"
    using assms(2) b(1) by (auto simp: attempt_frame_def)
  have "handles_ok (sv_switch a) i hs'" if "handles_ok (sv_switch a) i (curl_handles a)" for i
    using that b(2,3) c(2) by (auto simp: handles_ok_def sw_frame_def)
  then show ?thesis
    using b c sw_frame_trans [OF b(3) c(3)] by (auto simp: attempt_frame_def)
qed

lemma process_payment_traced:
  assumes cache: "cache_ok cache" and t: "env_time env w = (now, w0)" "0 < now" "now < 253402300800"
    and inv: "sw_inv (sv_switch sv)" and h: "handles_ok (sv_switch sv) worker (curl_handles sv)"
    and payload: "payload = body @ requested_at_key @ requested_at now @ requested_at_end"
  shows "\<exists>res cache' sv' w' new.
    process_payment (traced env) worker (body @ [ch]) fb cache sv (w, l) =
      Inr ((res, word_of_int now, payload), cache', sv', w', l @ new) \<and>
    attempt_ok (sv_switch sv) payload res new \<and> cache_ok cache' \<and> attempt_frame sv sv'"
proof -
  let ?sw = "sv_switch sv"
  let ?p = "if fb then secondary_label ?sw else primary_label ?sw"
  let ?s = "if fb then primary_label ?sw else secondary_label ?sw"
  have lab: "?p = Default \<or> ?p = Fallback" "?s = Default \<or> ?s = Fallback"
    using inv by (auto simp: sw_inv_def other_label_def)
  obtain cache' where c: "create_processor_payload now cache (body @ [ch]) =
      Inr (cache', payload, word_of_int now)" "cache_ok cache'"
    using create_payload_ok [OF cache t(2,3), of body ch] unfolding payload by blast
  obtain req rep e hs w1 where s: "send_to_processor (traced env) worker ?p payload (curl_handles sv) (w0, l) =
      Inr ((accepted (req, rep), e, response_code rep), hs, w1, l @ [(req, rep)])"
    and hs: "\<forall>i. handles_ok ?sw i (curl_handles sv) \<longrightarrow> handles_ok ?sw i hs"
    and u: "opt_url req = c_str (url_of ?sw ?p)" "opt_postfields req = Some (c_str payload)"
    using send_traced [OF h, of env ?p payload w0 l] by (elim exE conjE)
  let ?sv1 = "if fb then sv\<lparr>curl_handles := hs, sv_switch := ?sw\<lparr>fallback_evaluated := False\<rparr>\<rparr>
    else sv\<lparr>curl_handles := hs\<rparr>"
  obtain sw2 w2 where r: "respond_io (traced env) ?p e (response_code rep) ?sv1 (w1, l @ [(req, rep)]) =
      (?sv1\<lparr>sv_switch := sw2\<rparr>, w2, l @ [(req, rep)])"
      "sw_frame (sv_switch ?sv1) sw2" "sw_inv (sv_switch ?sv1) \<longrightarrow> sw_inv sw2"
    using respond_io_traced [of env ?p e "response_code rep" ?sv1 w1 "l @ [(req, rep)]"] by blast
  let ?sv2 = "sv\<lparr>curl_handles := hs, sv_switch := sw2\<rparr>"
  have sv2: "?sv1\<lparr>sv_switch := sw2\<rparr> = ?sv2" by simp
  have f2: "sw_frame ?sw sw2"
    using r(2) by (auto simp: sw_frame_def split: if_splits)
  have fr: "attempt_frame sv ?sv2"
    using r(3) hs inv f2 by (auto simp: attempt_frame_def sw_inv_flags split: if_splits)
  have en: "fallback_enabled sw2 = fallback_enabled ?sw"
    using f2 by (simp add: sw_frame_def)
  have time: "env_time (traced env) (w, l) = (now, w0, l)"
    using t(1) by (simp add: traced_def)
  have main: "process_payment (traced env) worker (body @ [ch]) fb cache sv (w, l) =
      (if accepted (req, rep)
       then Inr ((?p, word_of_int now, payload), cache', ?sv2, w2, l @ [(req, rep)])
       else if response_code rep = 422
       then Inr ((Discard, word_of_int now, payload), cache', ?sv2, w2, l @ [(req, rep)])
       else if \<not> fallback_enabled sw2
       then Inr ((TryAgain, word_of_int now, payload), cache', ?sv2, w2, l @ [(req, rep)])
       else rbind (try_secondary (traced env) worker ?s payload (word_of_int now) (response_code rep)
              ?sv2 (w2, l @ [(req, rep)])) (\<lambda>(out, sv, w). Inr (out, cache', sv, w)))"
    unfolding process_payment_def Let_def time prod.case c(1) rbind_Inr s
    using r(1) by (cases fb) simp_all
  show ?thesis
  proof (cases "accepted (req, rep) \<or> response_code rep = 422 \<or> \<not> fallback_enabled ?sw")
    case True
    then show ?thesis
      using main c(2) fr lab u en by (auto simp: attempt_ok_def accepted_def)
  next
    case False
    have h2: "handles_ok (sv_switch ?sv2) worker (curl_handles ?sv2)"
      using hs h handles_ok_frame [OF _ f2] by simp
    obtain res sv' w' req' rep' where
      "try_secondary (traced env) worker ?s payload (word_of_int now) (response_code rep) ?sv2
         (w2, l @ [(req, rep)]) =
       Inr ((res, word_of_int now, payload), sv', w', (l @ [(req, rep)]) @ [(req', rep')])"
      "res = (if accepted (req', rep') then ?s else TryAgain)"
      "opt_url req' = c_str (url_of (sv_switch ?sv2) ?s)" "opt_postfields req' = Some (c_str payload)"
      "attempt_frame ?sv2 sv'"
      using try_secondary_traced [OF h2, of "response_code rep" env ?s payload "word_of_int now" w2
          "l @ [(req, rep)]"] False unfolding attempt_frame_def by blast
    then show ?thesis
      using False main c(2) attempt_frame_trans [OF fr] lab(2) u en
      by (auto simp: attempt_ok_def url_of_frame [OF f2])
  qed
qed

section \<open>Accounting\<close>

text \<open>
  A service in order: labels, queues, record, and for every worker two handles that point to the
  two configured addresses.
\<close>

definition service_ok :: "service \<Rightarrow> bool" where
  "service_ok sv \<longleftrightarrow> sw_inv (sv_switch sv) \<and> store_wf (sv_processed sv) \<and>
     (\<forall>i < length (sv_queues sv). wq_wf (sv_queues sv ! i) \<and>
        handles_ok (sv_switch sv) i (curl_handles sv))"

definition stored_total :: "service \<Rightarrow> u64" where
  "stored_total sv = stored_default (sv_processed sv) + stored_fallback (sv_processed sv)"

definition pending :: "service \<Rightarrow> nat \<Rightarrow> raw_payment list" where
  "pending sv i = wq_contents (sv_queues sv ! i)"

text \<open>The attempt ended with a 422 of the first processor asked.\<close>

definition refused :: "(easy \<times> reply) list \<Rightarrow> bool" where
  "refused new \<longleftrightarrow> length new = 1 \<and> response_code (snd (hd new)) = 422"

lemma attempt_frame_keeps:
  assumes "attempt_frame sv sv'"
  shows "sv_queues sv' = sv_queues sv" "sv_processed sv' = sv_processed sv"
    "fallback_enabled (sv_switch sv') = fallback_enabled (sv_switch sv)"
    "service_ok sv \<Longrightarrow> service_ok sv'"
  using assms by (auto simp: attempt_frame_def service_ok_def sw_frame_def handles_ok_def)

lemma attempt_accepted_count:
  assumes "attempt_ok sw payload res new"
  shows "length (filter accepted new) = (if res = Default \<or> res = Fallback then 1 else 0)"
proof -
  have "new = butlast new @ [last new]" and n: "filter accepted (butlast new) = []"
    using assms by (auto simp: attempt_ok_def filter_empty_conv)
  then have "filter accepted new = filter accepted [last new]"
    by (metis append_Nil filter_append)
  then show ?thesis using assms by (simp add: attempt_ok_def)
qed

lemma dispose_ok:
  assumes ok: "service_ok sv" and i: "i < length (sv_queues sv)"
    and room: "0 < wq_room (sv_queues sv ! i)"
    and amount: "extract_amount payload = Inr a"
    and slot: "unat (ts - processed_start (sv_processed sv)) < PROCESSED_CAPACITY"
  shows "\<exists>sv'. dispose i r (res, ts, payload) sv = Inr sv' \<and> service_ok sv' \<and>
    length (sv_queues sv') = length (sv_queues sv) \<and>
    stored_total sv' = stored_total sv + (if res = Default \<or> res = Fallback then 1 else 0) \<and>
    pending sv' i = pending sv i @ (if res = TryAgain then [r] else []) \<and>
    (\<forall>j. j \<noteq> i \<longrightarrow> pending sv' j = pending sv j)"
proof (cases res)
  case TryAgain
  obtain q' where q: "wq_push (sv_queues sv ! i) r = Inr q'" "wq_wf q'"
      "wq_contents q' = wq_contents (sv_queues sv ! i) @ [r]"
    using wq_push_contents [OF _ room] ok i by (auto simp: service_ok_def)
  with ok i show ?thesis
    by (auto simp: dispose_def TryAgain enqueue_eq service_ok_def stored_total_def pending_def
        nth_list_update)
next
  case Discard
  with ok show ?thesis by (simp add: dispose_def)
next
  case Default
  have "\<exists>st. store_processed (fallback_enabled (sv_switch sv)) (sv_processed sv) payload res ts = Inr st"
    using ok amount slot by (simp add: store_processed_def service_ok_def store_wf_def Let_def)
  then obtain st where
    st: "store_processed (fallback_enabled (sv_switch sv)) (sv_processed sv) payload res ts = Inr st" ..
  with ok stored_store_processed [OF st] store_wf_store_processed [OF _ st] Default show ?thesis
    by (auto simp: dispose_def service_ok_def stored_total_def pending_def)
next
  case Fallback
  have "\<exists>st. store_processed (fallback_enabled (sv_switch sv)) (sv_processed sv) payload res ts = Inr st"
    using ok amount slot by (simp add: store_processed_def service_ok_def store_wf_def Let_def)
  then obtain st where
    st: "store_processed (fallback_enabled (sv_switch sv)) (sv_processed sv) payload res ts = Inr st" ..
  with ok stored_store_processed [OF st] store_wf_store_processed [OF _ st] Fallback show ?thesis
    by (auto simp: dispose_def service_ok_def stored_total_def pending_def)
qed

lemma process_accounting:
  assumes ok: "service_ok sv" and i: "i < length (sv_queues sv)" and cache: "cache_ok cache"
    and t: "env_time env w = (now, w0)" "0 < now" "now < 253402300800"
    and room: "0 < wq_room (sv_queues sv ! i)" and raw: "raw_text r = Inr (body @ [ch])"
    and payload: "payload = body @ requested_at_key @ requested_at now @ requested_at_end"
    and amount: "extract_amount payload = Inr a"
    and slot: "unat (word_of_int now - processed_start (sv_processed sv)) < PROCESSED_CAPACITY"
  shows "\<exists>cache' sv' w' new. process (traced env) i r fb cache sv (w, l) = Inr (cache', sv', w', l @ new) \<and>
    service_ok sv' \<and> cache_ok cache' \<and> length (sv_queues sv') = length (sv_queues sv) \<and>
    (\<forall>x\<in>set new. opt_postfields (fst x) = Some (c_str payload)) \<and>
    length (filter accepted new) \<le> 1 \<and>
    stored_total sv' = stored_total sv + of_nat (length (filter accepted new)) \<and>
    pending sv' i = pending sv i @ (if filter accepted new = [] \<and> \<not> refused new then [r] else []) \<and>
    (\<forall>j. j \<noteq> i \<longrightarrow> pending sv' j = pending sv j)"
proof -
  have inv: "sw_inv (sv_switch sv)" and h: "handles_ok (sv_switch sv) i (curl_handles sv)"
    using ok i by (auto simp: service_ok_def)
  obtain res cache' sv1 w1 new where p: "process_payment (traced env) i (body @ [ch]) fb cache sv (w, l) =
      Inr ((res, word_of_int now, payload), cache', sv1, w1, l @ new)"
      "attempt_ok (sv_switch sv) payload res new" "cache_ok cache'" "attempt_frame sv sv1"
    using process_payment_traced [OF cache t inv h payload, of ch fb l] by blast
  note k = attempt_frame_keeps [OF p(4)]
  obtain sv2 where d: "dispose i r (res, word_of_int now, payload) sv1 = Inr sv2" "service_ok sv2"
      "length (sv_queues sv2) = length (sv_queues sv1)"
      "stored_total sv2 = stored_total sv1 + (if res = Default \<or> res = Fallback then 1 else 0)"
      "pending sv2 i = pending sv1 i @ (if res = TryAgain then [r] else [])"
      "\<forall>j. j \<noteq> i \<longrightarrow> pending sv2 j = pending sv1 j"
    using dispose_ok [OF k(4) [OF ok], of i payload a "word_of_int now" r res] i room amount slot
    by (auto simp: k)
  have retry: "res = TryAgain \<longleftrightarrow> filter accepted new = [] \<and> \<not> refused new"
    using p(2) attempt_accepted_count [OF p(2)]
    by (cases res) (auto simp: attempt_ok_def refused_def)
  obtain sv' w' where f: "process (traced env) i r fb cache sv (w, l) = Inr (cache', sv', w', l @ new)"
      "sv_queues sv' = sv_queues sv2" "sv_processed sv' = sv_processed sv2"
      "sv_switch sv' = sv_switch sv2" "curl_handles sv' = curl_handles sv2"
    unfolding process_def raw rbind_Inr p(1) prod.case d(1) Let_def
    by (cases fb; cases "0 < inter_interval sv2") (auto simp: split_def)
  then have "stored_total sv' = stored_total sv2" "pending sv' = pending sv2" "service_ok sv' = service_ok sv2"
    by (simp_all add: stored_total_def pending_def [abs_def] service_ok_def)
  moreover have "stored_total sv1 = stored_total sv" "pending sv1 = pending sv"
    by (simp_all add: stored_total_def pending_def [abs_def] k)
  moreover have "\<forall>x\<in>set new. opt_postfields (fst x) = Some (c_str payload)"
    using p(2) by (simp add: attempt_ok_def)
  ultimately show ?thesis
    using f(1,2) d p(3) k(1) retry attempt_accepted_count [OF p(2)] by auto
qed

section \<open>An example\<close>

text \<open>
  A world in which a request is answered with the code given for its address after no time, at a
  fixed second.
\<close>

definition sample_env :: "(string \<Rightarrow> int) \<Rightarrow> unit env" where
  "sample_env code =
     \<lparr>env_time = (\<lambda>w. (1755300005, w)), env_steady = (\<lambda>w. (0, w)), env_now = (\<lambda>w. (0, w)),
      env_perform = (\<lambda>req w. (\<lparr>curle_ok = True, response_code = code (opt_url req), chunks = []\<rparr>, w)),
      env_sleep = (\<lambda>n w. w)\<rparr>"

lemma sample_env_time: "env_time (sample_env code) () = (1755300005, ())"
  by (simp add: sample_env_def)

definition sample_service :: service where
  "sample_service =
     \<lparr>sv_queues = [worker_queue_new 2], sv_processed = store_init 1755300000,
      sv_switch = sample_sw False,
      curl_handles = [0 \<mapsto> [Default \<mapsto> CurlHandle (Some easy_new) ''http://d/payments'',
                             Fallback \<mapsto> CurlHandle (Some easy_new) ''http://f/payments'']],
      sv_running = True, last_fallback = 0, sv_started = 0, fallback_is_running = False,
      inter_interval = 0, empty_interval = 100\<rparr>"

definition sample_raw :: raw_payment where
  "sample_raw = \<lparr>rp_data = sample_json @ replicate (RAW_CAPACITY - 41) (CHR 0x00), rp_size = 41\<rparr>"

lemma sample_service_ok: "service_ok sample_service"
  by (simp add: service_ok_def sample_service_def sample_sw_inv store_wf_init wq_wf_new handles_ok_def
      handle_url_def CurlHandle_def Let_def)

definition sample_body :: string where
  \<open>sample_body = ''{"correlationId":"a","amount":19.9,"r":1''\<close>

lemma sample_raw_text: "raw_text sample_raw = Inr (sample_body @ ''}'')"
  by (simp add: raw_text_def sample_raw_def sample_json_def sample_body_def)

lemma sample_body_amount: "extract_amount (sample_body @ rest) = Inr (Fin False 5601352036542054 (-48))"
  by (simp add: sample_body_def extract_amount_def amount_key_def string_eval Let_def)
     (simp add: round_199_10 range_error_def)

text \<open>The default processor fails with 503, the fallback processor refuses with 422.\<close>

definition sample_codes :: "string \<Rightarrow> int" where
  "sample_codes url = (if url = ''http://d/payments'' then 503 else 422)"

lemma sample_two_requests:
  "\<exists>res ts payload cache' sv' w' first second.
     process_payment (traced (sample_env sample_codes)) 0 (sample_body @ [CHR ''}'']) False ts_cache_init
       sample_service ((), []) = Inr ((res, ts, payload), cache', sv', w', [first, second]) \<and>
     response_code (snd second) = 422"
proof -
  obtain c' payload where c: "create_processor_payload 1755300005 ts_cache_init (sample_body @ [CHR ''}'']) =
      Inr (c', payload, word_of_int 1755300005)"
    using create_payload_ok [OF cache_ok_init, of 1755300005 sample_body "CHR ''}''"] by auto
  have l: "primary_label (sample_sw False) = Default" "secondary_label (sample_sw False) = Fallback"
    by (simp_all add: sample_sw_def)
  show ?thesis
    by (simp add: process_payment_def traced_def sample_env_def c Let_def sample_service_def l
        send_to_processor_def CurlHandle_def set_payload_def clear_response_def respond_io_def
        handle_response_def recover_def update_time_def evaluate_switch_def try_secondary_def
        sample_codes_def string_eval)
qed

section \<open>Properties\<close>

text \<open>
  C4. One attempt at a payment, in every environment: it ends with an outcome; it makes one request,
  or two when the fallback is enabled; each request carries the payload up to its first zero byte;
  no request follows an accepted one; the outcome names a processor exactly when the last request
  was accepted (transfer without error, code 200), and then that request went to the address of that
  processor; it is a discard exactly when the first request was the only one and was answered 422.
\<close>

theorem process_payment_outcome:
  assumes "cache_ok cache" and "env_time env w = (now, w0)" and "0 < now" and "now < 253402300800"
    and "sw_inv (sv_switch sv)" and "handles_ok (sv_switch sv) worker (curl_handles sv)"
    and "payload = body @ requested_at_key @ requested_at now @ requested_at_end"
  shows "\<exists>res cache' sv' w' new.
    process_payment (traced env) worker (body @ [ch]) fb cache sv (w, l) =
      Inr ((res, word_of_int now, payload), cache', sv', w', l @ new) \<and>
    new \<noteq> [] \<and> length new \<le> (if fallback_enabled (sv_switch sv) then 2 else 1) \<and>
    (\<forall>x\<in>set new. opt_postfields (fst x) = Some (c_str payload)) \<and>
    (\<forall>x\<in>set (butlast new). \<not> accepted x) \<and>
    (res = Default \<or> res = Fallback \<longleftrightarrow> accepted (last new)) \<and>
    (accepted (last new) \<longrightarrow> opt_url (fst (last new)) = c_str (url_of (sv_switch sv) res)) \<and>
    (res = Discard \<longleftrightarrow> length new = 1 \<and> response_code (snd (hd new)) = 422)"
  using process_payment_traced [OF assms, of ch fb l] unfolding attempt_ok_def by blast

theorem process_payment_outcome_witness:
  "\<exists>res cache' sv' w' new.
    process_payment (traced (sample_env (\<lambda>_. 422))) 0 (sample_body @ ''}'') False ts_cache_init sample_service ((), []) =
      Inr ((res, 1755300005, sample_body @ requested_at_key @ requested_at 1755300005 @ requested_at_end),
        cache', sv', w', new) \<and> new \<noteq> [] \<and> length new \<le> 2 \<and>
    (res = Discard \<longleftrightarrow> length new = 1 \<and> response_code (snd (hd new)) = 422)"
proof -
  have "handles_ok (sv_switch sample_service) 0 (curl_handles sample_service)"
    using sample_service_ok by (simp add: service_ok_def sample_service_def)
  from process_payment_outcome [OF cache_ok_init _ _ _ _ this refl, of "sample_env (\<lambda>_. 422)" "()" 1755300005
      "()" sample_body "CHR ''}''" False "[]"]
  show ?thesis
    using sample_service_ok by (auto simp: sample_env_def service_ok_def sample_service_def)
qed



text \<open>
  C37. A 422 from the second processor is not recognised: the test looks at the code of the first
  request again, so a payment that the second processor refuses as invalid is put back in the queue.
\<close>

theorem secondary_422_is_retried:
  assumes "cache_ok cache" and "env_time env w = (now, w0)" and "0 < now" and "now < 253402300800"
    and "sw_inv (sv_switch sv)" and "handles_ok (sv_switch sv) worker (curl_handles sv)"
    and "process_payment (traced env) worker (body @ [ch]) fb cache sv (w, l) =
      Inr ((res, ts, payload), cache', sv', w', l @ [first, second])"
    and "response_code (snd second) = 422"
  shows "res = TryAgain"
  using process_payment_traced [OF assms(1-6) refl, of body ch fb l] assms(7,8)
  by (cases res) (auto simp: attempt_ok_def accepted_def)

theorem secondary_422_is_retried_witness:
  "\<exists>ts payload cache' sv' w' first second.
     process_payment (traced (sample_env sample_codes)) 0 (sample_body @ [CHR ''}'']) False ts_cache_init
       sample_service ((), []) = Inr ((TryAgain, ts, payload), cache', sv', w', [first, second]) \<and>
     response_code (snd second) = 422"
proof -
  obtain res ts payload cache' sv' w' first second where
    p: "process_payment (traced (sample_env sample_codes)) 0 (sample_body @ [CHR ''}'']) False ts_cache_init
       sample_service ((), []) = Inr ((res, ts, payload), cache', sv', w', [] @ [first, second])"
    and c: "response_code (snd second) = 422"
    using sample_two_requests by (elim exE conjE) simp
  have h: "sw_inv (sv_switch sample_service)" "handles_ok (sv_switch sample_service) 0 (curl_handles sample_service)"
    using sample_service_ok by (simp_all add: service_ok_def sample_service_def)
  have "res = TryAgain"
    by (rule secondary_422_is_retried [OF cache_ok_init sample_env_time _ _ h p c]) simp_all
  with p c show ?thesis by (simp; blast)
qed

end
