(* ===== verification/Payment_System.thy ===== *)
theory Payment_System
  imports Processor
begin

text \<open>
  The service as a whole (src/src/main.cpp): the constructor of \<^verbatim>\<open>PaymentService\<close> with its
  configuration from the process environment, the worker threads (\<^verbatim>\<open>worker_loop\<close>), the detached
  thread that probes the secondary processor, and the interleaving of all of them.

  A thread is a program counter with the values its stack holds. \<open>thread_step\<close> runs it to the next
  point where another thread may have run: before a request, after a request, before the outcome is
  recorded. The step relation \<open>sys_step\<close> lets any thread, or a client that posts a payment, move
  next. A step that faults ends the process, since no thread catches an exception.
\<close>

section \<open>Construction\<close>

text \<open>\<^verbatim>\<open>getenv\<close> is the argument \<open>getenv\<close>; the strings it gives are C strings.\<close>

definition env_int :: "(string \<Rightarrow> string option) \<Rightarrow> string \<Rightarrow> int \<Rightarrow> int" where
  "env_int getenv name dflt = (case getenv name of None \<Rightarrow> dflt | Some s \<Rightarrow> atoi s)"

definition default_url :: string where
  "default_url = ''http://localhost:8001/payments''"

text \<open>The members of the choice after the constructor.\<close>

definition switching_init :: "(string \<Rightarrow> string option) \<Rightarrow> switching" where
  "switching_init getenv =
     (let def = (case getenv ''PROCESSOR_URL'' of None \<Rightarrow> default_url | Some s \<Rightarrow> s);
          fb = (case getenv ''FALLBACK_PROCESSOR_URL'' of None \<Rightarrow> def | Some s \<Rightarrow> s);
          enabled = (env_int getenv ''FALLBACK_ENABLED'' 1 \<noteq> 0)
      in \<lparr>default_processor = def, fallback_processor = fb, main_url = def, test_url = fb,
          default_time_ms = dzero, fallback_time_ms = dzero, fallback_down = \<not> enabled,
          default_down = False,
          fee_difference = (case getenv ''FEE_DIFFERENCE'' of None \<Rightarrow> int_to_double 3 | Some s \<Rightarrow> atof s),
          fallback_interval_ms = env_int getenv ''FALLBACK_POOL_INTERVAL_MS'' 1000,
          fallback_enabled = enabled, fallback_evaluated = True,
          primary_label = Default, secondary_label = Fallback\<rparr>)"

text \<open>
  The handles of the workers; \<open>init i p\<close> is what \<^verbatim>\<open>curl_easy_init\<close> returned for worker \<open>i\<close> and
  processor \<open>p\<close>.
\<close>

definition make_handles :: "(nat \<Rightarrow> processor_result \<Rightarrow> easy option) \<Rightarrow> switching \<Rightarrow> nat \<Rightarrow> handle_map" where
  "make_handles init sw n i =
     (if i < n then Some [Default \<mapsto> CurlHandle (init i Default) (default_processor sw),
                          Fallback \<mapsto> CurlHandle (init i Fallback) (fallback_processor sw)]
      else None)"

text \<open>
  The constructor. A negative worker count becomes a huge \<^verbatim>\<open>size_t\<close> in \<^verbatim>\<open>reserve\<close>, which throws
  \<^verbatim>\<open>std::length_error\<close>. \<open>base\<close> is \<^verbatim>\<open>time(nullptr)\<close>, \<open>now\<close> the clock at the end.
\<close>

definition PaymentService ::
  "(string \<Rightarrow> string option) \<Rightarrow> (nat \<Rightarrow> processor_result \<Rightarrow> easy option) \<Rightarrow> int \<Rightarrow> int \<Rightarrow> service result" where
  "PaymentService getenv init base now =
     (let workerCountInt = env_int getenv ''WORKER_COUNT'' 1;
          sw = switching_init getenv
      in if workerCountInt < 0 then Inl (RuntimeError ''vector::reserve'')
         else Inr \<lparr>sv_queues = replicate (nat workerCountInt) (worker_queue_new QUEUE_CAPACITY),
                   sv_processed = store_init base, sv_switch = sw,
                   curl_handles = make_handles init sw (nat workerCountInt),
                   sv_running = True, last_fallback = 0, sv_started = now,
                   fallback_is_running = False,
                   inter_interval = env_int getenv ''INTER_INTERVAL'' 0,
                   empty_interval = env_int getenv ''EMPTY_INTERVAL'' 100\<rparr>)"

section \<open>Threads\<close>

datatype pc =
    Enter
  | Loop
  | Start bool raw_payment
  | Send1 bool raw_payment string u64 processor_result processor_result
  | Reply1 bool raw_payment string u64 processor_result processor_result bool double int
  | Send2 bool raw_payment string u64 processor_result int
  | Reply2 bool raw_payment string u64 processor_result int bool double int
  | Finish bool raw_payment "processor_result \<times> u64 \<times> string"
  | Ended

text \<open>
  \<open>Enter\<close> is the first statement of \<^verbatim>\<open>worker_loop\<close>; the others are the stages of \<^verbatim>\<open>process\<close> and \<^verbatim>\<open>process_payment\<close>. A worker goes back to its loop at the end, the
  detached thread is over.
\<close>

fun thread_step ::
  "'w env \<Rightarrow> nat \<Rightarrow> pc \<Rightarrow> ts_cache \<Rightarrow> service \<Rightarrow> 'w \<Rightarrow> (pc \<times> ts_cache \<times> service \<times> 'w) result" where
  "thread_step env i Enter cache sv w =
     (let (now, w) = env_now env w in Inr (Loop, cache, sv\<lparr>last_fallback := now\<rparr>, w))"
| "thread_step env i (Start fb r) cache sv w =
     rbind (raw_text r) (\<lambda>json.
       let (now, w) = env_time env w in
       rbind (create_processor_payload now cache json) (\<lambda>(cache, payload, ts).
         let sw = sv_switch sv in
         Inr (Send1 fb r payload ts
                (if fb then secondary_label sw else primary_label sw)
                (if fb then primary_label sw else secondary_label sw), cache, sv, w)))"
| "thread_step env i (Send1 fb r payload ts p1 p2) cache sv w =
     rbind (send_to_processor env i p1 payload (curl_handles sv) w)
       (\<lambda>((ok, elapsed, code), hs, w).
         Inr (Reply1 fb r payload ts p1 p2 ok elapsed code, cache, sv\<lparr>curl_handles := hs\<rparr>, w))"
| "thread_step env i (Reply1 fb r payload ts p1 p2 ok elapsed code) cache sv w =
     (let sv = (if fb then sv\<lparr>sv_switch := (sv_switch sv)\<lparr>fallback_evaluated := False\<rparr>\<rparr> else sv);
          (sv, w) = respond_io env p1 elapsed code sv w
      in Inr (if ok then Finish fb r (p1, ts, payload)
              else if code = 422 then Finish fb r (Discard, ts, payload)
              else if \<not> fallback_enabled (sv_switch sv) then Finish fb r (TryAgain, ts, payload)
              else Send2 fb r payload ts p2 code, cache, sv, w))"
| "thread_step env i (Send2 fb r payload ts p2 code) cache sv w =
     rbind (send_to_processor env i p2 payload (curl_handles sv) w)
       (\<lambda>((ok, elapsed2, code2), hs, w).
         Inr (Reply2 fb r payload ts p2 code ok elapsed2 code2, cache, sv\<lparr>curl_handles := hs\<rparr>, w))"
| "thread_step env i (Reply2 fb r payload ts p2 code ok elapsed2 code2) cache sv w =
     (let (sv, w) = respond_io env p2 elapsed2 code2 sv w
      in Inr (Finish fb r (if ok then p2 else if code = 422 then Discard else TryAgain, ts, payload),
              cache, sv, w))"
| "thread_step env i (Finish fb r out) cache sv w =
     rbind (dispose i r out sv) (\<lambda>sv.
       let (sv, w) = (if fb
                      then (let (now, w) = env_now env w
                            in (sv\<lparr>fallback_is_running := False, last_fallback := now\<rparr>, w))
                      else (sv, w));
           w = (if 0 < inter_interval sv \<and> \<not> fb
                then env_sleep env (inter_interval sv * 1000) w else w)
       in Inr (if fb then Ended else Loop, cache, sv, w))"
| "thread_step env i Loop cache sv w = Inr (Loop, cache, sv, w)"
| "thread_step env i Ended cache sv w = Inr (Ended, cache, sv, w)"

text \<open>\<^verbatim>\<open>int elapsed = duration_cast<milliseconds>(now - last_fallback).count()\<close>: narrowed to 32 bits.\<close>

definition elapsed_int :: "int \<Rightarrow> int \<Rightarrow> int" where
  "elapsed_int now before = sint (word_of_int ((now - before) sdiv 1000000) :: 32 word)"

text \<open>
  One turn of \<^verbatim>\<open>worker_loop\<close>: the next program counter of the worker, and the payment handed to a
  new detached thread, if one is started.
\<close>

definition worker_turn ::
  "'w env \<Rightarrow> nat \<Rightarrow> service \<Rightarrow> 'w \<Rightarrow> (pc \<times> raw_payment option \<times> service \<times> 'w) result" where
  "worker_turn env worker_id sv w =
     (if \<not> sv_running sv then Inr (Ended, None, sv, w)
      else rbind (fetch_next (sv_running sv) (sv_queues sv) worker_id) (\<lambda>(qs, has).
        let sv = sv\<lparr>sv_queues := qs\<rparr> in
        case has of
          None \<Rightarrow> Inr (Loop, None, sv, env_sleep env (empty_interval sv * 1000000) w)
        | Some r \<Rightarrow>
            if fallback_enabled (sv_switch sv) then
              (let (now, w) = env_now env w;
                   elapsed = elapsed_int now (last_fallback sv)
               in if \<not> fallback_is_running sv \<and> elapsed \<ge> fallback_interval_ms (sv_switch sv)
                  then Inr (Loop, Some r, sv\<lparr>fallback_is_running := True\<rparr>, w)
                  else Inr (Start False r, None, sv, w))
            else Inr (Start False r, None, sv, w)))"

section \<open>The system\<close>

text \<open>
  Workers by index, detached threads with the index of the worker that started them, the service,
  the world, and the fault that ended the process.
\<close>

record 'w system =
  sys_workers :: "(pc \<times> ts_cache) list"
  sys_helpers :: "(nat \<times> pc \<times> ts_cache) list"
  sys_service :: service
  sys_world :: 'w
  sys_fault :: "fault option"

text \<open>What a step does to payments: a client's payment came in, or an outcome was recorded.\<close>

datatype event = Tau | Posted nat raw_payment | Disposed processor_result

fun pc_event :: "pc \<Rightarrow> event" where
  "pc_event (Finish fb r (res, ts, payload)) = Disposed res"
| "pc_event _ = Tau"

inductive sys_step :: "'w env \<Rightarrow> 'w system \<Rightarrow> event \<Rightarrow> 'w system \<Rightarrow> bool" for env where
  post: "sys_fault s = None \<Longrightarrow> i < length (sys_workers s) \<Longrightarrow>
    enqueue (sv_queues (sys_service s)) i r = Inr qs \<Longrightarrow>
    sys_step env s (Posted i r) (s\<lparr>sys_service := (sys_service s)\<lparr>sv_queues := qs\<rparr>\<rparr>)"
| turn: "sys_fault s = None \<Longrightarrow> i < length (sys_workers s) \<Longrightarrow> sys_workers s ! i = (Loop, cache) \<Longrightarrow>
    worker_turn env i (sys_service s) (sys_world s) = Inr (pc', job, sv', w') \<Longrightarrow>
    sys_step env s Tau
      (s\<lparr>sys_workers := (sys_workers s)[i := (pc', cache)],
         sys_helpers := sys_helpers s @
           (case job of None \<Rightarrow> [] | Some r \<Rightarrow> [(i, Start True r, ts_cache_init)]),
         sys_service := sv', sys_world := w'\<rparr>)"
| work: "sys_fault s = None \<Longrightarrow> i < length (sys_workers s) \<Longrightarrow> sys_workers s ! i = (p, cache) \<Longrightarrow>
    p \<noteq> Loop \<Longrightarrow> p \<noteq> Ended \<Longrightarrow>
    thread_step env i p cache (sys_service s) (sys_world s) = Inr (p', cache', sv', w') \<Longrightarrow>
    sys_step env s (pc_event p)
      (s\<lparr>sys_workers := (sys_workers s)[i := (p', cache')], sys_service := sv', sys_world := w'\<rparr>)"
| helper: "sys_fault s = None \<Longrightarrow> k < length (sys_helpers s) \<Longrightarrow> sys_helpers s ! k = (i, p, cache) \<Longrightarrow>
    p \<noteq> Loop \<Longrightarrow> p \<noteq> Ended \<Longrightarrow>
    thread_step env i p cache (sys_service s) (sys_world s) = Inr (p', cache', sv', w') \<Longrightarrow>
    sys_step env s (pc_event p)
      (s\<lparr>sys_helpers := (sys_helpers s)[k := (i, p', cache')], sys_service := sv', sys_world := w'\<rparr>)"
| crash_post: "sys_fault s = None \<Longrightarrow> i < length (sys_workers s) \<Longrightarrow>
    enqueue (sv_queues (sys_service s)) i r = Inl f \<Longrightarrow> sys_step env s Tau (s\<lparr>sys_fault := Some f\<rparr>)"
| crash_turn: "sys_fault s = None \<Longrightarrow> i < length (sys_workers s) \<Longrightarrow> sys_workers s ! i = (Loop, cache) \<Longrightarrow>
    worker_turn env i (sys_service s) (sys_world s) = Inl f \<Longrightarrow>
    sys_step env s Tau (s\<lparr>sys_fault := Some f\<rparr>)"
| crash_work: "sys_fault s = None \<Longrightarrow> i < length (sys_workers s) \<Longrightarrow> sys_workers s ! i = (p, cache) \<Longrightarrow>
    thread_step env i p cache (sys_service s) (sys_world s) = Inl f \<Longrightarrow>
    sys_step env s Tau (s\<lparr>sys_fault := Some f\<rparr>)"
| crash_help: "sys_fault s = None \<Longrightarrow> k < length (sys_helpers s) \<Longrightarrow> sys_helpers s ! k = (i, p, cache) \<Longrightarrow>
    thread_step env i p cache (sys_service s) (sys_world s) = Inl f \<Longrightarrow>
    sys_step env s Tau (s\<lparr>sys_fault := Some f\<rparr>)"

inductive_cases sys_step_elim: "sys_step env s e s'"

section \<open>Runs\<close>

text \<open>A run, with its events; every state it goes through satisfies \<open>P\<close>.\<close>

inductive run :: "('s \<Rightarrow> 'e \<Rightarrow> 's \<Rightarrow> bool) \<Rightarrow> ('s \<Rightarrow> bool) \<Rightarrow> 's \<Rightarrow> 'e list \<Rightarrow> 's \<Rightarrow> bool" for step P where
  run_refl: "P s \<Longrightarrow> run step P s [] s"
| run_step: "run step P s es s' \<Longrightarrow> step s' e s'' \<Longrightarrow> P s'' \<Longrightarrow> run step P s (es @ [e]) s''"

lemma run_last: "run step P s es s' \<Longrightarrow> P s'"
  by (erule run.cases) simp_all

text \<open>
  Bookkeeping over a run: every step changes the balance of the state by what its event brings in
  and takes out, as long as the state before is in order.
\<close>

locale ledger =
  fixes step :: "'s \<Rightarrow> 'e \<Rightarrow> 's \<Rightarrow> bool" and calm :: "'s \<Rightarrow> bool" and ok :: "'s \<Rightarrow> bool"
    and balance :: "'s \<Rightarrow> u64" and brings :: "'e \<Rightarrow> u64" and takes :: "'e \<Rightarrow> u64"
  assumes step_ok: "ok s \<Longrightarrow> calm s \<Longrightarrow> step s e s' \<Longrightarrow> ok s'"
    and step_balance: "ok s \<Longrightarrow> calm s \<Longrightarrow> step s e s' \<Longrightarrow> balance s' + takes e = balance s + brings e"
begin

lemma run_balance:
  assumes "run step calm s es s'" and "ok s"
  shows "ok s' \<and> balance s' + sum_list (map takes es) = balance s + sum_list (map brings es)"
  using assms
proof (induction rule: run.induct)
  case (run_step s es s' e s'')
  then have o: "ok s'" and eq: "balance s' + sum_list (map takes es) = balance s + sum_list (map brings es)"
    by blast+
  have c: "calm s'" using run_step.hyps(1) by (rule run_last)
  have "balance s'' + takes e = balance s' + brings e"
    using step_balance [OF o c run_step.hyps(2)] .
  then have "balance s'' + (sum_list (map takes es) + takes e) =
      balance s + (sum_list (map brings es) + brings e)"
    using eq by (metis (no_types, lifting) add.assoc add.commute)
  then show ?case
    using step_ok [OF o c run_step.hyps(2)] by simp
qed simp

end

section \<open>The stages run to the end are the operation of the code\<close>

fun run_thread ::
  "'w env \<Rightarrow> nat \<Rightarrow> nat \<Rightarrow> pc \<Rightarrow> ts_cache \<Rightarrow> service \<Rightarrow> 'w \<Rightarrow> (pc \<times> ts_cache \<times> service \<times> 'w) result" where
  "run_thread env i 0 p cache sv w = Inr (p, cache, sv, w)"
| "run_thread env i (Suc n) p cache sv w =
     rbind (thread_step env i p cache sv w) (\<lambda>(p, cache, sv, w). run_thread env i n p cache sv w)"

lemma run_thread_stop:
  "run_thread env i n Loop cache sv w = Inr (Loop, cache, sv, w)"
  "run_thread env i n Ended cache sv w = Inr (Ended, cache, sv, w)"
  by (induction n) simp_all

lemma run_thread_finish:
  "run_thread env i (Suc n) (Finish fb r out) cache sv w =
     rbind (dispose i r out sv) (\<lambda>sv.
       let (sv, w) = (if fb
                      then (let (now, w) = env_now env w
                            in (sv\<lparr>fallback_is_running := False, last_fallback := now\<rparr>, w))
                      else (sv, w));
           w = (if 0 < inter_interval sv \<and> \<not> fb
                then env_sleep env (inter_interval sv * 1000) w else w)
       in Inr (if fb then Ended else Loop, cache, sv, w))"
  by (cases fb) (auto simp: Let_def split_def run_thread_stop rbind_assoc intro!: arg_cong [where f = "rbind _"])

declare run_thread.simps(2) [simp del]

lemmas run_stage = run_thread.simps(2) [where p = "Start fb r" for fb r]
  run_thread.simps(2) [where p = "Send1 fb r payload ts p1 p2" for fb r payload ts p1 p2]
  run_thread.simps(2) [where p = "Reply1 fb r payload ts p1 p2 ok e c" for fb r payload ts p1 p2 ok e c]
  run_thread.simps(2) [where p = "Send2 fb r payload ts p2 c" for fb r payload ts p2 c]
  run_thread.simps(2) [where p = "Reply2 fb r payload ts p2 c ok e c2" for fb r payload ts p2 c ok e c2]

text \<open>What \<^verbatim>\<open>process\<close> does once the outcome is known.\<close>

lemma process_eq_finish:
  "rbind (process env i r fb cache sv w) (\<lambda>(cache, sv, w). Inr (if fb then Ended else Loop, cache, sv, w)) =
   rbind (raw_text r) (\<lambda>json.
   rbind (process_payment env i json fb cache sv w) (\<lambda>(out, cache, sv, w).
     run_thread env i (Suc n) (Finish fb r out) cache sv w))"
proof (cases "raw_text r")
  case (Inr json)
  note raw = Inr
  show ?thesis
  proof (cases "process_payment env i json fb cache sv w")
    case (Inr x)
    obtain out cache' sv' w' where x: "x = (out, cache', sv', w')" by (cases x)
    show ?thesis
      unfolding process_def run_thread_finish raw Inr x rbind_Inr prod.case
      by (cases "dispose i r out sv'"; cases fb) (simp_all add: Let_def split_def)
  qed (simp add: process_def raw)
qed (simp add: process_def)

lemma run_thread_process:
  "run_thread env i 6 (Start fb r) cache sv w =
     rbind (process env i r fb cache sv w) (\<lambda>(cache, sv, w). Inr (if fb then Ended else Loop, cache, sv, w))"
proof (cases "raw_text r")
  case (Inl e)
  then show ?thesis by (simp add: eval_nat_numeral run_stage process_def)
next
  case (Inr json)
  let ?sw = "sv_switch sv"
  let ?p = "if fb then secondary_label ?sw else primary_label ?sw"
  let ?s = "if fb then primary_label ?sw else secondary_label ?sw"
  obtain now w0 where t: "env_time env w = (now, w0)" by (cases "env_time env w")
  note fin = process_eq_finish [of env i r fb cache sv w]
  show ?thesis
  proof (cases "create_processor_payload now cache json")
    case (Inl e)
    then show ?thesis
      by (simp add: fin [of 0] \<open>raw_text r = Inr json\<close> eval_nat_numeral run_stage t process_payment_def)
  next
    case (Inr x)
    then obtain cache' payload ts where c: "create_processor_payload now cache json = Inr (cache', payload, ts)"
      by (cases x) auto
    show ?thesis
    proof (cases "send_to_processor env i ?p payload (curl_handles sv) w0")
      case (Inl e)
      then show ?thesis
        by (simp add: fin [of 0] \<open>raw_text r = Inr json\<close> eval_nat_numeral run_stage t c process_payment_def
            Let_def del: split_paired_All)
    next
      case (Inr y)
      then obtain ok e code hs w1 where
        s: "send_to_processor env i ?p payload (curl_handles sv) w0 = Inr ((ok, e, code), hs, w1)"
        by (cases y) auto
      let ?sv1 = "if fb then sv\<lparr>curl_handles := hs, sv_switch := ?sw\<lparr>fallback_evaluated := False\<rparr>\<rparr>
        else sv\<lparr>curl_handles := hs\<rparr>"
      obtain sv2 w2 where r: "respond_io env ?p e code ?sv1 w1 = (sv2, w2)"
        by (cases "respond_io env ?p e code ?sv1 w1")
      have pp: "process_payment env i json fb cache sv w =
         (if ok then Inr ((?p, ts, payload), cache', sv2, w2)
          else if code = 422 then Inr ((Discard, ts, payload), cache', sv2, w2)
          else if \<not> fallback_enabled (sv_switch sv2) then Inr ((TryAgain, ts, payload), cache', sv2, w2)
          else rbind (try_secondary env i ?s payload ts code sv2 w2)
                 (\<lambda>(out, sv, w). Inr (out, cache', sv, w)))"
        unfolding process_payment_def Let_def t prod.case c rbind_Inr s using r by (cases fb) simp_all
      have st: "run_thread env i 6 (Start fb r) cache sv w = run_thread env i 3
          (if ok then Finish fb r (?p, ts, payload)
           else if code = 422 then Finish fb r (Discard, ts, payload)
           else if \<not> fallback_enabled (sv_switch sv2) then Finish fb r (TryAgain, ts, payload)
           else Send2 fb r payload ts ?s code) cache' sv2 w2"
        using r s by (cases fb) (simp_all add: eval_nat_numeral run_stage \<open>raw_text r = Inr json\<close> t c Let_def)
      show ?thesis
      proof (cases "ok \<or> code = 422 \<or> \<not> fallback_enabled (sv_switch sv2)")
        case True
        then show ?thesis
          unfolding st fin [of "Suc (Suc 0)"] numeral_3_eq_3 \<open>raw_text r = Inr json\<close> rbind_Inr pp
          by auto
      next
        case False
        show ?thesis
        proof (cases "send_to_processor env i ?s payload (curl_handles sv2) w2")
          case (Inl e)
          with False show ?thesis
            unfolding st fin [of 0] numeral_3_eq_3 \<open>raw_text r = Inr json\<close> rbind_Inr pp
            by (simp add: run_stage try_secondary_def)
        next
          case (Inr z)
          then obtain ok2 e2 code2 hs2 w3 where
            s2: "send_to_processor env i ?s payload (curl_handles sv2) w2 = Inr ((ok2, e2, code2), hs2, w3)"
            by (cases z) auto
          obtain sv3 w4 where "respond_io env ?s e2 code2 (sv2\<lparr>curl_handles := hs2\<rparr>) w3 = (sv3, w4)"
            by (cases "respond_io env ?s e2 code2 (sv2\<lparr>curl_handles := hs2\<rparr>) w3")
          with False s2 show ?thesis
            unfolding st fin [of 0] numeral_3_eq_3 \<open>raw_text r = Inr json\<close> rbind_Inr pp
            by (simp add: run_stage try_secondary_def)
        qed
      qed
    qed
  qed
qed

section \<open>Conservation of payments\<close>

text \<open>Payments held by a thread, waiting in the queues, and counted in the record.\<close>

fun carries :: "pc \<Rightarrow> nat" where
  "carries Enter = 0"
| "carries Loop = 0"
| "carries Ended = 0"
| "carries _ = 1"

definition in_flight :: "'w system \<Rightarrow> nat" where
  "in_flight s = sum_list (map (\<lambda>(p, c). carries p) (sys_workers s)) +
     sum_list (map (\<lambda>(i, p, c). carries p) (sys_helpers s))"

definition waiting :: "service \<Rightarrow> nat" where
  "waiting sv = sum_list (map (\<lambda>q. length (wq_contents q)) (sv_queues sv))"

definition account :: "'w system \<Rightarrow> u64" where
  "account s = stored_total (sys_service s) + of_nat (waiting (sys_service s) + in_flight s)"

fun event_in :: "event \<Rightarrow> u64" where
  "event_in (Posted i r) = 1"
| "event_in _ = 0"

fun event_out :: "event \<Rightarrow> u64" where
  "event_out (Disposed Discard) = 1"
| "event_out _ = 0"

definition queues_ok :: "service \<Rightarrow> bool" where
  "queues_ok sv \<longleftrightarrow> (\<forall>q\<in>set (sv_queues sv). wq_wf q)"

definition system_ok :: "'w system \<Rightarrow> bool" where
  "system_ok s \<longleftrightarrow> queues_ok (sys_service s) \<and>
     length (sys_workers s) = length (sv_queues (sys_service s)) \<and>
     (\<forall>h\<in>set (sys_helpers s). fst h < length (sv_queues (sys_service s)))"

text \<open>Every queue has room for one more payment.\<close>

definition roomy :: "'w system \<Rightarrow> bool" where
  "roomy s \<longleftrightarrow> (\<forall>q\<in>set (sv_queues (sys_service s)). 0 < wq_room q)"

lemma sum_list_update_add:
  "i < length xs \<Longrightarrow> sum_list (xs[i := y]) + xs ! i = sum_list xs + (y :: nat)"
  using sum_list_update [of i xs y] elem_le_sum_list [of i xs] by simp

lemma enqueue_waiting:
  assumes "enqueue qs i r = Inr qs'" and "\<forall>q\<in>set qs. wq_wf q \<and> 0 < wq_room q"
  shows "(\<forall>q\<in>set qs'. wq_wf q) \<and> length qs' = length qs \<and>
    sum_list (map (\<lambda>q. length (wq_contents q)) qs') = sum_list (map (\<lambda>q. length (wq_contents q)) qs) + 1"
proof -
  have i: "i < length qs"
    using assms(1) by (auto simp: enqueue_def vec_get_def split: if_splits)
  then obtain q' where q: "wq_push (qs ! i) r = Inr q'" "wq_wf q'"
      "wq_contents q' = wq_contents (qs ! i) @ [r]"
    using wq_push_contents [of "qs ! i" r] assms(2) by auto
  then have qs': "qs' = qs[i := q']" using assms(1) i by (simp add: enqueue_eq)
  have "sum_list ((map (\<lambda>q. length (wq_contents q)) qs)[i := length (wq_contents q')]) +
      length (wq_contents (qs ! i)) = sum_list (map (\<lambda>q. length (wq_contents q)) qs) + length (wq_contents q')"
    using sum_list_update_add [of i "map (\<lambda>q. length (wq_contents q)) qs"] i by simp
  then show ?thesis
    using qs' q assms(2) set_update_subset_insert [of qs i q']
    by (auto simp: map_update simp del: length_wq_contents)
qed

lemma fetch_waiting:
  assumes f: "fetch_next live qs i = Inr (qs', job)" and wf: "\<forall>q\<in>set qs. wq_wf q"
  shows "(\<forall>q\<in>set qs'. wq_wf q) \<and> length qs' = length qs \<and>
    sum_list (map (\<lambda>q. length (wq_contents q)) qs') + (if job = None then 0 else 1) =
      sum_list (map (\<lambda>q. length (wq_contents q)) qs)"
proof -
  let ?n = "\<lambda>q. length (wq_contents q)"
  have i: "i < length qs"
    using f by (auto simp: fetch_next_def vec_get_def split: if_splits)
  then have q: "wq_wf (qs ! i)" using wf by simp
  show ?thesis
  proof (cases "live \<and> wq_contents (qs ! i) \<noteq> []")
    case False
    then have "wq_pop live (qs ! i) = Inr (qs ! i, None)"
      using wq_pop_empty [OF q, of live]
      by (cases "wq_contents (qs ! i) = []") (simp_all add: wq_pop_def [of False])
    then show ?thesis using f i wf by (auto simp: fetch_next_eq)
  next
    case True
    then obtain x xs where "wq_contents (qs ! i) = x # xs" by (cases "wq_contents (qs ! i)") auto
    then obtain q' where q': "wq_pop live (qs ! i) = Inr (q', Some x)" "wq_wf q'"
        "?n (qs ! i) = ?n q' + 1"
      using wq_pop_first [OF q] True by fastforce
    then have qs': "qs' = qs[i := q']" "job = Some x" using f i by (auto simp: fetch_next_eq)
    have "sum_list ((map ?n qs)[i := ?n q']) + ?n (qs ! i) = sum_list (map ?n qs) + ?n q'"
      using sum_list_update_add [of i "map ?n qs"] i by simp
    then show ?thesis
      using qs' q' wf set_update_subset_insert [of qs i q']
      by (auto simp: map_update simp del: length_wq_contents)
  qed
qed

lemma thread_step_keeps:
  assumes "thread_step env i p cache sv w = Inr (p', cache', sv', w')" and "\<forall>fb r out. p \<noteq> Finish fb r out"
  shows "sv_queues sv' = sv_queues sv \<and> sv_processed sv' = sv_processed sv \<and> carries p' = carries p"
  using assms
  by (cases p) (auto simp: rbind_Inr_iff respond_io_def Let_def split_def split: if_splits)

lemma thread_step_finish:
  assumes st: "thread_step env i (Finish fb r out) cache sv w = Inr (p', cache', sv', w')"
    and ok: "queues_ok sv" and room: "\<forall>q\<in>set (sv_queues sv). 0 < wq_room q"
  shows "queues_ok sv' \<and> length (sv_queues sv') = length (sv_queues sv) \<and> carries p' = 0 \<and>
    stored_total sv' + of_nat (waiting sv') + (if fst out = Discard then 1 else 0) =
      stored_total sv + of_nat (waiting sv) + 1"
proof -
  obtain sv1 where d: "dispose i r out sv = Inr sv1" and k: "sv_queues sv' = sv_queues sv1"
      "sv_processed sv' = sv_processed sv1" "carries p' = 0"
    using st by (auto simp: rbind_Inr_iff Let_def split_def split: if_splits)
  obtain res ts payload where out: "out = (res, ts, payload)" by (cases out)
  have kk: "queues_ok sv' = queues_ok sv1" "stored_total sv' = stored_total sv1" "waiting sv' = waiting sv1"
    using k by (simp_all add: queues_ok_def stored_total_def waiting_def)
  show ?thesis
  proof (cases "res = TryAgain \<or> res = Discard")
    case True
    then show ?thesis
      using d ok room k enqueue_waiting [of "sv_queues sv" i r]
      by (auto simp: out kk dispose_def rbind_Inr_iff queues_ok_def waiting_def stored_total_def)
  next
    case False
    then obtain st where s: "store_processed (fallback_enabled (sv_switch sv)) (sv_processed sv) payload res ts = Inr st"
      and "sv1 = sv\<lparr>sv_processed := st\<rparr>"
      using d by (auto simp: out dispose_def rbind_Inr_iff)
    then show ?thesis
      using stored_store_processed [OF s] ok k False
      by (auto simp: out kk queues_ok_def waiting_def stored_total_def add.assoc)
  qed
qed

lemma worker_turn_account:
  assumes "worker_turn env i sv w = Inr (p', job, sv', w')" and "queues_ok sv"
  shows "queues_ok sv' \<and> length (sv_queues sv') = length (sv_queues sv) \<and>
    stored_total sv' = stored_total sv \<and>
    waiting sv' + carries p' + (case job of None \<Rightarrow> 0 | Some _ \<Rightarrow> 1) = waiting sv"
  using assms fetch_waiting [of True "sv_queues sv" i]
  by (auto simp: worker_turn_def rbind_Inr_iff Let_def split_def queues_ok_def waiting_def
      stored_total_def simp del: length_wq_contents split: if_splits option.splits)

lemma in_flight_worker:
  assumes "i < length (sys_workers s)" and "sys_workers s ! i = (p, c)"
  shows "in_flight (s\<lparr>sys_workers := (sys_workers s)[i := (p', c')], sys_service := sv', sys_world := w'\<rparr>) +
    carries p = in_flight s + carries p'"
  using sum_list_update_add [of i "map (\<lambda>(p, c). carries p) (sys_workers s)" "carries p'"] assms
  by (simp add: in_flight_def map_update)

lemma in_flight_helper:
  assumes "k < length (sys_helpers s)" and "sys_helpers s ! k = (i, p, c)"
  shows "in_flight (s\<lparr>sys_helpers := (sys_helpers s)[k := (i, p', c')], sys_service := sv', sys_world := w'\<rparr>) +
    carries p = in_flight s + carries p'"
  using sum_list_update_add [of k "map (\<lambda>(i, p, c). carries p) (sys_helpers s)" "carries p'"] assms
  by (simp add: in_flight_def map_update)

text \<open>A step of a thread, as it changes the service and its own share.\<close>

lemma thread_step_account:
  assumes st: "thread_step env i p cache sv w = Inr (p', cache', sv', w')" and ok: "queues_ok sv"
    and room: "\<forall>q\<in>set (sv_queues sv). 0 < wq_room q"
  shows "queues_ok sv' \<and> length (sv_queues sv') = length (sv_queues sv) \<and>
    stored_total sv' + of_nat (waiting sv' + carries p') + event_out (pc_event p) =
      stored_total sv + of_nat (waiting sv + carries p)"
proof (cases "\<exists>fb r out. p = Finish fb r out")
  case True
  then obtain fb r res ts payload where p: "p = Finish fb r (res, ts, payload)" by auto
  have "event_out (Disposed res) = (if res = Discard then 1 else 0)" by (cases res) simp_all
  then show ?thesis
    using thread_step_finish [OF st [unfolded p] ok room] by (simp add: p)
next
  case False
  moreover from this have "pc_event p = Tau" by (cases p) auto
  ultimately show ?thesis
    using thread_step_keeps [OF st] ok by (auto simp: queues_ok_def stored_total_def waiting_def)
qed

lemma balance_shift:
  assumes "f' + c = f + (c' :: nat)" and "a' + of_nat (n' + c') + out = a + (of_nat (n + c) :: u64)"
  shows "a' + of_nat (n' + f') + out = a + of_nat (n + f)"
proof -
  have "(of_nat f' :: u64) + of_nat c = of_nat f + of_nat c'"
    using assms(1) by (metis of_nat_add)
  then have f': "(of_nat f' :: u64) = of_nat f + of_nat c' - of_nat c"
    by (simp add: eq_diff_eq)
  have n': "a' + of_nat n' + out = a + of_nat n + of_nat c - of_nat c'"
    using assms(2) by (simp add: eq_diff_eq add_ac)
  have "a' + of_nat (n' + f') + out = (a' + of_nat n' + out) + of_nat f'"
    by (simp add: add_ac)
  then show ?thesis
    unfolding n' by (simp add: f' algebra_simps)
qed

lemma pc_event_in: "event_in (pc_event p) = 0"
proof (cases p)
  case (Finish fb r out)
  then show ?thesis by (cases out) simp
qed simp_all

lemma sys_step_ok:
  assumes ok: "system_ok s" and room: "roomy s" and st: "sys_step env s e s'"
  shows "system_ok s'"
  using st
proof cases
  case (post i r qs)
  then show ?thesis
    using ok room enqueue_waiting [of _ i r qs] by (auto simp: system_ok_def queues_ok_def roomy_def)
next
  case (turn i cache pc' job sv' w')
  then show ?thesis
    using ok worker_turn_account [of env i "sys_service s" "sys_world s" pc' job sv' w']
    by (auto simp: system_ok_def split: option.splits)
next
  case (work i p cache p' cache' sv' w')
  then show ?thesis
    using ok room thread_step_account [of env i p cache "sys_service s" "sys_world s" p' cache' sv' w']
    by (auto simp: system_ok_def roomy_def)
next
  case (helper k i p cache p' cache' sv' w')
  then have "\<forall>h\<in>set ((sys_helpers s)[k := (i, p', cache')]). fst h < length (sv_queues (sys_service s))"
    using ok set_update_subset_insert [of "sys_helpers s" k "(i, p', cache')"] nth_mem [of k "sys_helpers s"]
    by (fastforce simp: system_ok_def)
  with helper show ?thesis
    using ok room thread_step_account [of env i p cache "sys_service s" "sys_world s" p' cache' sv' w']
    by (auto simp: system_ok_def roomy_def)
qed (use ok in \<open>auto simp: system_ok_def\<close>)

lemma sys_step_account:
  assumes ok: "system_ok s" and room: "roomy s" and st: "sys_step env s e s'"
  shows "account s' + event_out e = account s + event_in e"
  using st
proof cases
  case (post i r qs)
  then have "in_flight s' = in_flight s" "waiting (sys_service s') = waiting (sys_service s) + 1"
      "stored_total (sys_service s') = stored_total (sys_service s)"
    using ok room enqueue_waiting [of "sv_queues (sys_service s)" i r qs]
    by (auto simp: system_ok_def queues_ok_def roomy_def in_flight_def waiting_def stored_total_def
        simp del: length_wq_contents)
  with post show ?thesis by (simp add: account_def)
next
  case (turn i cache pc' job sv' w')
  then have "in_flight s' = in_flight s + carries pc' + (case job of None \<Rightarrow> 0 | Some _ \<Rightarrow> 1)"
    using in_flight_worker [of i s Loop cache w' sv' pc' cache]
    by (auto simp: in_flight_def split: option.splits)
  with turn have "waiting (sys_service s') + in_flight s' = waiting (sys_service s) + in_flight s"
      "stored_total (sys_service s') = stored_total (sys_service s)"
    using ok worker_turn_account [of env i "sys_service s" "sys_world s" pc' job sv' w']
    by (auto simp: system_ok_def)
  with turn(1) show ?thesis by (simp only: account_def event_in.simps event_out.simps)
next
  case (work i p cache p' cache' sv' w')
  have "in_flight s' + carries p = in_flight s + carries p'"
    using work in_flight_worker [of i s p cache w' sv' p' cache'] by simp
  moreover have "stored_total (sys_service s') + of_nat (waiting (sys_service s') + carries p') + event_out e =
      stored_total (sys_service s) + of_nat (waiting (sys_service s) + carries p)"
    using work ok room thread_step_account [of env i p cache "sys_service s" "sys_world s" p' cache' sv' w']
    by (simp add: system_ok_def roomy_def)
  ultimately have "account s' + event_out e = account s"
    unfolding account_def by (rule balance_shift)
  then show ?thesis using work pc_event_in [of p] by simp
next
  case (helper k i p cache p' cache' sv' w')
  have "in_flight s' + carries p = in_flight s + carries p'"
    using helper in_flight_helper [of k s i p cache w' sv' p' cache'] by simp
  moreover have "stored_total (sys_service s') + of_nat (waiting (sys_service s') + carries p') + event_out e =
      stored_total (sys_service s) + of_nat (waiting (sys_service s) + carries p)"
    using helper ok room thread_step_account [of env i p cache "sys_service s" "sys_world s" p' cache' sv' w']
    by (simp add: system_ok_def roomy_def)
  ultimately have "account s' + event_out e = account s"
    unfolding account_def by (rule balance_shift)
  then show ?thesis using helper pc_event_in [of p] by simp
qed (auto simp: account_def in_flight_def)

interpretation payments: ledger "sys_step env" roomy system_ok account event_in event_out for env
  by unfold_locales (auto intro: sys_step_ok sys_step_account)

section \<open>Runs given by a schedule\<close>

text \<open>
  The step relation as a function of who moves next: \<open>None\<close> when that move is not possible or
  faults. A schedule that can be executed is a run.
\<close>

datatype move = PostMove nat raw_payment | WorkerMove nat | HelperMove nat

fun exec_move :: "'w env \<Rightarrow> move \<Rightarrow> 'w system \<Rightarrow> (event \<times> 'w system) option" where
  "exec_move env (PostMove i r) s =
     (if i < length (sys_workers s) \<and> sys_fault s = None
      then (case enqueue (sv_queues (sys_service s)) i r of
              Inl f \<Rightarrow> None
            | Inr qs \<Rightarrow> Some (Posted i r, s\<lparr>sys_service := (sys_service s)\<lparr>sv_queues := qs\<rparr>\<rparr>))
      else None)"
| "exec_move env (WorkerMove i) s =
     (if i < length (sys_workers s) \<and> sys_fault s = None then
        (case sys_workers s ! i of (p, cache) \<Rightarrow>
           if p = Ended then None
           else if p = Loop then
             (case worker_turn env i (sys_service s) (sys_world s) of
                Inl f \<Rightarrow> None
              | Inr (pc', job, sv', w') \<Rightarrow>
                  Some (Tau, s\<lparr>sys_workers := (sys_workers s)[i := (pc', cache)],
                    sys_helpers := sys_helpers s @
                      (case job of None \<Rightarrow> [] | Some r \<Rightarrow> [(i, Start True r, ts_cache_init)]),
                    sys_service := sv', sys_world := w'\<rparr>))
           else
             (case thread_step env i p cache (sys_service s) (sys_world s) of
                Inl f \<Rightarrow> None
              | Inr (p', cache', sv', w') \<Rightarrow>
                  Some (pc_event p, s\<lparr>sys_workers := (sys_workers s)[i := (p', cache')],
                    sys_service := sv', sys_world := w'\<rparr>)))
      else None)"
| "exec_move env (HelperMove k) s =
     (if k < length (sys_helpers s) \<and> sys_fault s = None then
        (case sys_helpers s ! k of (i, p, cache) \<Rightarrow>
           if p = Ended \<or> p = Loop then None
           else
             (case thread_step env i p cache (sys_service s) (sys_world s) of
                Inl f \<Rightarrow> None
              | Inr (p', cache', sv', w') \<Rightarrow>
                  Some (pc_event p, s\<lparr>sys_helpers := (sys_helpers s)[k := (i, p', cache')],
                    sys_service := sv', sys_world := w'\<rparr>)))
      else None)"

fun exec :: "'w env \<Rightarrow> move list \<Rightarrow> 'w system \<Rightarrow> (event list \<times> 'w system) option" where
  "exec env [] s = Some ([], s)"
| "exec env (m # ms) s =
     (case exec_move env m s of None \<Rightarrow> None | Some (e, s') \<Rightarrow>
        (case exec env ms s' of None \<Rightarrow> None | Some (es, s'') \<Rightarrow> Some (e # es, s'')))"

lemma exec_move_sound: "exec_move env m s = Some (e, s') \<Longrightarrow> sys_step env s e s'"
  by (cases m) (auto split: if_splits sum.splits prod.splits intro: sys_step.intros)

lemma run_Cons:
  assumes "run step P s' es s''"
  shows "step s e s' \<Longrightarrow> P s \<Longrightarrow> run step P s (e # es) s''"
  using assms
proof (induction rule: run.induct)
  case (run_refl s')
  then show ?case
    using run.run_step [OF run.run_refl [of P s step], of e s'] by simp
next
  case (run_step s' es s1 e' s2)
  then show ?case
    using run.run_step [of step P s "e # es" s1 e' s2] by simp
qed

lemma exec_sound: "exec env ms s = Some (es, s') \<Longrightarrow> run (sys_step env) (\<lambda>_. True) s es s'"
proof (induction ms arbitrary: s es)
  case Nil
  then show ?case by (auto intro: run.run_refl)
next
  case (Cons m ms)
  then obtain e s1 es1 where m: "exec_move env m s = Some (e, s1)" "exec env ms s1 = Some (es1, s')"
      "es = e # es1"
    by (auto split: option.splits)
  show ?case
    unfolding m(3) by (rule run_Cons [OF Cons.IH [OF m(2)] exec_move_sound [OF m(1)] TrueI])
qed

lemma exec_no_fault: "exec env ms s = Some (es, s') \<Longrightarrow> sys_fault s = None \<Longrightarrow> sys_fault s' = None"
proof (induction ms arbitrary: s es)
  case (Cons m ms)
  have "exec_move env m s = Some (e, s1) \<Longrightarrow> sys_fault s1 = sys_fault s" for e s1
    by (cases m) (auto split: if_splits sum.splits prod.splits)
  with Cons show ?case by (fastforce split: option.splits)
qed simp

text \<open>The handle a thread is about to hand to \<^verbatim>\<open>curl_easy_perform\<close>.\<close>

fun uses_handle :: "pc \<Rightarrow> processor_result option" where
  "uses_handle (Send1 fb r payload ts p1 p2) = Some p1"
| "uses_handle (Send2 fb r payload ts p2 code) = Some p2"
| "uses_handle _ = None"

text \<open>A worker and a detached thread that works for it are about to use the same handle.\<close>

definition handle_shared :: "'w system \<Rightarrow> bool" where
  "handle_shared s \<longleftrightarrow> (\<exists>(i, p, c)\<in>set (sys_helpers s). i < length (sys_workers s) \<and>
     uses_handle p \<noteq> None \<and> uses_handle (fst (sys_workers s ! i)) = uses_handle p)"

text \<open>All threads at their first statement.\<close>

definition system_init :: "service \<Rightarrow> 'w \<Rightarrow> 'w system" where
  "system_init sv w =
     \<lparr>sys_workers = replicate (length (sv_queues sv)) (Enter, ts_cache_init), sys_helpers = [],
      sys_service = sv, sys_world = w, sys_fault = None\<rparr>"

text \<open>
  An example: every reading of the clock is two seconds after the one before, the default processor
  answers 503.
\<close>

definition race_env :: "int env" where
  "race_env =
     \<lparr>env_time = (\<lambda>w. (1755300005, w)), env_steady = (\<lambda>w. (0, w)), env_now = (\<lambda>w. (w, w + 2000000000)),
      env_perform = (\<lambda>req w. (\<lparr>curle_ok = True, response_code = sample_codes (opt_url req), chunks = []\<rparr>, w)),
      env_sleep = (\<lambda>n w. w)\<rparr>"

definition race_schedule :: "move list" where
  "race_schedule =
     [WorkerMove 0, PostMove 0 sample_raw, PostMove 0 sample_raw, WorkerMove 0, WorkerMove 0,
      WorkerMove 0, WorkerMove 0, WorkerMove 0, HelperMove 0]"

lemma race_reached:
  "\<exists>es s. exec race_env race_schedule (system_init sample_service 0) = Some (es, s) \<and> handle_shared s"
proof -
  obtain c' payload where c: "create_processor_payload 1755300005 ts_cache_init (sample_body @ ''}'') =
      Inr (c', payload, word_of_int 1755300005)"
    using create_payload_ok [OF cache_ok_init, of 1755300005 sample_body "CHR ''}''"] by auto
  have l: "primary_label (sample_sw False) = Default" "secondary_label (sample_sw False) = Fallback"
    "fallback_interval_ms (sample_sw False) = 1000"
    by (simp_all add: sample_sw_def)
  have two: "\<not> (2 :: u64) \<le> 1" by (simp add: word_le_nat_alt)
  show ?thesis
    by (simp add: race_schedule_def race_env_def system_init_def sample_service_def enqueue_def
        wq_push_def worker_queue_new_def worker_turn_def fetch_next_def wq_pop_def Let_def
        sample_raw_text c l elapsed_int_def send_to_processor_def CurlHandle_def set_payload_def
        clear_response_def respond_io_def handle_response_def recover_def update_time_def
        evaluate_switch_def sample_codes_def string_eval handle_shared_def numeral_2_eq_2 two)
qed

section \<open>The state after construction\<close>

lemma PaymentService_Inr:
  assumes "PaymentService getenv init base now = Inr sv"
  shows "sv_queues sv = replicate (nat (env_int getenv ''WORKER_COUNT'' 1)) (worker_queue_new QUEUE_CAPACITY)"
    "sv_processed sv = store_init base" "sv_switch sv = switching_init getenv"
    "curl_handles sv = make_handles init (switching_init getenv) (nat (env_int getenv ''WORKER_COUNT'' 1))"
    "sv_running sv"
  using assms by (auto simp: PaymentService_def Let_def split: if_splits)

lemma switching_init_inv: "sw_inv (switching_init getenv)"
  by (simp add: sw_inv_def switching_init_def url_of_def Let_def)

lemma QUEUE_CAPACITY_pos: "0 < QUEUE_CAPACITY"
  by (simp add: QUEUE_CAPACITY_def)

lemma make_handles_ok:
  assumes "i < n" and "init i Default = Some h" and "init i Fallback = Some h'"
  shows "handles_ok sw i (make_handles init sw n)"
  using assms by (simp add: handles_ok_def handle_url_def make_handles_def CurlHandle_def Let_def)

lemma PaymentService_waiting:
  "PaymentService getenv init base now = Inr sv \<Longrightarrow> waiting sv = 0 \<and> stored_total sv = 0 \<and> queues_ok sv"
  by (auto simp: PaymentService_Inr waiting_def stored_total_def queues_ok_def stored_init sum_list_replicate
      worker_queue_new_def [of QUEUE_CAPACITY] wq_wf_new [OF QUEUE_CAPACITY_pos, unfolded worker_queue_new_def])

lemma system_init_ok: "queues_ok sv \<Longrightarrow> system_ok (system_init sv w)"
  by (simp add: system_ok_def system_init_def)

lemma in_flight_init: "in_flight (system_init sv w) = 0"
  by (simp add: in_flight_def system_init_def sum_list_replicate)

definition is_post :: "event \<Rightarrow> bool" where
  "is_post e \<longleftrightarrow> (case e of Posted i r \<Rightarrow> True | _ \<Rightarrow> False)"

lemma sum_event_in: "sum_list (map event_in es) = of_nat (length (filter is_post es))"
  by (induction es) (auto simp: is_post_def split: event.splits)

lemma sum_event_out: "sum_list (map event_out es) = of_nat (length (filter ((=) (Disposed Discard)) es))"
proof (induction es)
  case (Cons e es)
  then show ?case by (cases e rule: event_out.cases) simp_all
qed simp

section \<open>Properties\<close>

text \<open>
  C2. No payment is lost and none is counted twice: from the start of the service, in every
  interleaving of clients, workers and detached threads and for every behaviour of processors and
  clocks, as long as no queue is full, the payments posted so far are exactly those recorded, those
  waiting in queues, those held by a thread and those discarded after a 422.
\<close>

theorem payments_conserved:
  assumes "PaymentService getenv init base now = Inr sv"
    and "run (sys_step env) roomy (system_init sv w) es s"
  shows "stored_total (sys_service s) + of_nat (waiting (sys_service s)) + of_nat (in_flight s) +
      of_nat (length (filter ((=) (Disposed Discard)) es)) = of_nat (length (filter is_post es))"
proof -
  note init = PaymentService_waiting [OF assms(1)]
  have "account (system_init sv w) = 0"
    using init in_flight_init [of sv w] by (simp add: account_def) (simp add: system_init_def)
  then show ?thesis
    using payments.run_balance [OF assms(2) system_init_ok] init
    by (simp add: account_def sum_event_in sum_event_out add.assoc)
qed

theorem payments_conserved_witness:
  "\<exists>sv s. PaymentService (\<lambda>_. None) (\<lambda>_ _. Some easy_new) 1755300000 0 = Inr sv \<and>
    run (sys_step race_env) roomy (system_init sv 0) [Posted 0 sample_raw] s \<and>
    stored_total (sys_service s) + of_nat (waiting (sys_service s)) + of_nat (in_flight s) + 0 = 1"
proof -
  obtain sv where sv: "PaymentService (\<lambda>_. None) (\<lambda>_ _. Some easy_new) 1755300000 0 = Inr sv"
    by (simp add: PaymentService_def Let_def env_int_def)
  have q: "sv_queues sv = [worker_queue_new QUEUE_CAPACITY]"
    using PaymentService_Inr(1) [OF sv] by (simp add: env_int_def)
  have r: "wq_room (worker_queue_new QUEUE_CAPACITY) = 100000"
    using wq_room_new [of QUEUE_CAPACITY] by (simp add: QUEUE_CAPACITY_def)
  obtain q' where p: "wq_push (worker_queue_new QUEUE_CAPACITY) sample_raw = Inr q'" "100000 \<le> Suc (wq_room q')"
    using wq_push_contents [OF wq_wf_new [OF QUEUE_CAPACITY_pos], of sample_raw] r by auto
  let ?s = "system_init sv (0 :: int)"
  let ?s' = "?s\<lparr>sys_service := (sys_service ?s)\<lparr>sv_queues := [q']\<rparr>\<rparr>"
  have e: "enqueue (sv_queues (sys_service ?s)) 0 sample_raw = Inr [q']"
    by (simp add: system_init_def q enqueue_def p)
  have st: "sys_step race_env ?s (Posted 0 sample_raw) ?s'"
    by (rule sys_step.post [OF _ _ e]) (simp_all add: system_init_def q)
  have ro: "roomy ?s" "roomy ?s'"
    using r p(2) by (simp_all add: roomy_def system_init_def q)
  have run: "run (sys_step race_env) roomy ?s ([] @ [Posted 0 sample_raw]) ?s'"
    by (rule run.run_step [where step = "sys_step race_env", OF run.run_refl [of roomy, OF ro(1)] st ro(2)])
  show ?thesis
    using payments_conserved [OF sv run] sv run by (auto simp: is_post_def)
qed

text \<open>
  C22. The constructor: with a worker count that is not negative and handles that could be created it
  gives a service in order, with empty queues and an empty record, for any environment variables; a
  negative worker count ends in an exception.
\<close>

theorem PaymentService_establishes_invariant:
  assumes "\<And>i p. init i p \<noteq> None"
  shows "if env_int getenv ''WORKER_COUNT'' 1 < 0
    then PaymentService getenv init base now = Inl (RuntimeError ''vector::reserve'')
    else \<exists>sv. PaymentService getenv init base now = Inr sv \<and> service_ok sv \<and> stored_total sv = 0 \<and>
      length (sv_queues sv) = nat (env_int getenv ''WORKER_COUNT'' 1) \<and>
      (\<forall>i < length (sv_queues sv). pending sv i = [])"
proof (cases "env_int getenv ''WORKER_COUNT'' 1 < 0")
  case True
  then show ?thesis by (simp add: PaymentService_def)
next
  case False
  then obtain sv where sv: "PaymentService getenv init base now = Inr sv"
    by (simp add: PaymentService_def Let_def)
  have h: "handles_ok (switching_init getenv) i (make_handles init (switching_init getenv) n)" if "i < n" for i n
    using make_handles_ok [OF that] assms by (metis option.exhaust)
  show ?thesis
    using False sv PaymentService_waiting [OF sv] PaymentService_Inr [OF sv] h
    by (auto simp: service_ok_def switching_init_inv store_wf_init wq_wf_new QUEUE_CAPACITY_pos pending_def)
qed

theorem PaymentService_establishes_invariant_witness:
  "\<exists>sv. PaymentService (\<lambda>_. None) (\<lambda>_ _. Some easy_new) 1755300000 0 = Inr sv \<and> service_ok sv \<and>
     stored_total sv = 0 \<and> length (sv_queues sv) = 1"
  using PaymentService_establishes_invariant [of "\<lambda>_ _. Some easy_new" "\<lambda>_. None" 1755300000 0]
  by (auto simp: env_int_def)



end
