(* ===== verification/Itoa.thy ===== *)
theory Itoa
  imports Cstd
begin

text \<open>
  Decimal output of integers in the bundled RapidJSON (src/include/rapidjson/internal/itoa.h): digits
  are taken two at a time from a table of two hundred characters. The C code writes to a buffer and
  returns its new end; here an operation gives the characters written. No operation of this file
  wraps: the 32-bit casts are applied to values below \<open>2 ^ 32\<close>, so the intermediate values are
  natural numbers.
\<close>

section \<open>Definitions\<close>

definition cDigitsLut :: string where
  "cDigitsLut =
     ''00010203040506070809'' @ ''10111213141516171819'' @ ''20212223242526272829'' @
     ''30313233343536373839'' @ ''40414243444546474849'' @ ''50515253545556575859'' @
     ''60616263646566676869'' @ ''70717273747576777879'' @ ''80818283848586878889'' @
     ''90919293949596979899''"

definition lut :: "nat \<Rightarrow> char" where
  "lut i = cDigitsLut ! i"

text \<open>\<^verbatim>\<open>if (c) *buffer++ = x;\<close>\<close>

definition put_if :: "bool \<Rightarrow> char \<Rightarrow> string" where
  "put_if c x = (if c then [x] else [])"

definition u32toa :: "32 word \<Rightarrow> string" where
  "u32toa v =
     (let value = unat v in
      if value < 10000 then
        (let d1 = 2 * (value div 100); d2 = 2 * (value mod 100) in
         put_if (value \<ge> 1000) (lut d1) @ put_if (value \<ge> 100) (lut (d1 + 1)) @
         put_if (value \<ge> 10) (lut d2) @ [lut (d2 + 1)])
      else if value < 100000000 then
        (let b = value div 10000; c = value mod 10000;
             d1 = 2 * (b div 100); d2 = 2 * (b mod 100);
             d3 = 2 * (c div 100); d4 = 2 * (c mod 100) in
         put_if (value \<ge> 10000000) (lut d1) @ put_if (value \<ge> 1000000) (lut (d1 + 1)) @
         put_if (value \<ge> 100000) (lut d2) @ [lut (d2 + 1)] @
         [lut d3, lut (d3 + 1), lut d4, lut (d4 + 1)])
      else
        (let a = value div 100000000; value = value mod 100000000;
             b = value div 10000; c = value mod 10000;
             d1 = 2 * (b div 100); d2 = 2 * (b mod 100);
             d3 = 2 * (c div 100); d4 = 2 * (c mod 100) in
         (if a \<ge> 10 then (let i = 2 * a in [lut i, lut (i + 1)]) else [digit_char a]) @
         [lut d1, lut (d1 + 1), lut d2, lut (d2 + 1), lut d3, lut (d3 + 1), lut d4, lut (d4 + 1)]))"

definition i32toa :: "32 word \<Rightarrow> string" where
  "i32toa value =
     (if sint value < 0 then ''-'' @ u32toa (not value + 1) else u32toa value)"

definition kTen8 :: nat where
  "kTen8 = 100000000"

definition u64toa :: "u64 \<Rightarrow> string" where
  "u64toa w =
     (let value = unat w;
          kTen9 = kTen8 * 10; kTen10 = kTen8 * 100; kTen11 = kTen8 * 1000; kTen12 = kTen8 * 10000;
          kTen13 = kTen8 * 100000; kTen14 = kTen8 * 1000000; kTen15 = kTen8 * 10000000;
          kTen16 = kTen8 * kTen8
      in
      if value < kTen8 then
        (let v = value in
         if v < 10000 then
           (let d1 = 2 * (v div 100); d2 = 2 * (v mod 100) in
            put_if (v \<ge> 1000) (lut d1) @ put_if (v \<ge> 100) (lut (d1 + 1)) @
            put_if (v \<ge> 10) (lut d2) @ [lut (d2 + 1)])
         else
           (let b = v div 10000; c = v mod 10000;
                d1 = 2 * (b div 100); d2 = 2 * (b mod 100);
                d3 = 2 * (c div 100); d4 = 2 * (c mod 100) in
            put_if (value \<ge> 10000000) (lut d1) @ put_if (value \<ge> 1000000) (lut (d1 + 1)) @
            put_if (value \<ge> 100000) (lut d2) @ [lut (d2 + 1)] @
            [lut d3, lut (d3 + 1), lut d4, lut (d4 + 1)]))
      else if value < kTen16 then
        (let v0 = value div kTen8; v1 = value mod kTen8;
             b0 = v0 div 10000; c0 = v0 mod 10000;
             d1 = 2 * (b0 div 100); d2 = 2 * (b0 mod 100);
             d3 = 2 * (c0 div 100); d4 = 2 * (c0 mod 100);
             b1 = v1 div 10000; c1 = v1 mod 10000;
             d5 = 2 * (b1 div 100); d6 = 2 * (b1 mod 100);
             d7 = 2 * (c1 div 100); d8 = 2 * (c1 mod 100) in
         put_if (value \<ge> kTen15) (lut d1) @ put_if (value \<ge> kTen14) (lut (d1 + 1)) @
         put_if (value \<ge> kTen13) (lut d2) @ put_if (value \<ge> kTen12) (lut (d2 + 1)) @
         put_if (value \<ge> kTen11) (lut d3) @ put_if (value \<ge> kTen10) (lut (d3 + 1)) @
         put_if (value \<ge> kTen9) (lut d4) @
         [lut (d4 + 1), lut d5, lut (d5 + 1), lut d6, lut (d6 + 1), lut d7, lut (d7 + 1), lut d8,
          lut (d8 + 1)])
      else
        (let a = value div kTen16; value = value mod kTen16;
             v0 = value div kTen8; v1 = value mod kTen8;
             b0 = v0 div 10000; c0 = v0 mod 10000;
             d1 = 2 * (b0 div 100); d2 = 2 * (b0 mod 100);
             d3 = 2 * (c0 div 100); d4 = 2 * (c0 mod 100);
             b1 = v1 div 10000; c1 = v1 mod 10000;
             d5 = 2 * (b1 div 100); d6 = 2 * (b1 mod 100);
             d7 = 2 * (c1 div 100); d8 = 2 * (c1 mod 100) in
         (if a < 10 then [digit_char a]
          else if a < 100 then (let i = 2 * a in [lut i, lut (i + 1)])
          else if a < 1000 then
            (let i = 2 * (a mod 100) in [digit_char (a div 100), lut i, lut (i + 1)])
          else
            (let i = 2 * (a div 100); j = 2 * (a mod 100) in [lut i, lut (i + 1), lut j, lut (j + 1)])) @
         [lut d1, lut (d1 + 1), lut d2, lut (d2 + 1), lut d3, lut (d3 + 1), lut d4, lut (d4 + 1),
          lut d5, lut (d5 + 1), lut d6, lut (d6 + 1), lut d7, lut (d7 + 1), lut d8, lut (d8 + 1)]))"

definition i64toa :: "u64 \<Rightarrow> string" where
  "i64toa value =
     (if sint value < 0 then ''-'' @ u64toa (not value + 1) else u64toa value)"

section \<open>Digits\<close>

text \<open>The table holds the two digits of every number below one hundred.\<close>

lemma lut_table: "list_all (\<lambda>d. lut (2 * d) = digit_char (d div 10) \<and> lut (2 * d + 1) = digit_char (d mod 10)) [0..<100]"
  by code_simp

lemma lut_even: "d < 100 \<Longrightarrow> lut (2 * d) = digit_char (d div 10)"
  and lut_odd: "d < 100 \<Longrightarrow> lut (Suc (2 * d)) = digit_char (d mod 10)"
  using lut_table by (auto simp: list_all_iff)

text \<open>Exactly \<open>w\<close> digits, with leading zeros.\<close>

fun dec_pad :: "nat \<Rightarrow> nat \<Rightarrow> string" where
  "dec_pad 0 n = []"
| "dec_pad (Suc w) n = dec_pad w (n div 10) @ [digit_char (n mod 10)]"

text \<open>Digits without the leading zeros, decided one by one from the front.\<close>

fun lead :: "nat \<Rightarrow> string \<Rightarrow> string" where
  "lead n [] = []"
| "lead n [c] = [c]"
| "lead n (c # d # cs) = put_if (n \<ge> 10 ^ length (d # cs)) c @ lead n (d # cs)"

lemma length_dec_pad [simp]: "length (dec_pad w n) = w"
  by (induction w arbitrary: n) simp_all

lemma dec_pad_Cons: "dec_pad (Suc w) n = digit_char (n div 10 ^ w mod 10) # dec_pad w n"
  by (induction w arbitrary: n) (simp_all add: div_mult2_eq)

lemma dec_pad_append: "dec_pad (a + b) n = dec_pad a (n div 10 ^ b) @ dec_pad b n"
  by (induction b arbitrary: n) (simp_all add: div_mult2_eq)

lemma mod_power_div: "(n :: nat) mod 10 ^ Suc w div 10 = n div 10 mod 10 ^ w"
  by (simp add: mod_mult2_eq)

lemma dec_pad_mod [simp]: "dec_pad w (n mod 10 ^ w) = dec_pad w n"
proof (induction w arbitrary: n)
  case (Suc w)
  have "n mod 10 ^ Suc w mod 10 = n mod 10"
    by (simp add: mod_mult2_eq)
  then show ?case
    using Suc [of "n div 10"] by (simp add: mod_power_div del: power_Suc)
qed simp

lemma ten_le: "10 ^ Suc w \<le> (n :: nat) \<Longrightarrow> \<not> n < 10"
  using power_increasing [of 1 "Suc w" "10 :: nat"] by (simp del: power_Suc)

lemma nat_to_dec_dec_pad:
  "10 ^ w \<le> n \<Longrightarrow> n < 10 ^ Suc w \<Longrightarrow> nat_to_dec n = dec_pad (Suc w) n"
proof (induction w arbitrary: n)
  case 0
  then show ?case by (simp add: nat_to_dec.simps)
next
  case (Suc w)
  have "10 ^ w \<le> n div 10" and "n div 10 < 10 ^ Suc w"
    using Suc.prems by (auto simp: less_eq_div_iff_mult_less_eq div_less_iff_less_mult ac_simps)
  then have "nat_to_dec (n div 10) = dec_pad (Suc w) (n div 10)" by (rule Suc.IH)
  moreover have "\<not> n < 10" using Suc.prems(1) by (rule ten_le)
  ultimately show ?case by (subst nat_to_dec.simps) simp
qed

lemma nat_to_dec_append:
  "10 ^ w \<le> n \<Longrightarrow> nat_to_dec n = nat_to_dec (n div 10 ^ w) @ dec_pad w n"
proof (induction w arbitrary: n)
  case (Suc w)
  have "10 ^ w \<le> n div 10"
    using Suc.prems by (auto simp: less_eq_div_iff_mult_less_eq ac_simps)
  then have "nat_to_dec (n div 10) = nat_to_dec (n div 10 div 10 ^ w) @ dec_pad w (n div 10)"
    by (rule Suc.IH)
  moreover have "\<not> n < 10" using Suc.prems by (rule ten_le)
  ultimately show ?case by (subst nat_to_dec.simps) (simp add: div_mult2_eq)
qed simp

lemma lead_all: "10 ^ (length cs - 1) \<le> n \<Longrightarrow> lead n cs = cs"
proof (induction n cs rule: lead.induct)
  case (3 n c d cs)
  then have "10 ^ length (d # cs) \<le> n" by simp
  moreover have "(10 :: nat) ^ (length (d # cs) - 1) \<le> 10 ^ length (d # cs)"
    by (rule power_increasing) simp_all
  ultimately have "10 ^ (length (d # cs) - 1) \<le> n" and "10 ^ length (d # cs) \<le> n" by linarith+
  then show ?case using 3 by (simp add: put_if_def)
qed simp_all

lemma nat_to_dec_lead: "n < 10 ^ Suc w \<Longrightarrow> nat_to_dec n = lead n (dec_pad (Suc w) n)"
proof (induction w)
  case 0
  then show ?case by (simp add: nat_to_dec.simps)
next
  case (Suc w)
  have d: "dec_pad (Suc (Suc w)) n = digit_char (n div 10 ^ Suc w mod 10) # dec_pad (Suc w) n"
    by (rule dec_pad_Cons)
  obtain e es where e: "dec_pad (Suc w) n = e # es" "length (e # es) = Suc w"
    by (metis dec_pad_Cons length_dec_pad)
  show ?case
  proof (cases "10 ^ Suc w \<le> n")
    case True
    then show ?thesis
      using nat_to_dec_dec_pad [OF True Suc.prems] lead_all [of "dec_pad (Suc (Suc w)) n" n]
      by (simp del: dec_pad.simps power_Suc)
  next
    case False
    then have "nat_to_dec n = lead n (dec_pad (Suc w) n)" by (intro Suc.IH) simp
    moreover have "lead n (dec_pad (Suc (Suc w)) n) = lead n (dec_pad (Suc w) n)"
      using False e by (simp only: d e lead.simps) (simp add: put_if_def)
    ultimately show ?thesis by simp
  qed
qed

lemma nat_to_dec_width: "0 < w \<Longrightarrow> n < 10 ^ w \<Longrightarrow> nat_to_dec n = lead n (dec_pad w n)"
  using nat_to_dec_lead [of n "w - 1"] by (simp del: dec_pad.simps power_Suc)

lemma dec_pad_2: "d < 100 \<Longrightarrow> dec_pad 2 d = [lut (2 * d), lut (Suc (2 * d))]"
proof -
  assume "d < 100"
  moreover have "dec_pad 2 d = dec_pad (Suc (Suc 0)) d" by (simp only: numeral_2_eq_2)
  ultimately show ?thesis by (simp add: lut_even lut_odd)
qed

lemma dec_pad_double:
  "dec_pad (w + w) v = dec_pad w (v div 10 ^ w) @ dec_pad w (v mod 10 ^ w)"
  by (simp add: dec_pad_append)

lemma dec_pad_4: "v < 10000 \<Longrightarrow> dec_pad 4 v =
    [lut (2 * (v div 100)), lut (Suc (2 * (v div 100))), lut (2 * (v mod 100)), lut (Suc (2 * (v mod 100)))]"
proof -
  assume "v < 10000"
  then have "v div 100 < 100" by (simp add: div_less_iff_less_mult)
  then show ?thesis
    using dec_pad_double [of 2 v] dec_pad_2 [of "v div 100"] dec_pad_2 [of "v mod 100"]
    by (simp del: dec_pad_mod)
qed

lemma dec_pad_8: "dec_pad 8 v = dec_pad 4 (v div 10000) @ dec_pad 4 (v mod 10000)"
  using dec_pad_double [of 4 v] by (simp del: dec_pad_mod)

lemma dec_pad_16: "dec_pad 16 v = dec_pad 8 (v div 100000000) @ dec_pad 8 (v mod 100000000)"
  using dec_pad_double [of 8 v] by (simp del: dec_pad_mod)

text \<open>Sixteen digits, as the code takes them from the table.\<close>

lemma dec_pad_8_lut:
  assumes "v < 100000000"
  shows "dec_pad 8 v =
    [lut (2 * (v div 10000 div 100)), lut (Suc (2 * (v div 10000 div 100))),
     lut (2 * (v div 10000 mod 100)), lut (Suc (2 * (v div 10000 mod 100))),
     lut (2 * (v mod 10000 div 100)), lut (Suc (2 * (v mod 10000 div 100))),
     lut (2 * (v mod 10000 mod 100)), lut (Suc (2 * (v mod 10000 mod 100)))]"
proof -
  have "v div 10000 < 10000" using assms by (simp add: div_less_iff_less_mult)
  then show ?thesis
    using dec_pad_4 [of "v div 10000"] dec_pad_4 [of "v mod 10000"] by (simp add: dec_pad_8)
qed

lemma small_dec: "n < 10 \<Longrightarrow> nat_to_dec n = [digit_char n]"
  by (simp add: nat_to_dec.simps)

lemma dec_below_100: "10 \<le> n \<Longrightarrow> n < 100 \<Longrightarrow> nat_to_dec n = [lut (2 * n), lut (Suc (2 * n))]"
  using nat_to_dec_append [of 1 n] by (simp add: small_dec lut_even lut_odd)

lemma dec_below_1000: "100 \<le> n \<Longrightarrow> n < 1000 \<Longrightarrow>
    nat_to_dec n = [digit_char (n div 100), lut (2 * (n mod 100)), lut (Suc (2 * (n mod 100)))]"
proof -
  assume n: "100 \<le> n" "n < 1000"
  then have "n div 100 < 10" by (simp add: div_less_iff_less_mult)
  then show ?thesis
    using nat_to_dec_append [of 2 n] n dec_pad_mod [of 2 n] dec_pad_2 [of "n mod 100"]
    by (simp add: small_dec del: dec_pad_mod)
qed

lemma dec_below_10000: "1000 \<le> n \<Longrightarrow> n < 10000 \<Longrightarrow> nat_to_dec n = dec_pad 4 n"
  using nat_to_dec_dec_pad [of 3 n] by (simp add: eval_nat_numeral(3) [symmetric] del: dec_pad.simps)

lemma u32toa_dec: "u32toa w = nat_to_dec (unat w)"
proof -
  let ?v = "unat w"
  consider "?v < 10000" | "10000 \<le> ?v" "?v < 100000000" | "100000000 \<le> ?v" by linarith
  then show ?thesis
  proof cases
    case 1
    then show ?thesis
      using nat_to_dec_width [of 4 ?v] by (simp add: u32toa_def Let_def dec_pad_4)
  next
    case 2
    then show ?thesis
      using nat_to_dec_width [of 8 ?v] by (simp add: u32toa_def Let_def dec_pad_8_lut put_if_def)
  next
    case 3
    have a: "?v div 100000000 < 100"
      using unsigned_less [of w, where ?'a = nat] by (simp add: div_less_iff_less_mult)
    show ?thesis
      using nat_to_dec_append [of 8 ?v] 3 dec_pad_mod [of 8 ?v] a
        dec_below_100 [of "?v div 100000000"] small_dec [of "?v div 100000000"]
      by (simp add: u32toa_def Let_def dec_pad_8_lut del: dec_pad_mod)
  qed
qed

lemma dec_pad_16_lut:
  assumes "v < 10000000000000000"
  shows "dec_pad 16 v = dec_pad 8 (v div kTen8) @ dec_pad 8 (v mod kTen8)"
    and "v div kTen8 < 100000000" and "v mod kTen8 < 100000000"
  using assms by (simp_all add: dec_pad_16 kTen8_def div_less_iff_less_mult)

lemma put_if_True: "c \<Longrightarrow> put_if c x = [x]"
  by (simp add: put_if_def)

lemma u64toa_dec: "u64toa w = nat_to_dec (unat w)"
proof -
  let ?v = "unat w"
  consider "?v < 10000" | "10000 \<le> ?v" "?v < 100000000"
    | "100000000 \<le> ?v" "?v < 10000000000000000" | "10000000000000000 \<le> ?v" by linarith
  then show ?thesis
  proof cases
    case 1
    then show ?thesis
      using nat_to_dec_width [of 4 ?v] by (simp add: u64toa_def Let_def dec_pad_4 kTen8_def)
  next
    case 2
    then show ?thesis
      using nat_to_dec_width [of 8 ?v]
      by (simp add: u64toa_def Let_def dec_pad_8_lut put_if_def kTen8_def)
  next
    case 3
    note p = dec_pad_16_lut [OF 3(2)]
    have "\<not> ?v < kTen8" "?v < kTen8 * kTen8" using 3 by (simp_all add: kTen8_def)
    then show ?thesis
      using nat_to_dec_width [of 16 ?v] 3 p(2,3)
      unfolding u64toa_def Let_def p(1) dec_pad_8_lut [OF p(2)] dec_pad_8_lut [OF p(3)]
      by (simp add: kTen8_def put_if_True)
  next
    case 4
    have a: "?v div 10000000000000000 < 10000"
      using unat_u64_less [of w] by (simp add: div_less_iff_less_mult)
    let ?a = "?v div 10000000000000000" and ?r = "?v mod 10000000000000000"
    have r: "?r < 10000000000000000" by simp
    note p = dec_pad_16_lut [OF r]
    have "nat_to_dec ?v = nat_to_dec ?a @ dec_pad 16 ?r"
      using nat_to_dec_append [of 16 ?v] 4 dec_pad_mod [of 16 ?v] by (simp del: dec_pad_mod)
    moreover have "nat_to_dec ?a = (if ?a < 10 then [digit_char ?a]
        else if ?a < 100 then [lut (2 * ?a), lut (Suc (2 * ?a))]
        else if ?a < 1000 then [digit_char (?a div 100), lut (2 * (?a mod 100)), lut (Suc (2 * (?a mod 100)))]
        else dec_pad 4 ?a)"
      using a by (simp add: small_dec dec_below_100 dec_below_1000 dec_below_10000)
    moreover have k: "\<not> ?v < kTen8" "\<not> ?v < kTen8 * kTen8" "kTen8 * kTen8 = 10000000000000000"
      using 4 by (simp_all add: kTen8_def)
    ultimately show ?thesis
      unfolding p(1) dec_pad_8_lut [OF p(2)] dec_pad_8_lut [OF p(3)] dec_pad_4 [OF a]
      by (simp add: u64toa_def Let_def)
  qed
qed

lemma half_range: "(2 :: int) ^ (LENGTH('a::len) - 1) < 2 ^ LENGTH('a)"
  by (rule power_strict_increasing) simp_all

lemma unat_minus_neg:
  assumes "sint (w :: 'a::len word) < 0"
  shows "unat (- w) = nat (- sint w)"
proof -
  have "- w = word_of_int (- sint w)" by simp
  moreover have "- sint w < 2 ^ LENGTH('a)"
    using sint_ge [of w] half_range [where ?'a = 'a] by linarith
  ultimately have "uint (- w) = - sint w"
    using assms by (metis mod_pos_pos_trivial neg_0_less_iff_less less_imp_le uint_word_of_int)
  then show ?thesis by (simp add: unat_eq_nat_uint)
qed

lemma unat_sint_nonneg:
  assumes "0 \<le> sint (w :: 'a::len word)"
  shows "unat w = nat (sint w)"
proof -
  have "sint w < 2 ^ LENGTH('a)"
    using sint_lt [of w] half_range [where ?'a = 'a] by linarith
  then have "take_bit LENGTH('a) (sint w) = sint w"
    using assms by (simp add: take_bit_int_eq_self)
  then have "uint w = sint w" by (simp add: uint_sint)
  then show ?thesis by (simp add: unat_eq_nat_uint)
qed

lemma not_plus_1: "not (w :: 'a::len word) + 1 = - w"
  by (simp add: minus_eq_not_plus_1)

section \<open>Properties\<close>

text \<open>
  C24. The table-driven printing of integers is decimal printing: for every 64-bit and every 32-bit
  value, unsigned and signed, the characters written are the decimal digits without leading zeros,
  with a minus sign for negative values.
\<close>

theorem itoa_is_decimal:
  "u64toa w = nat_to_dec (unat w) \<and> i64toa w = int_to_dec (sint w) \<and>
   u32toa v = nat_to_dec (unat v) \<and> i32toa v = int_to_dec (sint v)"
  unfolding i64toa_def i32toa_def int_to_dec_def u64toa_dec u32toa_dec not_plus_1
  using unat_minus_neg [of w] unat_minus_neg [of v] unat_sint_nonneg [of w] unat_sint_nonneg [of v]
  by (simp add: not_less)

end
