(* ===== verification/Dtoa.thy ===== *)
theory Dtoa
  imports Itoa Double
begin

text \<open>
  Decimal output of floating-point numbers in the bundled RapidJSON: the do-it-yourself floating
  point of src/include/rapidjson/internal/diyfp.h with its table of powers of ten, the view of a
  \<^verbatim>\<open>double\<close> as bits (ieee754.h), and the Grisu2 algorithm with its final layout (dtoa.h).

  A loop that the source does not bound is a \<open>partial_function\<close>: the value \<^const>\<open>None\<close> means that it
  does not end, or that a digit before the start of the buffer would be changed.
\<close>

unbundle bit_operations_syntax

section \<open>Bits of a double\<close>

definition kSignMask :: u64 where "kSignMask = 0x8000000000000000"
definition kExponentMask :: u64 where "kExponentMask = 0x7FF0000000000000"
definition kSignificandMask :: u64 where "kSignificandMask = 0x000FFFFFFFFFFFFF"
definition kHiddenBit :: u64 where "kHiddenBit = 0x0010000000000000"

text \<open>The object representation of a \<^verbatim>\<open>double\<close> that the unions of the source read.\<close>

fun double_bits :: "double \<Rightarrow> u64" where
  "double_bits (Fin s m e) =
     (if s then kSignMask else 0) +
     (if 2 ^ 52 \<le> m then push_bit 52 (word_of_int (e + 1075)) + of_nat (m - 2 ^ 52) else of_nat m)"
| "double_bits (Inf s) = (if s then kSignMask else 0) + kExponentMask"
| "double_bits NaN = kExponentMask + push_bit 51 1"

definition Sign :: "u64 \<Rightarrow> bool" where
  "Sign u \<longleftrightarrow> u AND kSignMask \<noteq> 0"

definition Significand :: "u64 \<Rightarrow> u64" where
  "Significand u = u AND kSignificandMask"

definition IsNan :: "u64 \<Rightarrow> bool" where
  "IsNan u \<longleftrightarrow> u AND kExponentMask = kExponentMask \<and> Significand u \<noteq> 0"

definition IsInf :: "u64 \<Rightarrow> bool" where
  "IsInf u \<longleftrightarrow> u AND kExponentMask = kExponentMask \<and> Significand u = 0"

definition IsNanOrInf :: "u64 \<Rightarrow> bool" where
  "IsNanOrInf u \<longleftrightarrow> u AND kExponentMask = kExponentMask"

definition IsZero :: "u64 \<Rightarrow> bool" where
  "IsZero u \<longleftrightarrow> u AND (kExponentMask OR kSignificandMask) = 0"

section \<open>DiyFp\<close>

record DiyFp =
  dp_f :: u64
  dp_e :: int

definition kDpExponentBias :: int where "kDpExponentBias = 0x3FF + 52"
definition kDpMinExponent :: int where "kDpMinExponent = - kDpExponentBias"

definition DiyFp_of :: "double \<Rightarrow> DiyFp" where
  "DiyFp_of d =
     (let u = double_bits d;
          biased_e = uint (drop_bit 52 (u AND kExponentMask));
          significand = u AND kSignificandMask
      in if biased_e \<noteq> 0 then \<lparr>dp_f = significand + kHiddenBit, dp_e = biased_e - kDpExponentBias\<rparr>
         else \<lparr>dp_f = significand, dp_e = kDpMinExponent + 1\<rparr>)"

definition diy_minus :: "DiyFp \<Rightarrow> DiyFp \<Rightarrow> DiyFp" where
  "diy_minus a b = \<lparr>dp_f = dp_f a - dp_f b, dp_e = dp_e a\<rparr>"

text \<open>The product of the significands, its upper half rounded by the top bit of the lower half.\<close>

definition diy_times :: "DiyFp \<Rightarrow> DiyFp \<Rightarrow> DiyFp" where
  "diy_times a b =
     (let p = unat (dp_f a) * unat (dp_f b);
          h = of_nat (p div 2 ^ 64) :: u64;
          l = of_nat p :: u64
      in \<lparr>dp_f = (if l AND push_bit 63 1 \<noteq> 0 then h + 1 else h), dp_e = dp_e a + dp_e b + 64\<rparr>)"

definition clzll :: "u64 \<Rightarrow> nat" where
  "clzll x = 64 - nbits (unat x)"

definition Normalize :: "DiyFp \<Rightarrow> DiyFp" where
  "Normalize a = (let s = clzll (dp_f a) in \<lparr>dp_f = push_bit s (dp_f a), dp_e = dp_e a - int s\<rparr>)"

text \<open>The loop shifts until bit 53 is set; a significand below that has at most 54 shifts to go.\<close>

fun normalize_loop :: "nat \<Rightarrow> DiyFp \<Rightarrow> DiyFp" where
  "normalize_loop 0 res = res"
| "normalize_loop (Suc n) res =
     (if dp_f res AND push_bit 1 kHiddenBit \<noteq> 0 then res
      else normalize_loop n \<lparr>dp_f = push_bit 1 (dp_f res), dp_e = dp_e res - 1\<rparr>)"

definition NormalizeBoundary :: "DiyFp \<Rightarrow> DiyFp" where
  "NormalizeBoundary a =
     (let res = normalize_loop 54 a
      in \<lparr>dp_f = push_bit 10 (dp_f res), dp_e = dp_e res - 10\<rparr>)"

definition NormalizedBoundaries :: "DiyFp \<Rightarrow> DiyFp \<times> DiyFp" where
  "NormalizedBoundaries a =
     (let pl = NormalizeBoundary \<lparr>dp_f = push_bit 1 (dp_f a) + 1, dp_e = dp_e a - 1\<rparr>;
          mi = (if dp_f a = kHiddenBit then \<lparr>dp_f = push_bit 2 (dp_f a) - 1, dp_e = dp_e a - 2\<rparr>
                else \<lparr>dp_f = push_bit 1 (dp_f a) - 1, dp_e = dp_e a - 1\<rparr>)
      in (\<lparr>dp_f = push_bit (nat (dp_e mi - dp_e pl)) (dp_f mi), dp_e = dp_e pl\<rparr>, pl))"

definition kCachedPowers_F :: "u64 list" where
  "kCachedPowers_F =
     [0xfa8fd5a0081c0288, 0xbaaee17fa23ebf76, 0x8b16fb203055ac76, 0xcf42894a5dce35ea,
      0x9a6bb0aa55653b2d, 0xe61acf033d1a45df, 0xab70fe17c79ac6ca, 0xff77b1fcbebcdc4f,
      0xbe5691ef416bd60c, 0x8dd01fad907ffc3c, 0xd3515c2831559a83, 0x9d71ac8fada6c9b5,
      0xea9c227723ee8bcb, 0xaecc49914078536d, 0x823c12795db6ce57, 0xc21094364dfb5637,
      0x9096ea6f3848984f, 0xd77485cb25823ac7, 0xa086cfcd97bf97f4, 0xef340a98172aace5,
      0xb23867fb2a35b28e, 0x84c8d4dfd2c63f3b, 0xc5dd44271ad3cdba, 0x936b9fcebb25c996,
      0xdbac6c247d62a584, 0xa3ab66580d5fdaf6, 0xf3e2f893dec3f126, 0xb5b5ada8aaff80b8,
      0x87625f056c7c4a8b, 0xc9bcff6034c13053, 0x964e858c91ba2655, 0xdff9772470297ebd,
      0xa6dfbd9fb8e5b88f, 0xf8a95fcf88747d94, 0xb94470938fa89bcf, 0x8a08f0f8bf0f156b,
      0xcdb02555653131b6, 0x993fe2c6d07b7fac, 0xe45c10c42a2b3b06, 0xaa242499697392d3,
      0xfd87b5f28300ca0e, 0xbce5086492111aeb, 0x8cbccc096f5088cc, 0xd1b71758e219652c,
      0x9c40000000000000, 0xe8d4a51000000000, 0xad78ebc5ac620000, 0x813f3978f8940984,
      0xc097ce7bc90715b3, 0x8f7e32ce7bea5c70, 0xd5d238a4abe98068, 0x9f4f2726179a2245,
      0xed63a231d4c4fb27, 0xb0de65388cc8ada8, 0x83c7088e1aab65db, 0xc45d1df942711d9a,
      0x924d692ca61be758, 0xda01ee641a708dea, 0xa26da3999aef774a, 0xf209787bb47d6b85,
      0xb454e4a179dd1877, 0x865b86925b9bc5c2, 0xc83553c5c8965d3d, 0x952ab45cfa97a0b3,
      0xde469fbd99a05fe3, 0xa59bc234db398c25, 0xf6c69a72a3989f5c, 0xb7dcbf5354e9bece,
      0x88fcf317f22241e2, 0xcc20ce9bd35c78a5, 0x98165af37b2153df, 0xe2a0b5dc971f303a,
      0xa8d9d1535ce3b396, 0xfb9b7cd9a4a7443c, 0xbb764c4ca7a44410, 0x8bab8eefb6409c1a,
      0xd01fef10a657842c, 0x9b10a4e5e9913129, 0xe7109bfba19c0c9d, 0xac2820d9623bf429,
      0x80444b5e7aa7cf85, 0xbf21e44003acdd2d, 0x8e679c2f5e44ff8f, 0xd433179d9c8cb841,
      0x9e19db92b4e31ba9, 0xeb96bf6ebadf77d9, 0xaf87023b9bf0ee6b]"

definition kCachedPowers_E :: "int list" where
  "kCachedPowers_E =
     [- 1220, - 1193, - 1166, - 1140, - 1113, - 1087, - 1060, - 1034, - 1007, - 980, - 954, - 927,
      - 901, - 874, - 847, - 821, - 794, - 768, - 741, - 715, - 688, - 661, - 635, - 608, - 582,
      - 555, - 529, - 502, - 475, - 449, - 422, - 396, - 369, - 343, - 316, - 289, - 263, - 236,
      - 210, - 183, - 157, - 130, - 103, - 77, - 50, - 24, 3, 30, 56, 83, 109, 136, 162, 189, 216,
      242, 269, 295, 322, 348, 375, 402, 428, 455, 481, 508, 534, 561, 588, 614, 641, 667, 694,
      720, 747, 774, 800, 827, 853, 880, 907, 933, 960, 986, 1013, 1039, 1066]"

definition GetCachedPowerByIndex :: "nat \<Rightarrow> DiyFp" where
  "GetCachedPowerByIndex index = \<lparr>dp_f = kCachedPowers_F ! index, dp_e = kCachedPowers_E ! index\<rparr>"

text \<open>The constant \<^verbatim>\<open>0.30102999566398114\<close>.\<close>

definition log10_2 :: double where
  "log10_2 = Fin False 5422874305198590 (- 54)"

text \<open>The power, and the decimal exponent \<^verbatim>\<open>*K\<close>.\<close>

definition GetCachedPower :: "int \<Rightarrow> DiyFp \<times> int" where
  "GetCachedPower e =
     (let dk = dadd (dmul (int_to_double (- 61 - e)) log10_2) (int_to_double 347);
          k0 = dtrunc dk;
          k = (if dlt dzero (dsub dk (int_to_double k0)) then k0 + 1 else k0);
          index = nat (k div 8 + 1)
      in (GetCachedPowerByIndex index, - (- 348 + int index * 8)))"

definition GetCachedPower10 :: "int \<Rightarrow> DiyFp \<times> int" where
  "GetCachedPower10 e =
     (let index = nat (e + 348) div 8
      in (GetCachedPowerByIndex index, - 348 + int index * 8))"

section \<open>Grisu2\<close>

text \<open>\<^verbatim>\<open>buffer[len - 1]--\<close> on a buffer that is not empty.\<close>

definition dec_last :: "string \<Rightarrow> string" where
  "dec_last b = butlast b @ [char_of (of_char (last b) + 255 :: nat)]"

partial_function (option) GrisuRound :: "string \<Rightarrow> u64 \<Rightarrow> u64 \<Rightarrow> u64 \<Rightarrow> u64 \<Rightarrow> string option" where
  "GrisuRound buffer delta rest ten_kappa wp_w =
     (if rest < wp_w \<and> delta - rest \<ge> ten_kappa \<and>
         (rest + ten_kappa < wp_w \<or> wp_w - rest > rest + ten_kappa - wp_w)
      then (if buffer = [] then None
            else GrisuRound (dec_last buffer) delta (rest + ten_kappa) ten_kappa wp_w)
      else Some buffer)"

definition CountDecimalDigit32 :: "nat \<Rightarrow> nat" where
  "CountDecimalDigit32 n =
     (if n < 10 then 1 else if n < 100 then 2 else if n < 1000 then 3 else if n < 10000 then 4
      else if n < 100000 then 5 else if n < 1000000 then 6 else if n < 10000000 then 7
      else if n < 100000000 then 8 else 9)"

definition put_digit :: "nat \<Rightarrow> string \<Rightarrow> string" where
  "put_digit d buffer = (if d \<noteq> 0 \<or> buffer \<noteq> [] then buffer @ [char_of (48 + d)] else buffer)"

text \<open>The digits after the point: the \<^verbatim>\<open>for (;;)\<close> of \<^verbatim>\<open>DigitGen\<close>; \<open>s\<close> is \<^verbatim>\<open>-one.e\<close>.\<close>

partial_function (option) gen_frac ::
  "nat \<Rightarrow> u64 \<Rightarrow> u64 \<Rightarrow> int \<Rightarrow> u64 \<Rightarrow> string \<Rightarrow> int \<Rightarrow> (string \<times> int) option" where
  "gen_frac s p2 delta kappa wp_w buffer K =
     (let p2 = p2 * 10;
          delta = delta * 10;
          d = unat (drop_bit s p2) mod 256;
          buffer = put_digit d buffer;
          p2 = p2 AND (push_bit s 1 - 1);
          kappa = kappa - 1
      in if p2 < delta
         then map_option (\<lambda>b. (b, K + kappa))
                (GrisuRound buffer delta p2 (push_bit s 1)
                   (wp_w * (if - kappa < 20 then of_nat (10 ^ nat (- kappa)) else 0)))
         else gen_frac s p2 delta kappa wp_w buffer K)"

text \<open>The digits before the point: the \<^verbatim>\<open>while (kappa > 0)\<close> of \<^verbatim>\<open>DigitGen\<close>.\<close>

fun gen_int :: "nat \<Rightarrow> nat \<Rightarrow> nat \<Rightarrow> u64 \<Rightarrow> u64 \<Rightarrow> u64 \<Rightarrow> string \<Rightarrow> int \<Rightarrow> (string \<times> int) option" where
  "gen_int 0 s p1 p2 delta wp_w buffer K = gen_frac s p2 delta 0 wp_w buffer K"
| "gen_int (Suc kappa) s p1 p2 delta wp_w buffer K =
     (let d = p1 div 10 ^ kappa;
          p1 = p1 mod 10 ^ kappa;
          buffer = put_digit d buffer;
          tmp = push_bit s (of_nat p1) + p2
      in if tmp \<le> delta
         then map_option (\<lambda>b. (b, K + int kappa))
                (GrisuRound buffer delta tmp (push_bit s (of_nat (10 ^ kappa))) wp_w)
         else gen_int kappa s p1 p2 delta wp_w buffer K)"

definition DigitGen :: "DiyFp \<Rightarrow> DiyFp \<Rightarrow> u64 \<Rightarrow> int \<Rightarrow> (string \<times> int) option" where
  "DigitGen W Mp delta K =
     (let s = nat (- dp_e Mp);
          wp_w = diy_minus Mp W;
          p1 = unat (drop_bit s (dp_f Mp)) mod 2 ^ 32;
          p2 = dp_f Mp AND (push_bit s 1 - 1)
      in gen_int (CountDecimalDigit32 p1) s p1 p2 delta (dp_f wp_w) [] K)"

definition Grisu2 :: "double \<Rightarrow> (string \<times> int) option" where
  "Grisu2 value =
     (let v = DiyFp_of value;
          (w_m, w_p) = NormalizedBoundaries v;
          (c_mk, K) = GetCachedPower (dp_e w_p);
          W = diy_times (Normalize v) c_mk;
          Wp = diy_times w_p c_mk;
          Wm = diy_times w_m c_mk;
          Wm = Wm\<lparr>dp_f := dp_f Wm + 1\<rparr>;
          Wp = Wp\<lparr>dp_f := dp_f Wp - 1\<rparr>
      in DigitGen W Wp (dp_f Wp - dp_f Wm) K)"

section \<open>Layout\<close>

definition WriteExponent :: "int \<Rightarrow> string" where
  "WriteExponent K0 =
     (let K = nat \<bar>K0\<bar> in
      (if K0 < 0 then ''-'' else []) @
      (if K \<ge> 100 then
         (let r = K mod 100 in [char_of (48 + K div 100), lut (r * 2), lut (r * 2 + 1)])
       else if K \<ge> 10 then [lut (K * 2), lut (K * 2 + 1)]
       else [char_of (48 + K)]))"

text \<open>
  The loops that cut trailing zeros: from index \<open>i\<close> down to, and not including, index \<open>stop\<close>; the
  result is the text up to the place returned.
\<close>

fun cut_zeros :: "string \<Rightarrow> nat \<Rightarrow> nat \<Rightarrow> string" where
  "cut_zeros buffer 0 stop = take (stop + 1) buffer"
| "cut_zeros buffer (Suc i) stop =
     (if Suc i > stop then
        (if buffer ! Suc i \<noteq> CHR ''0'' then take (i + 2) buffer else cut_zeros buffer i stop)
      else take (stop + 1) buffer)"

definition Prettify :: "string \<Rightarrow> int \<Rightarrow> int \<Rightarrow> string" where
  "Prettify digits k maxDecimalPlaces =
     (let len = length digits;
          kk = int len + k
      in if 0 \<le> k \<and> kk \<le> 21 then
           digits @ replicate (nat kk - len) (CHR ''0'') @ ''.0''
         else if 0 < kk \<and> kk \<le> 21 then
           (let buffer = take (nat kk) digits @ ''.'' @ drop (nat kk) digits
            in if 0 > k + maxDecimalPlaces
               then cut_zeros buffer (nat (kk + maxDecimalPlaces)) (nat kk + 1)
               else buffer)
         else if - 6 < kk \<and> kk \<le> 0 then
           (let offset = nat (2 - kk);
                buffer = ''0.'' @ replicate (offset - 2) (CHR ''0'') @ digits
            in if int len - kk > maxDecimalPlaces
               then cut_zeros buffer (nat (maxDecimalPlaces + 1)) 2
               else buffer)
         else if kk < - maxDecimalPlaces then ''0.0''
         else if len = 1 then take 1 digits @ ''e'' @ WriteExponent (kk - 1)
         else take 1 digits @ ''.'' @ drop 1 digits @ ''e'' @ WriteExponent (kk - 1))"

definition dtoa :: "double \<Rightarrow> int \<Rightarrow> string option" where
  "dtoa value maxDecimalPlaces =
     (if IsZero (double_bits value) then
        Some ((if Sign (double_bits value) then ''-'' else []) @ ''0.0'')
      else
        (let neg = dlt value dzero;
             value = (if neg then dneg value else value)
         in map_option (\<lambda>(digits, K). (if neg then ''-'' else []) @ Prettify digits K maxDecimalPlaces)
              (Grisu2 value)))"

section \<open>The layout reads back\<close>

lemma tolower_digit: "is_digit c \<Longrightarrow> tolower c = c"
  by (auto simp: is_digit_def tolower_def)

lemma digit_differs:
  "is_digit c \<Longrightarrow> c \<noteq> CHR ''i'' \<and> c \<noteq> CHR ''n'' \<and> c \<noteq> CHR ''x'' \<and> c \<noteq> CHR ''.'' \<and> c \<noteq> CHR ''e'' \<and> c \<noteq> CHR 0x00"
  by (auto simp: is_digit_def)

text \<open>A decimal text that starts with a digit, as \<^verbatim>\<open>atof\<close> reads it.\<close>

lemma atof_decimal:
  assumes s: "s = c # r" and c: "is_digit c" and x: "r = [] \<or> tolower (hd r) \<noteq> CHR ''x''"
    and nul: "CHR 0x00 \<notin> set s" and split: "point_split is_digit s = (ip, fp, e)"
  shows "atof s = (case power_ratio (dec_to_nat (ip @ fp)) 10 (exponent_part (CHR ''e'') e - int (length fp))
    of (p, q) \<Rightarrow> round_ratio False p q)"
proof -
  have ne: "ip \<noteq> []"
    using split s c by (auto simp: point_split_def Let_def split: list.splits if_splits)
  have pre: "\<not> is_prefix ''inf'' (map tolower s)" "\<not> is_prefix ''nan'' (map tolower s)"
    using s tolower_digit [OF c] digit_differs [OF c] by auto
  have hex: "\<not> is_prefix ''0x'' (map tolower s)"
    using s x by (cases r) auto
  have sp: "dropWhile is_space s = s" "hd s \<noteq> CHR ''-''" "hd s \<noteq> CHR ''+''"
    using s c digit_not_space [OF c] digit_not_sign [OF c] by auto
  show ?thesis
    unfolding atof_def c_str_no_nul [OF nul] strtod_def Let_def sp(1)
    using pre hex sp(2,3) ne by (simp add: split power_ratio_def split_def Let_def)
qed

lemma point_split_point:
  assumes "\<forall>c\<in>set ip. is_digit c" and "\<forall>c\<in>set fp. is_digit c" and "r = [] \<or> \<not> is_digit (hd r)"
  shows "point_split is_digit (ip @ CHR ''.'' # fp @ r) = (ip, fp, r)"
proof -
  have "\<not> is_digit (CHR ''.'')" by (simp add: is_digit_def)
  moreover have "takeWhile is_digit r = []" "dropWhile is_digit r = r"
    using assms(3) by (cases r; simp)+
  ultimately show ?thesis
    using assms(1,2) by (simp add: point_split_def Let_def)
qed

lemma point_split_plain:
  assumes "\<forall>c\<in>set ip. is_digit c" and "\<not> is_digit c" and "c \<noteq> CHR ''.''"
  shows "point_split is_digit (ip @ c # r) = (ip, [], c # r)"
  using assms by (simp add: point_split_def Let_def)

lemma digit_char_ord: "d < 10 \<Longrightarrow> char_of (48 + d) = digit_char d"
  by (simp add: digit_char_def)

lemma WriteExponent_dec:
  assumes "\<bar>K\<bar> < 1000" shows "WriteExponent K = int_to_dec K"
proof -
  let ?n = "nat \<bar>K\<bar>"
  have n: "?n < 1000" using assms by simp
  have "(if ?n \<ge> 100 then (let r = ?n mod 100 in [char_of (48 + ?n div 100), lut (r * 2), lut (r * 2 + 1)])
       else if ?n \<ge> 10 then [lut (?n * 2), lut (?n * 2 + 1)] else [char_of (48 + ?n)]) = nat_to_dec ?n"
    using n by (auto simp: Let_def dec_below_1000 dec_below_100 small_dec digit_char_ord
        div_less_iff_less_mult mult.commute)
  then show ?thesis
    by (auto simp: WriteExponent_def Let_def int_to_dec_def)
qed

lemma exponent_part_int:
  "exponent_part (CHR ''e'') (CHR ''e'' # int_to_dec K) = K"
proof -
  have d: "takeWhile is_digit (nat_to_dec n) = nat_to_dec n" for n
    using digits_nat_to_dec [of n] by (simp add: takeWhile_eq_all_conv)
  have h: "hd (nat_to_dec n) \<noteq> CHR ''-'' \<and> hd (nat_to_dec n) \<noteq> CHR ''+''" for n
    using digits_nat_to_dec [of n] digit_not_sign hd_in_set [OF nat_to_dec_nonempty [of n]] by blast
  show ?thesis
    using h [of "nat K"] by (simp add: exponent_part_def int_to_dec_def Let_def d tolower_def)
qed

lemma dec_to_nat_append_zeros: "dec_to_nat (s @ replicate n (CHR ''0'')) = dec_to_nat s * 10 ^ n"
proof (induction n)
  case (Suc n)
  then have "dec_to_nat ((s @ replicate n (CHR ''0'')) @ [CHR ''0'']) = dec_to_nat s * 10 ^ Suc n"
    unfolding dec_to_nat_snoc by (simp add: digit_val_def)
  then show ?case by (simp add: replicate_append_same)
qed simp

lemma is_digit_0 [simp]: "is_digit (CHR ''0'')"
  by (simp add: is_digit_def)

text \<open>The layouts of \<^verbatim>\<open>Prettify\<close> without truncation.\<close>

lemma Prettify_default:
  assumes "- 324 \<le> k" and "digits \<noteq> []"
  shows "Prettify digits k 324 =
    (let kk = int (length digits) + k in
     if 0 \<le> k \<and> kk \<le> 21 then digits @ replicate (nat k) (CHR ''0'') @ ''.0''
     else if 0 < kk \<and> kk \<le> 21 then take (nat kk) digits @ ''.'' @ drop (nat kk) digits
     else if - 6 < kk \<and> kk \<le> 0 then ''0.'' @ replicate (nat (- kk)) (CHR ''0'') @ digits
     else if length digits = 1 then digits @ ''e'' @ WriteExponent (kk - 1)
     else take 1 digits @ ''.'' @ drop 1 digits @ ''e'' @ WriteExponent (kk - 1))"
proof -
  have "nat (int (length digits) + k) - length digits = nat k"
    "nat (2 - (int (length digits) + k)) - 2 = nat (- (int (length digits) + k))" by simp_all
  moreover have "0 < length digits" using assms(2) by simp
  ultimately show ?thesis
    using assms(1) by (simp add: Prettify_def Let_def take_Suc)
qed

lemma nat_to_dec_no_nul: "CHR 0x00 \<notin> set (nat_to_dec n)"
proof
  assume "CHR 0x00 \<in> set (nat_to_dec n)"
  then have "is_digit (CHR 0x00)" using digits_nat_to_dec by blast
  then show False by (simp add: is_digit_def)
qed

lemma int_to_dec_no_nul: "CHR 0x00 \<notin> set (int_to_dec K)"
  using nat_to_dec_no_nul by (simp add: int_to_dec_def)

text \<open>The value of a text with a point, and of one with an exponent.\<close>

lemma atof_point:
  assumes ip: "ip \<noteq> []" "\<forall>c\<in>set ip. is_digit c" and fp: "\<forall>c\<in>set fp. is_digit c"
    and ex: "ex = [] \<and> K = 0 \<or> ex = CHR ''e'' # int_to_dec K"
  shows "atof (ip @ CHR ''.'' # fp @ ex) =
    round_ratio False (dec_to_nat (ip @ fp) * 10 ^ nat (K - int (length fp))) (10 ^ nat (int (length fp) - K))"
proof -
  obtain c r where cr: "ip = c # r" using ip by (cases ip) auto
  have c: "is_digit c" using ip cr by simp
  have nod: "\<not> is_digit (CHR ''e'')" by (simp add: is_digit_def)
  have sp: "point_split is_digit (ip @ CHR ''.'' # fp @ ex) = (ip, fp, ex)"
    using ex nod by (intro point_split_point ip fp) auto
  have x: "r @ CHR ''.'' # fp @ ex = [] \<or> tolower (hd (r @ CHR ''.'' # fp @ ex)) \<noteq> CHR ''x''"
  proof (cases r)
    case (Cons d r')
    then have "is_digit d" using ip cr by simp
    then show ?thesis using tolower_digit digit_differs Cons by auto
  qed (simp add: tolower_def)
  have "CHR 0x00 \<notin> set ip" "CHR 0x00 \<notin> set fp" using ip fp digit_differs by blast+
  then have n: "CHR 0x00 \<notin> set (ip @ CHR ''.'' # fp @ ex)" using ex int_to_dec_no_nul by auto
  have e: "exponent_part (CHR ''e'') ex = K" using ex exponent_part_int by (auto simp: exponent_part_def)
  have s: "ip @ CHR ''.'' # fp @ ex = c # r @ CHR ''.'' # fp @ ex" using cr by simp
  show ?thesis
    unfolding atof_decimal [OF s c x n sp] power_ratio_def e
    by simp
qed

lemma atof_exponent:
  assumes c: "is_digit c"
  shows "atof (c # CHR ''e'' # int_to_dec K) = round_ratio False (dec_to_nat [c] * 10 ^ nat K) (10 ^ nat (- K))"
proof -
  have nod: "\<not> is_digit (CHR ''e'')" by (simp add: is_digit_def)
  have sp: "point_split is_digit (c # CHR ''e'' # int_to_dec K) = ([c], [], CHR ''e'' # int_to_dec K)"
    using point_split_plain [of "[c]" "CHR ''e''" "int_to_dec K"] c nod by simp
  have x: "CHR ''e'' # int_to_dec K = [] \<or> tolower (hd (CHR ''e'' # int_to_dec K)) \<noteq> CHR ''x''"
    by (simp add: tolower_def)
  have n: "CHR 0x00 \<notin> set (c # CHR ''e'' # int_to_dec K)"
    using digit_differs [OF c] int_to_dec_no_nul by (simp add: eq_commute [of "CHR 0x00"])
  show ?thesis
    unfolding atof_decimal [OF refl c x n sp] power_ratio_def exponent_part_int by simp
qed

text \<open>
  C25. Reading back what \<^verbatim>\<open>Prettify\<close> lays out gives the number it was given: for a nonempty list of
  digits and a decimal exponent in range, \<^verbatim>\<open>atof\<close> of the text (plain, with a point, with leading zeros,
  or with an exponent) is the double nearest to digits times ten to the exponent.
\<close>

theorem Prettify_reads_back:
  assumes k: "- 324 \<le> k" and ne: "digits \<noteq> []" and dig: "\<forall>c\<in>set digits. is_digit c"
    and big: "\<bar>int (length digits) + k - 1\<bar> < 1000"
  shows "atof (Prettify digits k 324) =
    round_ratio False (dec_to_nat digits * 10 ^ nat k) (10 ^ nat (- k))"
proof -
  define kk where "kk = int (length digits) + k"
  note P = Prettify_default [OF k ne, folded kk_def, unfolded Let_def, folded kk_def]
  obtain c r where cr: "digits = c # r" using ne by (cases digits) auto
  have c: "is_digit c" and r: "\<forall>c\<in>set r. is_digit c" using dig cr by auto
  have E: "WriteExponent (kk - 1) = int_to_dec (kk - 1)" using big by (simp add: WriteExponent_dec kk_def)
  have l1: "1 \<le> length digits" using ne by (cases digits) auto
  consider "0 \<le> k \<and> kk \<le> 21" | "\<not> (0 \<le> k \<and> kk \<le> 21)" "0 < kk \<and> kk \<le> 21"
    | "- 6 < kk \<and> kk \<le> 0" | "\<not> (- 6 < kk \<and> kk \<le> 21)" "length digits = 1"
    | "\<not> (- 6 < kk \<and> kk \<le> 21)" "length digits \<noteq> 1" by linarith
  then show ?thesis
  proof cases
    case 1
    have z: "\<forall>c\<in>set (digits @ replicate (nat k) (CHR ''0'')). is_digit c" using dig by auto
    have d: "dec_to_nat ((digits @ replicate (nat k) (CHR ''0'')) @ ''0'') = dec_to_nat digits * 10 ^ Suc (nat k)"
      using dec_to_nat_append_zeros [of digits "Suc (nat k)"] by (simp add: replicate_append_same)
    have "atof (Prettify digits k 324) = round_ratio False (dec_to_nat digits * 10 ^ Suc (nat k)) 10"
      using atof_point [of _ "''0''" "[]" 0, OF _ z, unfolded d] 1 ne P by simp
    also have "\<dots> = round_ratio False (dec_to_nat digits * 10 ^ nat k) (10 ^ nat (- k))"
      using 1 by (intro round_ratio_cong) simp_all
    finally show ?thesis .
  next
    case 2
    then have h: "take (nat kk) digits \<noteq> []" "int (length (drop (nat kk) digits)) = - k"
      using ne by (auto simp: kk_def)
    have all: "\<forall>c\<in>set (take (nat kk) digits). is_digit c" "\<forall>c\<in>set (drop (nat kk) digits). is_digit c"
      using dig by (auto dest: in_set_takeD in_set_dropD)
    show ?thesis
      using atof_point [OF h(1) all, of "[]" 0, unfolded h(2)] 2 P by simp
  next
    case 3
    let ?z = "replicate (nat (- kk)) (CHR ''0'') @ digits"
    have z: "\<forall>c\<in>set ?z. is_digit c" "\<forall>c\<in>set ''0''. is_digit c" using dig by auto
    have l: "int (length ?z) = - k" using 3 by (simp add: kk_def)
    have d: "dec_to_nat (''0'' @ ?z) = dec_to_nat digits"
      using dec_to_nat_zeros [of "Suc (nat (- kk))" digits] by simp
    have k0: "\<not> 0 \<le> k" "\<not> 0 < kk" using 3 l1 by (auto simp: kk_def)
    show ?thesis
      using atof_point [OF _ z(2,1), of "[]" 0, unfolded l d] 3 k0 P by simp
  next
    case 4
    then have k0: "kk - 1 = k" "\<not> (0 \<le> k \<and> kk \<le> 21)" "\<not> (0 < kk \<and> kk \<le> 21)"
      "\<not> (- 6 < kk \<and> kk \<le> 0)" "digits = [c]" using cr by (auto simp: kk_def)
    have "Prettify digits k 324 = digits @ ''e'' @ WriteExponent (kk - 1)"
      unfolding P using k0(2-4) 4(2) by (simp only: if_False if_True simp_thms)
    then show ?thesis using atof_exponent [OF c, of k] k0(1,5) E by simp
  next
    case 5
    have h: "\<forall>x\<in>set [c]. is_digit x" "kk - 1 - int (length r) = k" "[c] @ r = digits"
      "int (length r) - (kk - 1) = - k" using c cr by (auto simp: kk_def)
    have "Prettify digits k 324 = take 1 digits @ ''.'' @ drop 1 digits @ ''e'' @ int_to_dec (kk - 1)"
      using 5 P E l1 by (auto simp: kk_def)
    then have "Prettify digits k 324 = [c] @ CHR ''.'' # r @ CHR ''e'' # int_to_dec (kk - 1)"
      using cr by simp
    then show ?thesis
      using atof_point [OF _ h(1) r, of "CHR ''e'' # int_to_dec (kk - 1)" "kk - 1", unfolded h(2,3,4)] by simp
  qed
qed

lemma length_int_to_dec: "\<bar>K\<bar> < 1000 \<Longrightarrow> length (int_to_dec K) \<le> 4"
  using length_nat_to_dec_le [of "nat \<bar>K\<bar>" 3]
  by (cases "K < 0") (simp_all add: int_to_dec_def nat_less_iff)

text \<open>
  C39. The text of at most 17 digits takes at most 24 characters in each of the layouts, so with the
  sign it fits into the 25 bytes that \<^verbatim>\<open>Writer::WriteDouble\<close> reserves for it.
\<close>

theorem Prettify_fits_buffer:
  assumes k: "- 324 \<le> k" and ne: "digits \<noteq> []" and len: "length digits \<le> 17"
    and big: "\<bar>int (length digits) + k - 1\<bar> < 1000"
  shows "length (Prettify digits k 324) \<le> 24"
proof -
  have "length (WriteExponent (int (length digits) + k - 1)) \<le> 4"
    using big length_int_to_dec by (simp add: WriteExponent_dec)
  then show ?thesis
    using len ne by (auto simp: Prettify_default [OF k ne] Let_def split: if_splits)
qed

theorem Prettify_reads_back_witness:
  "atof (Prettify ''199'' (- 1) 324) = round_ratio False 199 10 \<and>
   atof (Prettify ''5'' (- 324) 324) = round_ratio False 5 (10 ^ 324)"
  using Prettify_reads_back [of "- 1" "''199''"] Prettify_reads_back [of "- 324" "''5''"]
  by (simp add: is_digit_def dec_to_nat_def digit_val_def del: power_numeral)

theorem Prettify_fits_buffer_witness:
  "length (Prettify ''17976931348623157'' 292 324) \<le> 24"
  using Prettify_fits_buffer [of 292 "''17976931348623157''"] by simp

section \<open>The digit generation returns\<close>

lemma GrisuRound_returns:
  assumes "rest \<le> delta" and "0 < ten_kappa" and "buffer \<noteq> []"
  shows "\<exists>b. GrisuRound buffer delta rest ten_kappa wp_w = Some b \<and> length b = length buffer"
  using assms
proof (induction "unat (delta - rest)" arbitrary: rest buffer rule: less_induct)
  case less
  show ?case
  proof (cases "rest < wp_w \<and> delta - rest \<ge> ten_kappa \<and>
      (rest + ten_kappa < wp_w \<or> wp_w - rest > rest + ten_kappa - wp_w)")
    case True
    then have k: "ten_kappa \<le> delta - rest" by simp
    then have u: "unat ten_kappa \<le> unat delta - unat rest" "unat (delta - rest) = unat delta - unat rest"
      using less.prems(1) by (simp_all add: word_le_nat_alt unat_sub)
    have pos: "0 < unat ten_kappa" "unat rest \<le> unat delta"
      using less.prems by (simp_all add: word_less_nat_alt word_le_nat_alt)
    then have s: "unat (rest + ten_kappa) = unat rest + unat ten_kappa"
      using u(1) unat_u64_less [of delta] unat_u64_less [of rest] by (intro unat_add_lem [THEN iffD1]) simp
    then have le: "rest + ten_kappa \<le> delta" using u pos by (simp add: word_le_nat_alt)
    have "unat (delta - (rest + ten_kappa)) < unat (delta - rest)"
      using le s u pos by (simp add: unat_sub)
    moreover have "dec_last buffer \<noteq> []" "length (dec_last buffer) = length buffer"
      using less.prems(3) by (auto simp: dec_last_def)
    ultimately show ?thesis
      using less.hyps [OF _ le less.prems(2), of "dec_last buffer"] True less.prems(3)
      by (subst GrisuRound.simps) auto
  next
    case False
    then show ?thesis by (subst GrisuRound.simps) auto
  qed
qed

lemma put_digit_nonempty: "d \<noteq> 0 \<or> b \<noteq> [] \<Longrightarrow> put_digit d b \<noteq> []"
  by (simp add: put_digit_def)

lemma unat_low_mask:
  "s < 64 \<Longrightarrow> unat (x AND (push_bit s 1 - 1) :: u64) < 2 ^ s"
proof -
  assume "s < 64"
  have "x AND (push_bit s 1 - 1) = take_bit s x"
    by (simp add: take_bit_eq_mask mask_eq_exp_minus_1 push_bit_eq_mult)
  then show ?thesis by (simp add: unsigned_take_bit_eq take_bit_nat_less_exp)
qed

lemma unat_one_shift: "s < 64 \<Longrightarrow> unat (push_bit s 1 :: u64) = 2 ^ s"
proof -
  assume "s < 64"
  then have "(2::nat) ^ s < 2 ^ 64" by (intro power_strict_increasing) auto
  moreover have "(push_bit s 1 :: u64) = of_nat (2 ^ s)" by (simp add: push_bit_eq_mult)
  ultimately show ?thesis by (simp only: unat_of_nat) (simp add: take_bit_nat_eq_self)
qed

lemma gen_frac_returns:
  assumes "0 < s" "s \<le> 60" "p2 < push_bit s 1" "1 \<le> delta" "delta \<le> p2" "buffer \<noteq> []"
  shows "\<exists>b k. gen_frac s p2 delta kappa wp_w buffer K = Some (b, k) \<and> b \<noteq> []"
  using assms
proof (induction "2 ^ 60 - unat delta" arbitrary: p2 delta kappa buffer rule: less_induct)
  case less
  have one: "unat (push_bit s 1 :: u64) = 2 ^ s"
    using less.prems(2) by (intro unat_one_shift) simp
  have pow: "(2::nat) ^ s \<le> 2 ^ 60" using less.prems(2) by (intro power_increasing) auto
  have d: "unat delta < 2 ^ s" "0 < unat delta"
    using less.prems(3-5) one by (auto simp: word_less_nat_alt word_le_nat_alt)
  have d10: "unat (delta * 10) = unat delta * 10"
    using d pow by (subst unat_mult_lem [THEN iffD1]) simp_all
  define q where "q = p2 * 10 AND (push_bit s 1 - 1)"
  define buf where "buf = put_digit (unat (drop_bit s (p2 * 10)) mod 256) buffer"
  have buf: "buf \<noteq> []" using less.prems(6) by (simp add: buf_def put_digit_def)
  have q: "q < push_bit s 1"
    using unat_low_mask [of s "p2 * 10"] less.prems(2) one by (simp add: q_def word_less_nat_alt)
  show ?case
  proof (cases "q < delta * 10")
    case True
    have "0 < (push_bit s 1 :: u64)" using one by (simp add: word_less_nat_alt)
    from GrisuRound_returns [OF _ this buf, of q "delta * 10"] True buf
    obtain b where "GrisuRound buf (delta * 10) q (push_bit s 1)
        (wp_w * (if - (kappa - 1) < 20 then of_nat (10 ^ nat (- (kappa - 1))) else 0)) = Some b" "b \<noteq> []"
      by force
    then show ?thesis
      unfolding gen_frac.simps [of s p2] Let_def q_def [symmetric] buf_def [symmetric] using True by auto
  next
    case False
    then have le: "delta * 10 \<le> q" by simp
    have "2 ^ 60 - unat (delta * 10) < 2 ^ 60 - unat delta" using d10 d pow by simp
    moreover have "1 \<le> delta * 10" using d10 d by (simp add: word_le_nat_alt)
    ultimately have "\<exists>b k. gen_frac s q (delta * 10) (kappa - 1) wp_w buf K = Some (b, k) \<and> b \<noteq> []"
      using less.hyps less.prems(1,2) q le buf by blast
    then show ?thesis
      unfolding gen_frac.simps [of s p2] Let_def q_def [symmetric] buf_def [symmetric] using False by simp
  qed
qed

lemma gen_int_returns:
  assumes "0 < s" "s \<le> 60" "p2 < push_bit s 1" "1 \<le> delta"
    and "buffer \<noteq> [] \<or> 0 < kappa \<and> 10 ^ (kappa - 1) \<le> p1"
    and "kappa = 0 \<longrightarrow> p1 = 0 \<and> delta < p2" and "10 ^ (kappa - 1) * 2 ^ s < (2 :: nat) ^ 64"
  shows "\<exists>b k. gen_int kappa s p1 p2 delta wp_w buffer K = Some (b, k) \<and> b \<noteq> []"
  using assms
proof (induction kappa arbitrary: p1 buffer)
  case 0
  then show ?case using gen_frac_returns [of s p2 delta buffer 0 wp_w K] by auto
next
  case (Suc kappa)
  define buf where "buf = put_digit (p1 div 10 ^ kappa) buffer"
  define tmp where "tmp = push_bit s (of_nat (p1 mod 10 ^ kappa)) + p2"
  have "p1 div 10 ^ kappa \<noteq> 0 \<or> buffer \<noteq> []"
    using Suc.prems(5) by (auto simp: div_eq_0_iff)
  then have buf: "buf \<noteq> []" by (simp add: buf_def put_digit_nonempty)
  have "(push_bit s (of_nat (10 ^ kappa)) :: u64) = of_nat (10 ^ kappa * 2 ^ s)" by (simp add: push_bit_eq_mult)
  moreover have "unat (of_nat (10 ^ kappa * 2 ^ s) :: u64) = 10 ^ kappa * 2 ^ s"
    using Suc.prems(7) by (simp only: unat_of_nat) (simp add: take_bit_nat_eq_self)
  ultimately have one: "0 < (push_bit s (of_nat (10 ^ kappa)) :: u64)" by (simp add: word_less_nat_alt)
  have low: "10 ^ (kappa - 1) * 2 ^ s < (2 :: nat) ^ 64"
    using Suc.prems(7) by (intro le_less_trans [OF _ Suc.prems(7)] mult_right_mono power_increasing) auto
  show ?case
  proof (cases "tmp \<le> delta")
    case True
    from GrisuRound_returns [OF this one buf, of wp_w] buf
    obtain b where "GrisuRound buf delta tmp (push_bit s (of_nat (10 ^ kappa))) wp_w = Some b" "b \<noteq> []"
      by force
    then show ?thesis using True by (simp add: Let_def buf_def [symmetric] tmp_def [symmetric])
  next
    case False
    have z: "kappa = 0 \<longrightarrow> p1 mod 10 ^ kappa = 0 \<and> delta < p2" using False by (auto simp: tmp_def)
    from Suc.IH [OF Suc.prems(1-4) _ z low] buf False
    show ?thesis by (simp add: Let_def buf_def [symmetric] tmp_def [symmetric])
  qed
qed

lemma CountDecimalDigit32_bound:
  assumes "0 < n"
  shows "0 < CountDecimalDigit32 n \<and> 10 ^ (CountDecimalDigit32 n - 1) \<le> n"
  using assms by (simp add: CountDecimalDigit32_def)

text \<open>
  C26. The digit generation of Grisu2 returns, with at least one digit, whenever the upper boundary has
  its integral part in the upper 32 bits (a binary exponent between -60 and -32, which is where the cached
  powers of ten put it) and the interval is not empty: neither loop of \<^verbatim>\<open>DigitGen\<close> nor the one of
  \<^verbatim>\<open>GrisuRound\<close> runs forever, although the 64-bit products in them may wrap.
\<close>

theorem DigitGen_returns:
  assumes "32 \<le> s" "s \<le> 60" "dp_e Mp = - int s" "push_bit s 1 \<le> dp_f Mp" "1 \<le> delta"
  shows "\<exists>b k. DigitGen W Mp delta K = Some (b, k) \<and> b \<noteq> []"
proof -
  define p1 where "p1 = unat (drop_bit s (dp_f Mp)) mod 2 ^ 32"
  define p2 where "p2 = dp_f Mp AND (push_bit s 1 - 1)"
  have one: "unat (push_bit s 1 :: u64) = 2 ^ s" using assms(2) by (intro unat_one_shift) simp
  have f: "2 ^ s \<le> unat (dp_f Mp)" using assms(4) one by (simp add: word_le_nat_alt)
  have pw: "(2::nat) ^ 64 \<le> 2 ^ 32 * 2 ^ s" using assms(1) by (subst power_add [symmetric], intro power_increasing) auto
  then have "unat (dp_f Mp) div 2 ^ s < 2 ^ 32"
    using unat_u64_less [of "dp_f Mp"] by (simp add: div_less_iff_less_mult)
  then have p1: "p1 = unat (dp_f Mp) div 2 ^ s"
    unfolding p1_def unat_drop_bit by simp
  then have pos: "0 < p1" using f by (simp add: div_greater_zero_iff)
  have k: "0 < CountDecimalDigit32 p1" "10 ^ (CountDecimalDigit32 p1 - 1) \<le> p1"
    using CountDecimalDigit32_bound [OF pos] by auto
  have "10 ^ (CountDecimalDigit32 p1 - 1) * 2 ^ s \<le> p1 * 2 ^ s" using k by (intro mult_right_mono) auto
  also have "\<dots> \<le> unat (dp_f Mp)" by (simp add: p1)
  finally have big: "10 ^ (CountDecimalDigit32 p1 - 1) * 2 ^ s < (2::nat) ^ 64"
    using unat_u64_less [of "dp_f Mp"] by simp
  have p2: "p2 < push_bit s 1"
    using unat_low_mask [of s "dp_f Mp"] assms(2) one by (simp add: p2_def word_less_nat_alt)
  have s: "nat (- dp_e Mp) = s" "0 < s" using assms(1,3) by simp_all
  have "\<exists>b k. gen_int (CountDecimalDigit32 p1) s p1 p2 delta (dp_f (diy_minus Mp W)) [] K = Some (b, k) \<and> b \<noteq> []"
    using gen_int_returns [OF s(2) assms(2) p2 assms(5) _ _ big] k by simp
  then show ?thesis
    unfolding DigitGen_def Let_def s(1) p1_def [symmetric] p2_def [symmetric] .
qed

theorem DigitGen_returns_witness:
  "\<exists>b k. DigitGen \<lparr>dp_f = 0x8000000000000000, dp_e = - 50\<rparr> \<lparr>dp_f = 0x8000000000000400, dp_e = - 50\<rparr> 0x800 0
     = Some (b, k) \<and> b \<noteq> []"
  using DigitGen_returns [of 50 "\<lparr>dp_f = 0x8000000000000400, dp_e = - 50\<rparr>" "0x800"] by simp

end
