(* ===== verification/Unicode.thy ===== *)
theory Unicode
  imports Cstd
begin

text \<open>
  The input stream of the RapidJSON reader (rapidjson/stream.h, \<^verbatim>\<open>GenericStringStream\<close>) and the
  UTF-8 encoding (rapidjson/encodings.h, \<^verbatim>\<open>struct UTF8\<close>). A code point is a natural number; the
  32-bit \<^verbatim>\<open>unsigned\<close> of the source never overflows, since a decoded code point has at most 21 bits.
\<close>

unbundle bit_operations_syntax

section \<open>The string stream\<close>

text \<open>
  \<open>src\<close> holds what is left of the C string before its terminating NUL, \<open>tell\<close> how far the read
  position is from the head. Behind the end the stream shows the terminator.
\<close>

record istream =
  src :: string
  tell :: nat

definition StringStream :: "string \<Rightarrow> istream" where
  "StringStream s = \<lparr>src = s, tell = 0\<rparr>"

definition Peek :: "istream \<Rightarrow> char" where
  "Peek is = (case src is of [] \<Rightarrow> CHR 0x00 | c # _ \<Rightarrow> c)"

definition Take :: "istream \<Rightarrow> istream" where
  "Take is = is\<lparr>src := tl (src is), tell := tell is + 1\<rparr>"

lemma Peek_Cons [simp]: "Peek \<lparr>src = c # r, tell = n\<rparr> = c"
  by (simp add: Peek_def)

lemma Peek_Nil [simp]: "Peek \<lparr>src = [], tell = n\<rparr> = CHR 0x00"
  by (simp add: Peek_def)

lemma Take_Cons [simp]: "Take \<lparr>src = c # r, tell = n\<rparr> = \<lparr>src = r, tell = n + 1\<rparr>"
  by (simp add: Take_def)

section \<open>UTF-8\<close>

definition ch :: "nat \<Rightarrow> char" where
  "ch n = char_of n"

definition Encode :: "nat \<Rightarrow> string" where
  "Encode codepoint =
     (if codepoint \<le> 0x7F then [ch (codepoint AND 0xFF)]
      else if codepoint \<le> 0x7FF then
        [ch (0xC0 OR (drop_bit 6 codepoint AND 0xFF)), ch (0x80 OR (codepoint AND 0x3F))]
      else if codepoint \<le> 0xFFFF then
        [ch (0xE0 OR (drop_bit 12 codepoint AND 0xFF)), ch (0x80 OR (drop_bit 6 codepoint AND 0x3F)),
         ch (0x80 OR (codepoint AND 0x3F))]
      else
        [ch (0xF0 OR (drop_bit 18 codepoint AND 0xFF)), ch (0x80 OR (drop_bit 12 codepoint AND 0x3F)),
         ch (0x80 OR (drop_bit 6 codepoint AND 0x3F)), ch (0x80 OR (codepoint AND 0x3F))])"

definition range_type :: "nat list" where
  "range_type =
     replicate 128 0 @ replicate 16 0x10 @ replicate 16 0x40 @ replicate 32 0x20 @
     [8, 8, 2, 2, 2, 2, 2, 2, 2, 2, 2, 2, 2, 2, 2, 2, 2, 2, 2, 2, 2, 2, 2, 2, 2, 2, 2, 2, 2, 2, 2, 2] @
     [10, 3, 3, 3, 3, 3, 3, 3, 3, 3, 3, 3, 3, 4, 3, 3, 11, 6, 6, 6, 5, 8, 8, 8, 8, 8, 8, 8, 8, 8, 8, 8]"

definition GetRange :: "nat \<Rightarrow> nat" where
  "GetRange c = range_type ! c"

text \<open>The masks that the \<^verbatim>\<open>switch\<close> over the type of the first byte tests the following bytes with.\<close>

definition tail_masks :: "nat \<Rightarrow> nat list option" where
  "tail_masks type =
     (if type = 2 then Some [0x70]
      else if type = 3 then Some [0x70, 0x70]
      else if type = 4 then Some [0x50, 0x70]
      else if type = 5 then Some [0x10, 0x70, 0x70]
      else if type = 6 then Some [0x70, 0x70, 0x70]
      else if type = 10 then Some [0x20, 0x70]
      else if type = 11 then Some [0x60, 0x70, 0x70]
      else None)"

text \<open>\<^verbatim>\<open>RAPIDJSON_COPY(); RAPIDJSON_TRANS(mask)\<close> of \<^verbatim>\<open>Decode\<close>.\<close>

definition decode_tail :: "nat \<Rightarrow> bool \<times> nat \<times> istream \<Rightarrow> bool \<times> nat \<times> istream" where
  "decode_tail m st =
     (case st of (result, codepoint, is) \<Rightarrow>
        let c = of_char (Peek is)
        in (result \<and> GetRange c AND m \<noteq> 0, push_bit 6 codepoint OR (c AND 0x3F), Take is))"

definition Decode :: "istream \<Rightarrow> bool \<times> nat \<times> istream" where
  "Decode is =
     (let c = of_char (Peek is); is = Take is
      in if c AND 0x80 = 0 then (True, c, is)
         else let type = GetRange c;
                  codepoint = (if type \<ge> 32 then 0 else drop_bit type 0xFF AND c)
              in case tail_masks type of
                   None \<Rightarrow> (False, codepoint, is)
                 | Some ms \<Rightarrow> fold decode_tail ms (True, codepoint, is))"

text \<open>\<^verbatim>\<open>Validate\<close> copies the bytes it reads to the output.\<close>

definition validate_tail :: "nat \<Rightarrow> bool \<times> istream \<times> string \<Rightarrow> bool \<times> istream \<times> string" where
  "validate_tail m st =
     (case st of (result, is, os) \<Rightarrow>
        (result \<and> GetRange (of_char (Peek is)) AND m \<noteq> 0, Take is, os @ [Peek is]))"

definition Validate :: "istream \<Rightarrow> string \<Rightarrow> bool \<times> istream \<times> string" where
  "Validate is os =
     (let c = Peek is; is = Take is; os = os @ [c]
      in if of_char c AND (0x80 :: nat) = 0 then (True, is, os)
         else case tail_masks (GetRange (of_char c)) of
                None \<Rightarrow> (False, is, os)
              | Some ms \<Rightarrow> fold validate_tail ms (True, is, os))"

definition utf8_bom :: string where
  "utf8_bom = [ch 0xEF, ch 0xBB, ch 0xBF]"

text \<open>\<^verbatim>\<open>TakeBOM\<close>: the character it returns, and the stream behind it.\<close>

definition TakeBOM :: "istream \<Rightarrow> char \<times> istream" where
  "TakeBOM is =
     (let c = Peek is; is = Take is in
      if c \<noteq> ch 0xEF then (c, is) else
      let c = Peek is; is = Take is in
      if c \<noteq> ch 0xBB then (c, is) else
      let c = Peek is; is = Take is in
      if c \<noteq> ch 0xBF then (c, is) else (Peek is, Take is))"

section \<open>Decoding inverts encoding\<close>

text \<open>The code points that have an encoding: no surrogates.\<close>

definition scalar_value :: "nat \<Rightarrow> bool" where
  "scalar_value cp \<longleftrightarrow> cp < 0xD800 \<or> 0xE000 \<le> cp \<and> cp < 0x110000"

lemma bit_above: "b < 2 ^ k \<Longrightarrow> bit (b::nat) n \<Longrightarrow> n < k"
proof (rule ccontr)
  assume b: "b < 2 ^ k" "bit b n" "\<not> n < k"
  have "b < 2 ^ n" using b(1) power_increasing [of k n "2::nat"] b(3) by linarith
  then have "b div 2 ^ n = 0" by (rule div_less)
  then show False using b(2) by (simp add: bit_iff_odd)
qed

lemma or_plus: "b < 2 ^ k \<Longrightarrow> push_bit k a OR b = push_bit k a + (b::nat)"
proof -
  assume "b < 2 ^ k"
  then have "\<not> bit b n" if "k \<le> n" for n using bit_above that by fastforce
  then show ?thesis by (intro disjunctive_add [symmetric]) (auto simp: bit_simps)
qed

lemma and_63: "n AND 63 = n mod (64::nat)"
  using take_bit_eq_mask [of 6 n] by (simp add: mask_eq_exp_minus_1 take_bit_eq_mod)

lemma and_255: "n AND 255 = n mod (256::nat)"
  using take_bit_eq_mask [of 8 n] by (simp add: mask_eq_exp_minus_1 take_bit_eq_mod)

lemma or_lead:
  "b < 64 \<Longrightarrow> 0x80 OR b = 0x80 + (b::nat)" "b < 32 \<Longrightarrow> 0xC0 OR b = 0xC0 + (b::nat)"
  "b < 16 \<Longrightarrow> 0xE0 OR b = 0xE0 + (b::nat)" "b < 8 \<Longrightarrow> 0xF0 OR b = 0xF0 + (b::nat)"
  using or_plus [of b 6 2] or_plus [of b 5 6] or_plus [of b 4 14] or_plus [of b 3 30]
  by (simp_all add: push_bit_eq_mult)

lemma or_shift6: "b < 64 \<Longrightarrow> push_bit 6 a OR b = 64 * a + (b::nat)"
  using or_plus [of b 6 a] by (simp add: push_bit_eq_mult)

lemma GetRange_low:
  "c < 0xC0 \<Longrightarrow> GetRange c = (if c < 0x80 then 0 else if c < 0x90 then 0x10 else if c < 0xA0 then 0x40 else 0x20)"
  by (auto simp: GetRange_def range_type_def nth_append)

lemma GetRange_high:
  assumes "0xC0 \<le> c" "c < 0x100"
  shows "GetRange c =
     (if c < 0xC2 then 8 else if c < 0xE0 then 2 else if c = 0xE0 then 10 else if c = 0xED then 4
      else if c < 0xF0 then 3 else if c = 0xF0 then 11 else if c < 0xF4 then 6 else if c = 0xF4 then 5 else 8)"
proof -
  have "\<forall>c\<in>set [0xC0..<0x100]. GetRange c =
     (if c < 0xC2 then 8 else if c < 0xE0 then 2 else if c = 0xE0 then 10 else if c = 0xED then 4
      else if c < 0xF0 then 3 else if c = 0xF0 then 11 else if c < 0xF4 then 6 else if c = 0xF4 then 5 else 8)"
    by code_simp
  moreover have "c \<in> set [0xC0..<0x100]" using assms unfolding set_upt by simp
  ultimately show ?thesis by (rule bspec)
qed

lemmas GetRange_cases = GetRange_low GetRange_high

lemma trans_masks:
  assumes "c < 256"
  shows "GetRange c AND 0x70 \<noteq> 0 \<longleftrightarrow> 0x80 \<le> c \<and> c < 0xC0"
    and "GetRange c AND 0x50 \<noteq> 0 \<longleftrightarrow> 0x80 \<le> c \<and> c < 0xA0"
    and "GetRange c AND 0x10 \<noteq> 0 \<longleftrightarrow> 0x80 \<le> c \<and> c < 0x90"
    and "GetRange c AND 0x20 \<noteq> 0 \<longleftrightarrow> 0xA0 \<le> c \<and> c < 0xC0"
    and "GetRange c AND 0x60 \<noteq> 0 \<longleftrightarrow> 0x90 \<le> c \<and> c < 0xC0"
  using assms by (cases "c < 0xC0"; simp add: GetRange_low GetRange_high)+

lemma mod_add_self_240: "(240 + n) mod 4 = n mod (4::nat)"
  using mod_mult_self2 [of n 4 60] by (simp add: add.commute)

lemma lead_bits:
  "0xC0 \<le> c \<Longrightarrow> c < 0xE0 \<Longrightarrow> drop_bit 2 0xFF AND c = c - (0xC0::nat)"
  "0xE0 \<le> c \<Longrightarrow> c < 0xF0 \<Longrightarrow> drop_bit 3 0xFF AND c = c - (0xE0::nat)"
  "drop_bit 4 0xFF AND 0xED = (0xD::nat)"
  "drop_bit 5 0xFF AND 0xF4 = (4::nat)"
  "0xF0 \<le> c \<Longrightarrow> c < 0xF4 \<Longrightarrow> drop_bit 6 0xFF AND c = c - (0xF0::nat)"
  "drop_bit 10 0xFF AND 0xE0 = (0::nat)" "drop_bit 11 0xFF AND 0xF0 = (0::nat)"
proof -
  have d: "drop_bit 2 (0xFF::nat) = 0x3F" "drop_bit 3 (0xFF::nat) = 0x1F" "drop_bit 6 (0xFF::nat) = 3"
    by (simp_all add: drop_bit_eq_div)
  have m: "0x1F AND c = c mod 32" "3 AND c = c mod 4" for c :: nat
    using take_bit_eq_mask [of 5 c] take_bit_eq_mask [of 2 c]
    by (simp_all add: mask_eq_exp_minus_1 take_bit_eq_mod and.commute)
  show "0xC0 \<le> c \<Longrightarrow> c < 0xE0 \<Longrightarrow> drop_bit 2 0xFF AND c = c - (0xC0::nat)"
    unfolding d by (simp add: and_63 and.commute [of 63] le_mod_geq)
  show "0xE0 \<le> c \<Longrightarrow> c < 0xF0 \<Longrightarrow> drop_bit 3 0xFF AND c = c - (0xE0::nat)"
    unfolding d m by (simp add: le_mod_geq)
  show "0xF0 \<le> c \<Longrightarrow> c < 0xF4 \<Longrightarrow> drop_bit 6 0xFF AND c = c - (0xF0::nat)"
    unfolding d m using mod_add_self_240 [of "c - 0xF0"] by simp
qed (simp_all add: drop_bit_eq_div)

lemma high_bit: "c < 256 \<Longrightarrow> c AND 0x80 = 0 \<longleftrightarrow> c < (0x80::nat)"
proof -
  assume c: "c < 256"
  have "c AND 0x80 = 0 \<longleftrightarrow> \<not> bit c 7"
    using and_exp_eq_0_iff_not_bit [of c 7] by simp
  also have "\<dots> \<longleftrightarrow> even (c div 128)" by (simp add: bit_iff_odd)
  also have "\<dots> \<longleftrightarrow> c < 0x80"
  proof (cases "c < 0x80")
    case False
    then have "c div 128 = 1" using c by (intro div_nat_eqI) auto
    then show ?thesis using False by simp
  qed simp
  finally show ?thesis .
qed

text \<open>The bytes of an encoding, and the value of decoded bytes, as sums.\<close>

lemma Encode_eq:
  "cp < 0x80 \<Longrightarrow> Encode cp = [char_of cp]"
  "0x80 \<le> cp \<Longrightarrow> cp < 0x800 \<Longrightarrow> Encode cp = [char_of (0xC0 + cp div 64), char_of (0x80 + cp mod 64)]"
  "0x800 \<le> cp \<Longrightarrow> cp < 0x10000 \<Longrightarrow> Encode cp =
     [char_of (0xE0 + cp div 4096), char_of (0x80 + cp div 64 mod 64), char_of (0x80 + cp mod 64)]"
  "0x10000 \<le> cp \<Longrightarrow> cp < 0x110000 \<Longrightarrow> Encode cp =
     [char_of (0xF0 + cp div 262144), char_of (0x80 + cp div 4096 mod 64),
      char_of (0x80 + cp div 64 mod 64), char_of (0x80 + cp mod 64)]"
proof -
  have l: "x < b * 2 ^ n \<Longrightarrow> drop_bit n x < b" for x b n :: nat
    by (simp add: drop_bit_eq_div div_less_iff_less_mult)
  show "cp < 0x80 \<Longrightarrow> Encode cp = [char_of cp]"
    by (simp add: Encode_def ch_def and_255)
  show "0x80 \<le> cp \<Longrightarrow> cp < 0x800 \<Longrightarrow> Encode cp = [char_of (0xC0 + cp div 64), char_of (0x80 + cp mod 64)]"
    using l [of cp 32 6] by (simp add: Encode_def ch_def and_255 and_63 or_lead drop_bit_eq_div)
  show "0x800 \<le> cp \<Longrightarrow> cp < 0x10000 \<Longrightarrow> Encode cp =
     [char_of (0xE0 + cp div 4096), char_of (0x80 + cp div 64 mod 64), char_of (0x80 + cp mod 64)]"
    using l [of cp 16 12] by (simp add: Encode_def ch_def and_255 and_63 or_lead drop_bit_eq_div)
  show "0x10000 \<le> cp \<Longrightarrow> cp < 0x110000 \<Longrightarrow> Encode cp =
     [char_of (0xF0 + cp div 262144), char_of (0x80 + cp div 4096 mod 64),
      char_of (0x80 + cp div 64 mod 64), char_of (0x80 + cp mod 64)]"
    using l [of cp 8 18] by (simp add: Encode_def ch_def and_255 and_63 or_lead drop_bit_eq_div)
qed

lemma decode_tail_eq:
  "decode_tail m (res, cp, is) =
     (res \<and> GetRange (of_char (Peek is)) AND m \<noteq> 0, 64 * cp + of_char (Peek is) mod 64, Take is)"
  by (simp add: decode_tail_def Let_def and_63 or_shift6)

lemma of_char_small [simp]: "n < 256 \<Longrightarrow> of_char (char_of n) = (n::nat)"
  by simp

lemma of_char_256 [simp]: "(of_char c :: nat) < 256"
  using of_char_mod_256 [of c, where ?'a = nat] by (metis mod_less_divisor zero_less_numeral)

lemma Decode_lead:
  "Decode is = (let b = of_char (Peek is); is = Take is in
     if b < 0x80 then (True, b, is)
     else if 0xC2 \<le> b \<and> b < 0xE0 then decode_tail 0x70 (True, b - 0xC0, is)
     else if b = 0xE0 then decode_tail 0x70 (decode_tail 0x20 (True, 0, is))
     else if b = 0xED then decode_tail 0x70 (decode_tail 0x50 (True, 0xD, is))
     else if 0xE0 < b \<and> b < 0xF0 then decode_tail 0x70 (decode_tail 0x70 (True, b - 0xE0, is))
     else if b = 0xF0 then decode_tail 0x70 (decode_tail 0x70 (decode_tail 0x60 (True, 0, is)))
     else if 0xF0 < b \<and> b < 0xF4 then decode_tail 0x70 (decode_tail 0x70 (decode_tail 0x70 (True, b - 0xF0, is)))
     else if b = 0xF4 then decode_tail 0x70 (decode_tail 0x70 (decode_tail 0x10 (True, 4, is)))
     else (False, if GetRange b \<ge> 32 then 0 else drop_bit (GetRange b) 0xFF AND b, is))"
proof -
  define b :: nat where "b = of_char (Peek is)"
  have b: "b < 256" by (simp add: b_def)
  show ?thesis
    unfolding Decode_def Let_def b_def [symmetric] high_bit [OF b]
    using b by (cases "b < 0xC0")
      (auto simp: GetRange_low GetRange_high tail_masks_def lead_bits lead_bits [simplified])
qed

lemma tail_byte:
  assumes "p < 64"
  shows "decode_tail m (res, cp, \<lparr>src = char_of (0x80 + p) # r, tell = n\<rparr>) =
      (res \<and> GetRange (0x80 + p) AND m \<noteq> 0, 64 * cp + p, \<lparr>src = r, tell = n + 1\<rparr>)"
    and "GetRange (0x80 + p) AND 0x70 \<noteq> 0" and "GetRange (0x80 + p) AND 0x50 \<noteq> 0 \<longleftrightarrow> p < 0x20"
    and "GetRange (0x80 + p) AND 0x10 \<noteq> 0 \<longleftrightarrow> p < 0x10" and "GetRange (0x80 + p) AND 0x20 \<noteq> 0 \<longleftrightarrow> 0x20 \<le> p"
    and "GetRange (0x80 + p) AND 0x60 \<noteq> 0 \<longleftrightarrow> 0x10 \<le> p"
proof -
  have "(0x80 + p) mod 64 = p" using assms by (simp add: le_mod_geq)
  then show "decode_tail m (res, cp, \<lparr>src = char_of (0x80 + p) # r, tell = n\<rparr>) =
      (res \<and> GetRange (0x80 + p) AND m \<noteq> 0, 64 * cp + p, \<lparr>src = r, tell = n + 1\<rparr>)"
    using assms by (simp add: decode_tail_eq)
qed (use assms trans_masks [of "0x80 + p"] in simp_all)

lemmas tail_byte_masks = tail_byte(2-6) tail_byte(2-6) [unfolded neq0_conv]

lemma digits_64:
  fixes n :: nat
  shows "4096 * (n div 4096) + 64 * (n div 64 mod 64) + n mod 64 = n"
    and "262144 * (n div 262144) + 4096 * (n div 4096 mod 64) + 64 * (n div 64 mod 64) + n mod 64 = n"
proof -
  have "n div 64 div 64 = n div 4096" "n div 4096 div 64 = n div 262144" by (simp_all flip: div_mult2_eq)
  then show "4096 * (n div 4096) + 64 * (n div 64 mod 64) + n mod 64 = n"
    "262144 * (n div 262144) + 4096 * (n div 4096 mod 64) + 64 * (n div 64 mod 64) + n mod 64 = n"
    using div_mult_mod_eq [of n 64] div_mult_mod_eq [of "n div 64" 64] div_mult_mod_eq [of "n div 4096" 64]
    by linarith+
qed

lemma Decode_Encode:
  assumes "scalar_value cp"
  shows "Decode \<lparr>src = Encode cp @ r, tell = n\<rparr> = (True, cp, \<lparr>src = r, tell = n + length (Encode cp)\<rparr>)"
proof -
  have max: "cp < 0x110000" using assms by (auto simp: scalar_value_def)
  consider "cp < 0x80" | "0x80 \<le> cp \<and> cp < 0x800" | "0x800 \<le> cp \<and> cp < 0x10000" | "0x10000 \<le> cp"
    by linarith
  then show ?thesis
  proof cases
    case 1
    then show ?thesis by (simp add: Encode_eq Decode_lead Let_def)
  next
    case 2
    define q where "q = cp div 64"
    have q: "2 \<le> q" "q < 32" using 2 by (simp_all add: q_def less_mult_imp_div_less div_le_mono [of 128 cp 64, simplified])
    have "64 * q + cp mod 64 = cp" by (simp add: q_def)
    then show ?thesis
      using 2 q by (simp add: Encode_eq Decode_lead Let_def tail_byte(1) tail_byte_masks flip: q_def)
  next
    case 3
    define q where "q = cp div 4096"
    define p where "p = cp div 64 mod 64"
    have q: "q < 16" "p < 64" using 3 by (simp_all add: q_def p_def less_mult_imp_div_less)
    have cp: "cp = 4096 * q + 64 * p + cp mod 64"
      using digits_64 [of cp] by (simp add: q_def p_def)
    have "64 * (64 * q + p) + cp mod 64 = cp" using cp by simp
    moreover have "q = 0 \<Longrightarrow> 0x20 \<le> p" using cp 3 mod_less_divisor [of 64 cp] by linarith
    moreover have "q = 0xD \<Longrightarrow> p < 0x20" using cp 3 assms q mod_less_divisor [of 64 cp] unfolding scalar_value_def by linarith
    ultimately show ?thesis
      using 3 q by (simp add: Encode_eq Decode_lead Let_def tail_byte(1) tail_byte_masks flip: q_def p_def)
  next
    case 4
    define q where "q = cp div 262144"
    define p where "p = cp div 4096 mod 64"
    define o' where "o' = cp div 64 mod 64"
    have q: "q < 5" "p < 64" "o' < 64" using max by (simp_all add: q_def p_def o'_def less_mult_imp_div_less)
    have cp: "cp = 262144 * q + 4096 * p + 64 * o' + cp mod 64"
      using digits_64 [of cp] by (simp add: q_def p_def o'_def)
    have "64 * (64 * (64 * q + p) + o') + cp mod 64 = cp" using cp by simp
    moreover have "q = 0 \<Longrightarrow> 0x10 \<le> p" using cp 4 q mod_less_divisor [of 64 cp] by linarith
    moreover have "q = 4 \<Longrightarrow> p < 0x10" using cp max by linarith
    moreover have "q < 4 \<or> q = 4" using q by auto
    ultimately show ?thesis
      using 4 max q unfolding Encode_eq(4) [OF 4 max] q_def [symmetric] p_def [symmetric] o'_def [symmetric]
      by (elim disjE) (simp_all add: Decode_lead Let_def tail_byte(1) tail_byte_masks)
  qed
qed

lemma tail_byte_inv:
  assumes "decode_tail m st = (True, cp', is')" and "m \<in> {0x70, 0x50, 0x10, 0x20, 0x60}"
  obtains p r cp n where "st = (True, cp, \<lparr>src = char_of (0x80 + p) # r, tell = n\<rparr>)" "p < 64"
    "cp' = 64 * cp + p" "is' = \<lparr>src = r, tell = n + 1\<rparr>" "GetRange (0x80 + p) AND m \<noteq> 0"
proof -
  obtain res cp "is" where "st = (res, cp, is)" by (cases st) auto
  moreover obtain s n where "is = \<lparr>src = s, tell = n\<rparr>" by (cases "is") auto
  ultimately have st: "st = (res, cp, \<lparr>src = s, tell = n\<rparr>)" by simp
  have res: "res" and m: "GetRange (of_char (Peek \<lparr>src = s, tell = n\<rparr>)) AND m \<noteq> 0"
    using assms(1) by (auto simp: st decode_tail_eq)
  then have "s \<noteq> []" using GetRange_low [of 0] by auto
  then obtain c r where s: "s = c # r" by (cases s) auto
  define b :: nat where "b = of_char c"
  have b: "b < 256" "c = char_of b" by (simp_all add: b_def)
  have "GetRange b AND m \<noteq> 0" using m by (simp add: s b_def)
  then have "0x80 \<le> b" "b < 0xC0" using trans_masks [OF b(1)] assms(2) by auto
  then obtain p where p: "b = 0x80 + p" "p < 64" using le_Suc_ex by fastforce
  then show ?thesis
    using that [of cp p r n] assms(1) m res tail_byte(1) [OF p(2), of m res cp r n] by (auto simp: st s b)
qed

lemma digit_64: "n = 64 * x + p \<Longrightarrow> p < 64 \<Longrightarrow> n div 64 = x \<and> n mod 64 = (p::nat)"
  by simp

lemma Decode_sound:
  assumes dec: "Decode \<lparr>src = s, tell = n\<rparr> = (True, cp, is')" and ne: "s \<noteq> []"
  shows "scalar_value cp \<and> (\<exists>r. s = Encode cp @ r \<and> is' = \<lparr>src = r, tell = n + length (Encode cp)\<rparr>)"
proof -
  obtain c s' where s: "s = c # s'" using ne by (cases s) auto
  define b :: nat where "b = of_char c"
  have b: "b < 256" "c = char_of b" by (simp_all add: b_def)
  note D = dec [unfolded Decode_lead s Peek_Cons Take_Cons Let_def b_def [symmetric]]
  consider "b < 0x80" | "0xC2 \<le> b \<and> b < 0xE0" | "0xE0 \<le> b \<and> b < 0xF0" | "0xF0 \<le> b \<and> b \<le> 0xF4"
    using D by (auto split: if_splits)
  then show ?thesis
  proof cases
    case 1
    then show ?thesis using D b s by (auto simp: scalar_value_def Encode_eq)
  next
    case 2
    then have "decode_tail 0x70 (True, b - 0xC0, \<lparr>src = s', tell = n + 1\<rparr>) = (True, cp, is')" using D by simp
    then obtain p r where p: "p < 64" "s' = char_of (0x80 + p) # r"
      "cp = 64 * (b - 0xC0) + p" "is' = \<lparr>src = r, tell = n + 1 + 1\<rparr>" by (auto elim: tail_byte_inv)
    then have "cp div 64 = b - 0xC0" "cp mod 64 = p" "0x80 \<le> cp" "cp < 0x800" using 2 by auto
    then show ?thesis using p 2 s b(2) by (simp add: scalar_value_def Encode_eq)
  next
    case 3
    define m :: nat where "m = (if b = 0xE0 then 0x20 else if b = 0xED then 0x50 else 0x70)"
    have "decode_tail 0x70 (decode_tail m (True, b - 0xE0, \<lparr>src = s', tell = n + 1\<rparr>)) = (True, cp, is')"
      using D 3 by (auto simp: m_def split: if_splits)
    then obtain q p r where q: "GetRange (0x80 + q) AND m \<noteq> 0" "q < 64" "p < 64"
      "s' = char_of (0x80 + q) # char_of (0x80 + p) # r" "cp = 64 * (64 * (b - 0xE0) + q) + p"
      "is' = \<lparr>src = r, tell = n + 1 + 1 + 1\<rparr>"
      by (elim tail_byte_inv) (auto simp: m_def)
    have lim: "b = 0xE0 \<Longrightarrow> 0x20 \<le> q" "b = 0xED \<Longrightarrow> q < 0x20"
      using q(1) tail_byte_masks [OF q(2)] by (auto simp: m_def)
    have "cp div 64 = 64 * (b - 0xE0) + q" "cp mod 64 = p" "cp div 4096 = b - 0xE0"
      using digit_64 [OF q(5,3)] digit_64 [OF refl q(2)] div_mult2_eq [of cp 64 64] by simp_all
    moreover have "0x800 \<le> cp \<and> cp < 0x10000 \<and> scalar_value cp"
    proof -
      obtain x where x: "b = 0xE0 + x" "x < 16" using 3 le_Suc_ex [of "0xE0" b] by auto
      have "x = 0 \<Longrightarrow> 0x20 \<le> q" "x = 13 \<Longrightarrow> q < 0x20" using lim x by simp_all
      moreover have "cp = 4096 * x + 64 * q + p" using q(5) x by simp
      moreover have "x = 0 \<or> 1 \<le> x \<and> x < 13 \<or> x = 13 \<or> 14 \<le> x" by linarith
      ultimately show ?thesis using q(2,3) x(2) unfolding scalar_value_def by (elim disjE) simp_all
    qed
    ultimately show ?thesis using q 3 s b(2) by (simp add: Encode_eq)
  next
    case 4
    define m :: nat where "m = (if b = 0xF0 then 0x60 else if b = 0xF4 then 0x10 else 0x70)"
    have "decode_tail 0x70 (decode_tail 0x70 (decode_tail m (True, b - 0xF0, \<lparr>src = s', tell = n + 1\<rparr>))) = (True, cp, is')"
      using D 4 by (auto simp: m_def split: if_splits)
    then obtain q p t r where q: "GetRange (0x80 + q) AND m \<noteq> 0" "q < 64" "p < 64" "t < 64"
      "s' = char_of (0x80 + q) # char_of (0x80 + p) # char_of (0x80 + t) # r"
      "cp = 64 * (64 * (64 * (b - 0xF0) + q) + p) + t" "is' = \<lparr>src = r, tell = n + 1 + 1 + 1 + 1\<rparr>"
      by (elim tail_byte_inv) (auto simp: m_def)
    have lim: "b = 0xF0 \<Longrightarrow> 0x10 \<le> q" "b = 0xF4 \<Longrightarrow> q < 0x10"
      using q(1) tail_byte_masks [OF q(2)] by (auto simp: m_def)
    have e1: "cp div 64 = 64 * (64 * (b - 0xF0) + q) + p" "cp mod 64 = t" using digit_64 [OF q(6,4)] by simp_all
    have dd: "cp div 64 div 64 = cp div 4096" "cp div 4096 div 64 = cp div 262144" by (simp_all flip: div_mult2_eq)
    have e2: "cp div 4096 = 64 * (b - 0xF0) + q" using digit_64 [OF e1(1) q(3)] unfolding dd by simp
    have e3: "cp div 262144 = b - 0xF0" "cp div 4096 mod 64 = q" "cp div 64 mod 64 = p"
      using digit_64 [OF e2 q(2)] digit_64 [OF e1(1) q(3)] unfolding dd by simp_all
    have lims: "0x10000 \<le> cp \<and> cp < 0x110000"
    proof -
      obtain x where x: "b = 0xF0 + x" "x \<le> 4" using 4 le_Suc_ex [of "0xF0" b] by auto
      have "x = 0 \<Longrightarrow> 0x10 \<le> q" "x = 4 \<Longrightarrow> q < 0x10" using lim x by simp_all
      moreover have "cp = 262144 * x + 4096 * q + 64 * p + t" using q(6) x by simp
      moreover have "x = 0 \<or> 1 \<le> x \<and> x < 4 \<or> x = 4" using x(2) by linarith
      ultimately show ?thesis using q(2-4) by (elim disjE) simp_all
    qed
    have "0xF0 + (b - 0xF0) = b" using 4 by simp
    then have "Encode cp = [char_of b, char_of (0x80 + q), char_of (0x80 + p), char_of (0x80 + t)]"
      unfolding Encode_eq(4) [OF lims [THEN conjunct1] lims [THEN conjunct2]] e1(2) e3 by simp
    then show ?thesis using q(5,7) lims s b(2) by (simp add: scalar_value_def)
  qed
qed

text \<open>
  C33. UTF-8 decoding is the inverse of encoding, and accepts nothing else: on a nonempty rest of a
  string \<^verbatim>\<open>Decode\<close> succeeds with a code point exactly when the code point is a Unicode scalar value
  (no surrogate, at most 0x10FFFF) and the rest starts with the bytes that \<^verbatim>\<open>Encode\<close> writes for it,
  and then it stops right behind them. So no overlong form is accepted.
\<close>

theorem Decode_iff_Encode:
  assumes "s \<noteq> []"
  shows "Decode \<lparr>src = s, tell = n\<rparr> = (True, cp, is') \<longleftrightarrow>
    scalar_value cp \<and> (\<exists>r. s = Encode cp @ r \<and> is' = \<lparr>src = r, tell = n + length (Encode cp)\<rparr>)"
  using Decode_sound [OF _ assms] Decode_Encode by blast

theorem Decode_iff_Encode_witness:
  "Decode \<lparr>src = [CHR 0xE2, CHR 0x82, CHR 0xAC, CHR ''x''], tell = 7\<rparr> = (True, 0x20AC, \<lparr>src = ''x'', tell = 10\<rparr>)"
proof -
  have c: "char_of (0xE2::nat) = CHR 0xE2" "char_of (0x82::nat) = CHR 0x82" "char_of (0xAC::nat) = CHR 0xAC"
    by (simp_all add: char_of_def bit_iff_odd)
  have e: "Encode 0x20AC = [CHR 0xE2, CHR 0x82, CHR 0xAC]" using Encode_eq(3) [of "0x20AC"] c by simp
  show ?thesis
    by (subst Decode_iff_Encode) (simp_all add: scalar_value_def e)
qed

text \<open>\<^verbatim>\<open>Validate\<close> accepts what \<^verbatim>\<open>Decode\<close> accepts, reads as far, and copies what it read.\<close>

lemma validate_tails:
  "fst (fold validate_tail ms (res, is, os)) = fst (fold decode_tail ms (res, cp, is)) \<and>
   fst (snd (fold validate_tail ms (res, is, os))) = snd (snd (fold decode_tail ms (res, cp, is)))"
  by (induction ms arbitrary: res cp "is" os) (simp_all add: validate_tail_def decode_tail_def Let_def)

lemma Validate_Decode:
  "fst (Validate is os) = fst (Decode is) \<and> fst (snd (Validate is os)) = snd (snd (Decode is))"
  using validate_tails by (simp add: Validate_def Decode_def Let_def split: option.split)

end
