(* ===== verification/Big_Integer.thy ===== *)
theory Big_Integer
  imports Cstd
begin

text \<open>
  The arbitrary precision naturals of rapidjson/internal/biginteger.h, which the reader uses for
  numbers in full precision. The model keeps the \<^verbatim>\<open>count_\<close> used entries of \<^verbatim>\<open>digits_\<close>, least
  significant first, as a list of 64-bit words. The lemmas show that the operations compute on the
  natural number that the list denotes.
\<close>

unbundle bit_operations_syntax

section \<open>Operations\<close>

type_synonym bigint = "u64 list"

text \<open>\<^verbatim>\<open>kBitCount / sizeof(Type)\<close>.\<close>

definition kCapacity :: nat where
  "kCapacity = 3328 div 8"

definition kTypeBit :: nat where
  "kTypeBit = 8 * 8"

definition BigInteger :: "u64 \<Rightarrow> bigint" where
  "BigInteger u = [u]"

definition big_is :: "bigint \<Rightarrow> u64 \<Rightarrow> bool" where
  "big_is b r \<longleftrightarrow> length b = 1 \<and> b ! 0 = r"

definition big_IsZero :: "bigint \<Rightarrow> bool" where
  "big_IsZero b \<longleftrightarrow> length b = 1 \<and> b ! 0 = 0"

definition PushBack :: "bigint \<Rightarrow> u64 \<Rightarrow> bigint result" where
  "PushBack b digit = (if length b < kCapacity then Inr (b @ [digit]) else Inl AssertionFailed)"

text \<open>The loop of \<^verbatim>\<open>operator+=\<close>: the digits from the current one on, and the last carry.\<close>

fun add_loop :: "u64 \<Rightarrow> u64 \<Rightarrow> u64 list \<Rightarrow> u64 list \<times> bool" where
  "add_loop cur backup [] = ([cur], cur < backup)"
| "add_loop cur backup (d # ds) =
     (if cur \<ge> backup then (cur # d # ds, False)
      else let (r, c) = add_loop (d + 1) d ds in (cur # r, c))"

definition big_add :: "bigint \<Rightarrow> u64 \<Rightarrow> bigint result" where
  "big_add b u =
     (case b of [] \<Rightarrow> Inl IndexOutOfBounds
      | d # ds \<Rightarrow> let (r, c) = add_loop (d + u) d ds in if c then PushBack r 1 else Inr r)"

definition MulAdd64 :: "u64 \<Rightarrow> u64 \<Rightarrow> u64 \<Rightarrow> u64 \<times> u64" where
  "MulAdd64 a b k =
     (let p = ucast a * ucast b :: 128 word; p = p + ucast k
      in (ucast p, ucast (drop_bit 64 p)))"

fun mul_loop :: "u64 \<Rightarrow> u64 \<Rightarrow> u64 list \<Rightarrow> u64 list \<times> u64" where
  "mul_loop u k [] = ([], k)"
| "mul_loop u k (d # ds) =
     (let (lo, hi) = MulAdd64 d u k; (r, k) = mul_loop u hi ds in (lo # r, k))"

definition big_mul64 :: "bigint \<Rightarrow> u64 \<Rightarrow> bigint result" where
  "big_mul64 b u =
     (if u = 0 then Inr (BigInteger 0)
      else if u = 1 then Inr b
      else if big_is b 1 then Inr (BigInteger u)
      else let (r, k) = mul_loop u 0 b in if k > 0 then PushBack r k else Inr r)"

definition mul32_digit :: "u64 \<Rightarrow> u64 \<Rightarrow> u64 \<Rightarrow> u64 \<times> u64" where
  "mul32_digit u k digit =
     (let c = drop_bit 32 digit;
          d = digit AND 0xFFFFFFFF;
          uc = u * c;
          ud = u * d;
          p0 = ud + k;
          p1 = uc + drop_bit 32 p0
      in ((p0 AND 0xFFFFFFFF) OR push_bit 32 p1, drop_bit 32 p1))"

fun mul32_loop :: "u64 \<Rightarrow> u64 \<Rightarrow> u64 list \<Rightarrow> u64 list \<times> u64" where
  "mul32_loop u k [] = ([], k)"
| "mul32_loop u k (d # ds) =
     (let (lo, hi) = mul32_digit u k d; (r, k) = mul32_loop u hi ds in (lo # r, k))"

definition big_mul32 :: "bigint \<Rightarrow> 32 word \<Rightarrow> bigint result" where
  "big_mul32 b u =
     (if u = 0 then Inr (BigInteger 0)
      else if u = 1 then Inr b
      else if big_is b 1 then Inr (BigInteger (ucast u))
      else let (r, k) = mul32_loop (ucast u) 0 b in if k > 0 then PushBack r k else Inr r)"

text \<open>
  The loop of \<^verbatim>\<open>operator<<=\<close>, from the lowest digit up: each digit takes the high bits of the one
  below, and the digit above the last one takes what is left.
\<close>

fun shl_loop :: "nat \<Rightarrow> u64 \<Rightarrow> u64 list \<Rightarrow> u64 list" where
  "shl_loop s below [] = [drop_bit (kTypeBit - s) below]"
| "shl_loop s below (d # ds) = (push_bit s d OR drop_bit (kTypeBit - s) below) # shl_loop s d ds"

definition big_shl :: "bigint \<Rightarrow> nat \<Rightarrow> bigint result" where
  "big_shl b shift =
     (if big_IsZero b \<or> shift = 0 then Inr b
      else let offset = shift div kTypeBit; interShift = shift mod kTypeBit in
        if length b + offset > kCapacity then Inl AssertionFailed
        else if interShift = 0 then Inr (replicate offset 0 @ b)
        else if length b + offset = kCapacity then Inl BufferOverflow
        else let r = shl_loop interShift 0 b
             in Inr (replicate offset 0 @ (if last r \<noteq> 0 then r else butlast r)))"

definition kPow5 :: "32 word list" where
  "kPow5 = [5, 25, 125, 625, 3125, 15625, 78125, 390625, 1953125, 9765625, 48828125, 244140625]"

function mul_pow5_27 :: "bigint \<Rightarrow> nat \<Rightarrow> (bigint \<times> nat) result" where
  "mul_pow5_27 b exp =
     (if exp \<ge> 27 then rbind (big_mul64 b 0x6765C793FA10079D) (\<lambda>b. mul_pow5_27 b (exp - 27))
      else Inr (b, exp))"
  by pat_completeness auto
termination by (relation "measure snd") auto

function mul_pow5_13 :: "bigint \<Rightarrow> nat \<Rightarrow> (bigint \<times> nat) result" where
  "mul_pow5_13 b exp =
     (if exp \<ge> 13 then rbind (big_mul32 b 1220703125) (\<lambda>b. mul_pow5_13 b (exp - 13))
      else Inr (b, exp))"
  by pat_completeness auto
termination by (relation "measure snd") auto

declare mul_pow5_27.simps [simp del] mul_pow5_13.simps [simp del]

definition MultiplyPow5 :: "bigint \<Rightarrow> nat \<Rightarrow> bigint result" where
  "MultiplyPow5 b exp =
     (if exp = 0 then Inr b
      else rbind (mul_pow5_27 b exp) (\<lambda>(b, exp).
           rbind (mul_pow5_13 b exp) (\<lambda>(b, exp).
           if exp > 0 then big_mul32 b (kPow5 ! (exp - 1)) else Inr b)))"

fun compare_from_top :: "u64 list \<Rightarrow> u64 list \<Rightarrow> int" where
  "compare_from_top (x # xs) (y # ys) =
     (if x \<noteq> y then (if x < y then - 1 else 1) else compare_from_top xs ys)"
| "compare_from_top _ _ = 0"

definition Compare :: "bigint \<Rightarrow> bigint \<Rightarrow> int" where
  "Compare a b =
     (if length a \<noteq> length b then (if length a < length b then - 1 else 1)
      else compare_from_top (rev a) (rev b))"

text \<open>The loop of \<^verbatim>\<open>Difference\<close>: all digits written to \<^verbatim>\<open>out\<close>.\<close>

fun diff_loop :: "u64 \<Rightarrow> u64 list \<Rightarrow> u64 list \<Rightarrow> u64 list" where
  "diff_loop borrow [] bs = []"
| "diff_loop borrow (a # as) bs =
     (let d = a - borrow;
          d = (case bs of [] \<Rightarrow> d | b # _ \<Rightarrow> d - b);
          borrow = (if d > a then 1 else 0)
      in d # diff_loop borrow as (tl bs))"

text \<open>
  \<^verbatim>\<open>out->count_\<close> ends one past the last digit that is not zero; \<open>out\<close> is a number with one digit when
  \<^verbatim>\<open>Difference\<close> is called.
\<close>

definition out_count :: "u64 list \<Rightarrow> u64 list" where
  "out_count ds = (let r = rev (dropWhile (\<lambda>d. d = 0) (rev ds)) in if r = [] then take 1 ds else r)"

definition Difference :: "bigint \<Rightarrow> bigint \<Rightarrow> (bool \<times> bigint) result" where
  "Difference this rhs =
     (let cmp = Compare this rhs in
      if cmp = 0 then Inl AssertionFailed
      else if cmp < 0 then Inr (True, out_count (diff_loop 0 rhs this))
      else Inr (False, out_count (diff_loop 0 this rhs)))"

fun ParseUint64 :: "u64 \<Rightarrow> string \<Rightarrow> u64 result" where
  "ParseUint64 r [] = Inr r"
| "ParseUint64 r (c # cs) =
     (if is_digit c then ParseUint64 (r * 10 + of_nat (digit_val c)) cs else Inl AssertionFailed)"

definition AppendDecimal64 :: "bigint \<Rightarrow> string \<Rightarrow> bigint result" where
  "AppendDecimal64 b s =
     rbind (ParseUint64 0 s) (\<lambda>u.
       if big_IsZero b then Inr (BigInteger u)
       else let exp = length s
            in rbind (MultiplyPow5 b exp) (\<lambda>b. rbind (big_shl b exp) (\<lambda>b. big_add b u)))"

definition kMaxDigitPerIteration :: nat where
  "kMaxDigitPerIteration = 19"

function decimals_loop :: "bigint \<Rightarrow> string \<Rightarrow> bigint result" where
  "decimals_loop b s =
     (if length s \<ge> kMaxDigitPerIteration
      then rbind (AppendDecimal64 b (take kMaxDigitPerIteration s))
             (\<lambda>b. decimals_loop b (drop kMaxDigitPerIteration s))
      else if length s > 0 then AppendDecimal64 b s else Inr b)"
  by pat_completeness auto
termination by (relation "measure (\<lambda>(b, s). length s)") (auto simp: kMaxDigitPerIteration_def)

declare decimals_loop.simps [simp del]

definition BigInteger_decimals :: "string \<Rightarrow> bigint result" where
  "BigInteger_decimals s = (if s = [] then Inl AssertionFailed else decimals_loop (BigInteger 0) s)"

section \<open>The number that the digits denote\<close>

fun big_val :: "bigint \<Rightarrow> nat" where
  "big_val [] = 0"
| "big_val (d # ds) = unat d + 2 ^ 64 * big_val ds"

definition big_limit :: nat where
  "big_limit = 2 ^ (64 * (kCapacity - 1))"

text \<open>The digits \<open>b\<close> represent \<open>n\<close>: without a leading zero, and within the capacity.\<close>

definition big_rep :: "bigint \<Rightarrow> nat \<Rightarrow> bool" where
  "big_rep b n \<longleftrightarrow> b \<noteq> [] \<and> length b \<le> kCapacity \<and> (1 < length b \<longrightarrow> last b \<noteq> 0) \<and> big_val b = n"

lemma big_val_append: "big_val (a @ b) = big_val a + 2 ^ (64 * length a) * big_val b"
  by (induction a) (simp_all add: algebra_simps power_add)

lemma big_val_zeros [simp]: "big_val (replicate n 0) = 0"
  by (induction n) auto

lemma big_val_less: "big_val b < 2 ^ (64 * length b)"
proof (induction b)
  case (Cons d ds)
  have "2 ^ 64 * big_val ds + unat d < 2 ^ 64 * (big_val ds + 1)"
    using unat_u64_less [of d] by simp
  also have "\<dots> \<le> 2 ^ 64 * 2 ^ (64 * length ds)" using Cons by (intro mult_left_mono) auto
  finally show ?case by (simp add: power_add algebra_simps)
qed simp

lemma big_val_last:
  "b \<noteq> [] \<Longrightarrow> last b \<noteq> 0 \<longleftrightarrow> 2 ^ (64 * (length b - 1)) \<le> big_val b"
proof -
  assume ne: "b \<noteq> []"
  define P :: nat where "P = 2 ^ (64 * (length b - 1))"
  have "butlast b @ [last b] = b" using ne by simp
  then have v: "big_val b = big_val (butlast b) + P * unat (last b)"
    using big_val_append [of "butlast b" "[last b]"] by (simp add: P_def)
  have l: "big_val (butlast b) < P" using big_val_less [of "butlast b"] by (simp add: P_def)
  show ?thesis
  proof (cases "last b = 0")
    case True
    then show ?thesis unfolding P_def [symmetric] using v l by simp
  next
    case False
    then have "1 \<le> unat (last b)" by (metis One_nat_def Suc_leI unat_gt_0)
    then have "P * 1 \<le> P * unat (last b)" by (intro mult_left_mono) auto
    then have "P \<le> big_val b" unfolding v by linarith
    then show ?thesis unfolding P_def [symmetric] using False by simp
  qed
qed

lemma big_rep_length:
  assumes "big_rep b n" and "n < big_limit"
  shows "length b < kCapacity"
proof (rule ccontr)
  assume "\<not> length b < kCapacity"
  then have l: "length b = kCapacity" "1 < length b" using assms(1) by (auto simp: big_rep_def kCapacity_def)
  then have "2 ^ (64 * (kCapacity - 1)) \<le> n" using assms(1) big_val_last [of b] by (auto simp: big_rep_def)
  then show False using assms(2) by (simp add: big_limit_def)
qed

lemma big_repI:
  assumes "b \<noteq> []" "length b \<le> kCapacity" "1 < length b \<Longrightarrow> 2 ^ (64 * (length b - 1)) \<le> n" "big_val b = n"
  shows "big_rep b n"
  using assms big_val_last [of b] by (auto simp: big_rep_def)

lemma big_rep_lower: "big_rep b n \<Longrightarrow> 1 < length b \<Longrightarrow> 2 ^ (64 * (length b - 1)) \<le> n"
  using big_val_last [of b] by (auto simp: big_rep_def)

lemma big_rep_BigInteger: "big_rep (BigInteger u) (unat u)"
  by (simp add: big_rep_def BigInteger_def kCapacity_def)

lemma big_is_iff: "big_rep b n \<Longrightarrow> big_is b u \<longleftrightarrow> n = unat u"
proof -
  assume r: "big_rep b n"
  show ?thesis
  proof (cases "length b = 1")
    case True
    then obtain d where "b = [d]" by (cases b) auto
    then show ?thesis using r unat_eq_iff_u64 by (auto simp: big_is_def big_rep_def)
  next
    case False
    then have "1 < length b" using r by (cases b) (auto simp: big_rep_def)
    then have "(2::nat) ^ 64 \<le> 2 ^ (64 * (length b - 1))" by (intro power_increasing) auto
    also have "\<dots> \<le> n" using big_rep_lower [OF r] \<open>1 < length b\<close> by simp
    finally have "2 ^ 64 \<le> n" .
    then show ?thesis using False unat_u64_less [of u] by (auto simp: big_is_def)
  qed
qed

lemma big_IsZero_iff: "big_rep b n \<Longrightarrow> big_IsZero b \<longleftrightarrow> n = 0"
  using big_is_iff [of b n 0] by (simp add: big_is_def big_IsZero_def)

section \<open>The operations compute on that number\<close>

lemma PushBack_rep:
  assumes "length r < kCapacity" "r \<noteq> []" "k \<noteq> 0"
  shows "PushBack r k = Inr (r @ [k]) \<and> big_rep (r @ [k]) (big_val r + 2 ^ (64 * length r) * unat k)"
  using assms by (simp add: PushBack_def big_rep_def big_val_append)

lemma unat_carry:
  fixes d u :: u64
  shows "unat (d + u) + (if d + u < d then 2 ^ 64 else 0) = unat d + unat u"
proof (cases "unat d + unat u < 2 ^ 64")
  case True
  then have "unat (d + u) = unat d + unat u" by (intro unat_add_no_wrap) simp
  then show ?thesis by (simp add: word_less_nat_alt)
next
  case False
  then have "unat (d + u) = unat d + unat u - 2 ^ 64"
    using unat_u64_less [of d] unat_u64_less [of u] by (simp add: unat_word_ariths le_mod_geq)
  then show ?thesis using False unat_u64_less [of u] by (simp add: word_less_nat_alt)
qed

lemma add_loop_val:
  assumes "add_loop cur backup ds = (r, c)"
  shows "length r = Suc (length ds) \<and>
    big_val r + (if c then 2 ^ (64 * length r) else 0) =
      unat cur + (if cur < backup then 2 ^ 64 else 0) + 2 ^ 64 * big_val ds"
  using assms
proof (induction cur backup ds arbitrary: r c rule: add_loop.induct)
  case (2 cur backup d ds)
  show ?case
  proof (cases "cur \<ge> backup")
    case False
    obtain r' c' where 1: "add_loop (d + 1) d ds = (r', c')" by fastforce
    then have r: "r = cur # r'" "c = c'" using 2(2) False by auto
    show ?thesis using 2(1) [OF False 1] unat_carry [of d 1] False r
      by (simp add: power_add algebra_simps split: if_splits)
  qed (use 2(2) in auto)
qed auto

lemma add_loop_last: "add_loop cur backup ds = (r, False) \<Longrightarrow> ds \<noteq> [] \<Longrightarrow> last ds \<noteq> 0 \<Longrightarrow> last r \<noteq> 0"
proof (induction cur backup ds arbitrary: r rule: add_loop.induct)
  case (2 cur backup d ds)
  show ?case
  proof (cases "cur \<ge> backup")
    case False
    then obtain r' where r: "add_loop (d + 1) d ds = (r', False)" "r = cur # r'"
      using 2(2) by (auto split: prod.splits)
    have "r' \<noteq> []" using add_loop_val [OF r(1)] by auto
    moreover have "last r' \<noteq> 0"
    proof (cases "ds = []")
      case True
      then have r': "r' = [d + 1]" "\<not> d + 1 < d" "d \<noteq> 0" using r(1) 2(4) by auto
      then have "d + 1 \<noteq> 0" by (auto simp: not_less)
      then show ?thesis using r' by simp
    next
      case False
      then show ?thesis using 2(1) [OF \<open>\<not> cur \<ge> backup\<close> _ False] r(1) 2(4) by simp
    qed
    ultimately show ?thesis using r(2) by simp
  qed (use 2 in auto)
qed simp

lemma big_add_rep:
  assumes "big_rep b n" and "n < big_limit"
  shows "\<exists>r. big_add b u = Inr r \<and> big_rep r (n + unat u)"
proof -
  obtain d ds where b: "b = d # ds" using assms(1) by (cases b) (auto simp: big_rep_def)
  obtain r c where l: "add_loop (d + u) d ds = (r, c)" by fastforce
  have len: "length b < kCapacity" using big_rep_length [OF assms] .
  have v: "length r = length b" "big_val r + (if c then 2 ^ (64 * length r) else 0) = n + unat u"
    using add_loop_val [OF l] unat_carry [of d u] assms(1) by (auto simp: big_rep_def b)
  show ?thesis
  proof (cases c)
    case True
    have "r \<noteq> []" using v(1) b by auto
    then show ?thesis using PushBack_rep [of r 1] v len l True by (auto simp: big_add_def b)
  next
    case False
    have "1 < length b \<Longrightarrow> last r \<noteq> 0"
      using add_loop_last [of "d + u" d ds r] l False assms(1) by (auto simp: big_rep_def b)
    then show ?thesis using v len l False by (auto simp: big_add_def b big_rep_def)
  qed
qed

lemma MulAdd64_val:
  assumes "MulAdd64 a b k = (lo, hi)"
  shows "unat lo + 2 ^ 64 * unat hi = unat a * unat b + unat k"
proof -
  define p where "p = (ucast a * ucast b + ucast k :: 128 word)"
  have bound: "unat a * unat b + unat k < 2 ^ 128"
  proof -
    have "unat a * unat b \<le> (2 ^ 64 - 1) * (2 ^ 64 - 1)"
      using unat_u64_less [of a] unat_u64_less [of b] by (intro mult_mono) auto
    then show ?thesis using unat_u64_less [of k] by simp
  qed
  have u: "unat (ucast x :: 128 word) = unat (x :: u64)" for x
    by (simp add: unsigned_ucast_eq take_bit_nat_eq_self unat_u64_less order.strict_trans [OF unat_u64_less])
  have p: "unat p = unat a * unat b + unat k"
    using bound by (simp add: p_def u unat_word_ariths)
  have "lo = ucast p" "hi = ucast (drop_bit 64 p)" using assms by (auto simp: MulAdd64_def p_def Let_def)
  then have "unat lo = unat p mod 2 ^ 64" "unat hi = unat p div 2 ^ 64"
  proof -
    have p': "unat p < 2 ^ 128" using p bound by simp
    show "lo = ucast p \<Longrightarrow> unat lo = unat p mod 2 ^ 64"
      by (simp add: unsigned_ucast_eq take_bit_eq_mod)
    have "unat (drop_bit 64 p) = unat p div 2 ^ 64" by (rule unat_drop_bit)
    moreover have "unat p div 2 ^ 64 < 2 ^ 64" using p' by (simp add: div_less_iff_less_mult)
    ultimately show "hi = ucast (drop_bit 64 p) \<Longrightarrow> unat hi = unat p div 2 ^ 64"
      by (simp add: unsigned_ucast_eq take_bit_nat_eq_self)
  qed
  then show ?thesis unfolding p by simp
qed

lemma mul_loop_val:
  assumes "mul_loop u k ds = (r, k')"
  shows "length r = length ds \<and> big_val r + 2 ^ (64 * length r) * unat k' = big_val ds * unat u + unat k"
  using assms
proof (induction u k ds arbitrary: r k' rule: mul_loop.induct)
  case (2 u k d ds)
  obtain lo hi where m: "MulAdd64 d u k = (lo, hi)" by fastforce
  obtain r1 k1 where l: "mul_loop u hi ds = (r1, k1)" by fastforce
  have r: "r = lo # r1" "k' = k1" using 2(2) by (simp_all add: m l)
  have IH: "length r1 = length ds" "big_val r1 + 2 ^ (64 * length r1) * unat k1 = big_val ds * unat u + unat hi"
    using 2(1) [OF m [symmetric] refl l] by auto
  have "big_val r + 2 ^ (64 * length r) * unat k' = unat lo + 2 ^ 64 * (big_val r1 + 2 ^ (64 * length r1) * unat k1)"
    by (simp add: r power_add algebra_simps)
  also have "\<dots> = unat d * unat u + unat k + 2 ^ 64 * (big_val ds * unat u)"
    unfolding IH(2) using MulAdd64_val [OF m] by (simp add: algebra_simps)
  also have "\<dots> = big_val (d # ds) * unat u + unat k" by (simp add: algebra_simps)
  finally show ?case using IH(1) r by simp
qed simp

text \<open>The end of both multiplications: the last carry becomes a digit.\<close>

lemma mul_finish_rep:
  assumes b: "big_rep b n" and lim: "n * m < big_limit" and m: "2 \<le> m" and n: "n \<noteq> 0"
    and r: "length r = length b" "big_val r + 2 ^ (64 * length r) * unat k = n * m"
  shows "\<exists>s. (if 0 < k then PushBack r k else Inr r) = Inr s \<and> big_rep s (n * m)"
proof -
  have nm: "n \<le> n * m" using m by simp
  have len: "length b < kCapacity" using big_rep_length [OF b] nm lim by simp
  have ne: "r \<noteq> []" using b r(1) by (auto simp: big_rep_def)
  show ?thesis
  proof (cases "k = 0")
    case True
    have "big_rep r (n * m)"
    proof (rule big_repI)
      show "1 < length r \<Longrightarrow> 2 ^ (64 * (length r - 1)) \<le> n * m"
        using order.trans [OF big_rep_lower [OF b] nm] r(1) by simp
    qed (use ne len r True in auto)
    then show ?thesis using True by simp
  next
    case False
    then have "0 < k" by (simp add: word_gt_0)
    then show ?thesis using PushBack_rep [of r k] len ne r False by simp
  qed
qed

lemma big_mul64_rep:
  assumes b: "big_rep b n" and lim: "n * unat u < big_limit"
  shows "\<exists>r. big_mul64 b u = Inr r \<and> big_rep r (n * unat u)"
proof -
  consider "u = 0" | "u = 1" | "n = 1" "u \<noteq> 0" "u \<noteq> 1" | "n \<noteq> 1" "u \<noteq> 0" "u \<noteq> 1" by blast
  then show ?thesis
  proof cases
    case 1
    then show ?thesis using big_rep_BigInteger [of 0] by (simp add: big_mul64_def)
  next
    case 2
    then show ?thesis using b by (simp add: big_mul64_def)
  next
    case 3
    then show ?thesis using big_is_iff [OF b, of 1] big_rep_BigInteger [of u] by (simp add: big_mul64_def)
  next
    case 4
    obtain r k where l: "mul_loop u 0 b = (r, k)" by fastforce
    have v: "length r = length b" "big_val r + 2 ^ (64 * length r) * unat k = n * unat u"
      using mul_loop_val [OF l] b by (auto simp: big_rep_def)
    have u2: "2 \<le> unat u" using 4(2,3) by (metis One_nat_def Suc_leI nat_less_le not_less_eq_eq numeral_2_eq_2 unat_1 unat_eq_0 unat_eq_iff_u64 zero_le)
    show ?thesis
    proof (cases "n = 0")
      case True
      then have "k = 0" "big_val r = 0" using v(2) by (auto simp: unat_eq_0)
      moreover have "length b = 1" using big_IsZero_iff [OF b] True by (simp add: big_IsZero_def)
      ultimately show ?thesis
        using 4 l v(1) True big_is_iff [OF b, of 1] by (auto simp: big_mul64_def big_rep_def kCapacity_def)
    next
      case False
      then show ?thesis using mul_finish_rep [OF b lim u2 False v] 4 l big_is_iff [OF b, of 1]
        by (simp add: big_mul64_def)
    qed
  qed
qed

lemma unat_and_32: "unat (x AND 0xFFFFFFFF :: u64) = unat x mod 2 ^ 32"
proof -
  have "x AND 0xFFFFFFFF = take_bit 32 x" by (simp add: take_bit_eq_mask mask_eq_exp_minus_1)
  then show ?thesis by (simp only: unsigned_take_bit_eq take_bit_nat_def)
qed

lemma unat_push_bit_64: "unat (push_bit s x :: u64) = (unat x * 2 ^ s) mod 2 ^ 64"
  by (simp only: unsigned_push_bit_eq take_bit_nat_def) (simp add: push_bit_nat_def)

lemma unat_low_or_high:
  "unat ((a AND 0xFFFFFFFF) OR push_bit 32 b :: u64) = unat a mod 2 ^ 32 + 2 ^ 32 * (unat b mod 2 ^ 32)"
proof -
  have "(a AND 0xFFFFFFFF) OR push_bit 32 b = (a AND 0xFFFFFFFF) + push_bit 32 b"
  proof -
    have "a AND 0xFFFFFFFF = take_bit 32 a" by (simp add: take_bit_eq_mask mask_eq_exp_minus_1)
    then show ?thesis by (simp only:) (rule disjunctive_add [symmetric], auto simp: bit_simps)
  qed
  moreover have h: "unat (push_bit 32 b) = 2 ^ 32 * (unat b mod 2 ^ 32)"
    using mult_mod_right [of "2 ^ 32" "unat b" "2 ^ 32"] by (simp add: unat_push_bit_64 mult.commute)
  moreover have "unat (a AND 0xFFFFFFFF) + unat (push_bit 32 b) < 2 ^ 64"
    unfolding h unat_and_32
    using mod_less_divisor [of "2 ^ 32" "unat a"] mod_less_divisor [of "2 ^ 32" "unat b"] by simp
  ultimately show ?thesis using unat_add_no_wrap [of "a AND 0xFFFFFFFF" "push_bit 32 b"]
    by (simp only: h unat_and_32) simp
qed

lemma mul32_digit_val:
  assumes "mul32_digit u k digit = (lo, hi)" and u: "unat u < 2 ^ 32" and k: "unat k < 2 ^ 32"
  shows "unat lo + 2 ^ 64 * unat hi = unat digit * unat u + unat k \<and> unat hi < 2 ^ 32"
proof -
  define c d where "c = unat digit div 2 ^ 32" and "d = unat digit mod 2 ^ 32"
  have cd: "unat digit = 2 ^ 32 * c + d" "c < 2 ^ 32" "d < 2 ^ 32"
    using unat_u64_less [of digit] by (simp_all add: c_def d_def div_less_iff_less_mult)
  define uc ud p0 p1 where "uc = unat u * c" and "ud = unat u * d" and "p0 = ud + unat k" and "p1 = uc + p0 div 2 ^ 32"
  have m: "unat u * x \<le> (2 ^ 32 - 1) * (2 ^ 32 - 1)" if "x < 2 ^ 32" for x
    using u that by (intro mult_mono) auto
  have bnd: "uc < 2 ^ 64" "ud < 2 ^ 64" "p0 < 2 ^ 64" "p1 < 2 ^ 64"
  proof -
    show "uc < 2 ^ 64" "ud < 2 ^ 64" using m [OF cd(2)] m [OF cd(3)] by (simp_all add: uc_def ud_def)
    show p0: "p0 < 2 ^ 64" using m [OF cd(3)] k by (simp add: p0_def ud_def)
    then have "p0 div 2 ^ 32 < 2 ^ 32" by (simp add: div_less_iff_less_mult)
    then show "p1 < 2 ^ 64" using m [OF cd(2)] by (simp add: p1_def uc_def)
  qed
  have w: "unat (u * drop_bit 32 digit) = uc" "unat (u * (digit AND 0xFFFFFFFF)) = ud"
    using bnd(1,2) by (simp_all add: unat_word_ariths unat_drop_bit unat_and_32 uc_def ud_def c_def d_def flip: drop_bit_eq_div)
  have w0: "unat (u * (digit AND 0xFFFFFFFF) + k) = p0"
    using bnd(3) w(2) by (simp add: unat_word_ariths p0_def)
  have w1: "unat (u * drop_bit 32 digit + drop_bit 32 (u * (digit AND 0xFFFFFFFF) + k)) = p1"
    using bnd(4) w(1) w0 unat_drop_bit [of 32 "u * (digit AND 0xFFFFFFFF) + k"] by (simp add: unat_word_ariths p1_def flip: drop_bit_eq_div)
  have lh: "(lo, hi) = mul32_digit u k digit" using assms(1) by simp
  have lo: "unat lo = p0 mod 2 ^ 32 + 2 ^ 32 * (p1 mod 2 ^ 32)" and hi: "unat hi = p1 div 2 ^ 32"
    using lh [unfolded mul32_digit_def Let_def] unfolding prod.inject
    by (simp_all only: unat_low_or_high w0 w1 unat_drop_bit)
  have "unat lo + 2 ^ 64 * unat hi = p0 mod 2 ^ 32 + 2 ^ 32 * (p1 mod 2 ^ 32 + 2 ^ 32 * (p1 div 2 ^ 32))"
  proof -
    have "(2::nat) ^ 64 = 2 ^ 32 * 2 ^ 32" by simp
    then show ?thesis unfolding lo hi by (simp only: distrib_left mult.assoc add.assoc)
  qed
  also have "\<dots> = p0 mod 2 ^ 32 + 2 ^ 32 * p1" by (simp only: mod_mult_div_eq)
  also have "\<dots> = (p0 mod 2 ^ 32 + 2 ^ 32 * (p0 div 2 ^ 32)) + 2 ^ 32 * uc" by (simp add: p1_def)
  also have "\<dots> = p0 + 2 ^ 32 * uc" by (simp only: mod_mult_div_eq)
  also have "\<dots> = unat digit * unat u + unat k" by (simp add: p0_def ud_def uc_def cd(1) algebra_simps)
  finally show ?thesis using hi bnd(4) by (simp add: div_less_iff_less_mult)
qed

lemma mul32_loop_val:
  assumes "mul32_loop u k ds = (r, k')" and "unat u < 2 ^ 32" and "unat k < 2 ^ 32"
  shows "length r = length ds \<and> big_val r + 2 ^ (64 * length r) * unat k' = big_val ds * unat u + unat k"
  using assms
proof (induction u k ds arbitrary: r k' rule: mul32_loop.induct)
  case (2 u k d ds)
  obtain lo hi where m: "mul32_digit u k d = (lo, hi)" by fastforce
  obtain r1 k1 where l: "mul32_loop u hi ds = (r1, k1)" by fastforce
  have r: "r = lo # r1" "k' = k1" using 2(2) by (simp_all add: m l)
  note v = mul32_digit_val [OF m 2(3,4)]
  have IH: "length r1 = length ds" "big_val r1 + 2 ^ (64 * length r1) * unat k1 = big_val ds * unat u + unat hi"
    using 2(1) [OF m [symmetric] refl l 2(3)] v by auto
  have "big_val r + 2 ^ (64 * length r) * unat k' = unat lo + 2 ^ 64 * (big_val r1 + 2 ^ (64 * length r1) * unat k1)"
    by (simp add: r power_add algebra_simps)
  also have "\<dots> = unat d * unat u + unat k + 2 ^ 64 * (big_val ds * unat u)"
    unfolding IH(2) using v by (simp add: algebra_simps)
  also have "\<dots> = big_val (d # ds) * unat u + unat k" by (simp add: algebra_simps)
  finally show ?case using IH(1) r by simp
qed simp

lemma big_mul32_rep:
  assumes b: "big_rep b n" and lim: "n * unat u < big_limit"
  shows "\<exists>r. big_mul32 b u = Inr r \<and> big_rep r (n * unat u)"
proof -
  have uu: "unat (ucast u :: u64) = unat u" "unat (ucast u :: u64) < 2 ^ 32"
    using unsigned_less [of u, where ?'a = nat]
    by (simp_all add: unsigned_ucast_eq take_bit_nat_eq_self)
  consider "u = 0" | "u = 1" | "n = 1" "u \<noteq> 0" "u \<noteq> 1" | "n \<noteq> 1" "u \<noteq> 0" "u \<noteq> 1" by blast
  then show ?thesis
  proof cases
    case 1
    then show ?thesis using big_rep_BigInteger [of 0] by (simp add: big_mul32_def)
  next
    case 2
    then show ?thesis using b by (simp add: big_mul32_def)
  next
    case 3
    then show ?thesis using big_is_iff [OF b, of 1] big_rep_BigInteger [of "ucast u"] uu by (simp add: big_mul32_def)
  next
    case 4
    obtain r k where l: "mul32_loop (ucast u) 0 b = (r, k)" by fastforce
    have v: "length r = length b" "big_val r + 2 ^ (64 * length r) * unat k = n * unat u"
      using mul32_loop_val [OF l] b uu by (auto simp: big_rep_def)
    have "unat u \<noteq> 0" "unat u \<noteq> 1" using 4(2,3) by (simp_all add: word_unat_eq_iff)
    then have u2: "2 \<le> unat u" by simp
    show ?thesis
    proof (cases "n = 0")
      case True
      then have "k = 0" "big_val r = 0" using v(2) by (auto simp: unat_eq_0)
      moreover have "length b = 1" using big_IsZero_iff [OF b] True by (simp add: big_IsZero_def)
      ultimately show ?thesis
        using 4 l v(1) True big_is_iff [OF b, of 1] by (auto simp: big_mul32_def big_rep_def kCapacity_def)
    next
      case False
      then show ?thesis using mul_finish_rep [OF b lim u2 False v] 4 l big_is_iff [OF b, of 1]
        by (simp add: big_mul32_def)
    qed
  qed
qed

lemma shl_digit:
  assumes "0 < s" "s < 64"
  shows "unat (push_bit s d OR drop_bit (kTypeBit - s) below :: u64) = unat d * 2 ^ s mod 2 ^ 64 + unat below div 2 ^ (64 - s)"
proof -
  let ?h = "drop_bit (kTypeBit - s) below"
  have h: "unat ?h = unat below div 2 ^ (64 - s)" using unat_drop_bit [of "64 - s" below] by (simp add: kTypeBit_def)
  have hb: "unat ?h < 2 ^ s"
  proof -
    have "unat below < 2 ^ s * 2 ^ (64 - s)" using unat_u64_less [of below] assms by (simp flip: power_add)
    then show ?thesis unfolding h by (simp add: div_less_iff_less_mult)
  qed
  have "unat ?h = unat (take_bit s ?h)" by (simp only: unsigned_take_bit_eq take_bit_nat_eq_self [OF hb])
  then have "?h = take_bit s ?h" unfolding unat_eq_iff_u64 .
  then have "push_bit s d OR ?h = push_bit s d OR take_bit s ?h" by simp
  also have "\<dots> = push_bit s d + take_bit s ?h" by (rule disjunctive_add [symmetric]) (auto simp: bit_simps)
  also have "take_bit s ?h = ?h" using \<open>?h = take_bit s ?h\<close> by simp
  finally have e: "push_bit s d OR ?h = push_bit s d + ?h" .
  have "unat (push_bit s d) + unat ?h < 2 ^ 64"
  proof -
    have "unat d * 2 ^ s mod 2 ^ 64 = 2 ^ s * (unat d mod 2 ^ (64 - s))"
      using mult_mod_right [of "2 ^ s" "unat d" "2 ^ (64 - s)"] assms by (simp add: mult.commute flip: power_add)
    moreover have "unat d mod 2 ^ (64 - s) + 1 \<le> 2 ^ (64 - s)" by (simp add: Suc_leI)
    then have "2 ^ s * (unat d mod 2 ^ (64 - s) + 1) \<le> 2 ^ s * 2 ^ (64 - s)" by (rule mult_left_mono) simp
    ultimately show ?thesis using hb assms by (simp add: unat_push_bit_64 flip: power_add)
  qed
  then have "unat (push_bit s d + ?h) = unat (push_bit s d) + unat ?h" by (intro unat_add_no_wrap) simp
  then show ?thesis unfolding e unat_push_bit_64 h .
qed

lemma shl_loop_val:
  assumes "0 < s" "s < 64"
  shows "length (shl_loop s below ds) = Suc (length ds) \<and>
    big_val (shl_loop s below ds) = unat below div 2 ^ (64 - s) + 2 ^ s * big_val ds"
proof (induction ds arbitrary: below)
  case Nil
  show ?case using unat_drop_bit [of "64 - s" below] by (simp add: kTypeBit_def)
next
  case (Cons d ds)
  have "unat d * 2 ^ s div 2 ^ 64 = unat d * 2 ^ s div (2 ^ s * 2 ^ (64 - s))"
    using assms by (simp flip: power_add)
  also have "\<dots> = unat d div 2 ^ (64 - s)" by (simp add: div_mult2_eq)
  finally have q: "unat d div 2 ^ (64 - s) = unat d * 2 ^ s div 2 ^ 64" by simp
  have "big_val (shl_loop s below (d # ds)) =
      unat d * 2 ^ s mod 2 ^ 64 + unat below div 2 ^ (64 - s) + 2 ^ 64 * (unat d div 2 ^ (64 - s) + 2 ^ s * big_val ds)"
    using Cons [of d] shl_digit [OF assms, of d below] by simp
  also have "\<dots> = unat below div 2 ^ (64 - s) + (unat d * 2 ^ s mod 2 ^ 64 + 2 ^ 64 * (unat d * 2 ^ s div 2 ^ 64))
      + 2 ^ 64 * (2 ^ s * big_val ds)"
    unfolding q by (simp only: distrib_left add_ac)
  also have "\<dots> = unat below div 2 ^ (64 - s) + 2 ^ s * big_val (d # ds)"
    unfolding mod_mult_div_eq by (simp add: algebra_simps)
  finally show ?case using Cons [of d] by simp
qed

lemma big_shl_rep:
  assumes b: "big_rep b n" and lim: "n * 2 ^ s < big_limit"
  shows "\<exists>r. big_shl b s = Inr r \<and> big_rep r (n * 2 ^ s)"
proof (cases "n = 0 \<or> s = 0")
  case True
  then show ?thesis using b big_IsZero_iff [OF b] by (auto simp: big_shl_def)
next
  case False
  define off i where "off = s div 64" and "i = s mod 64"
  have s: "s = 64 * off + i" "i < 64" by (simp_all add: off_def i_def)
  have z: "\<not> (big_IsZero b \<or> s = 0)" using False big_IsZero_iff [OF b] by simp
  have low: "2 ^ (64 * (length b - 1)) \<le> n"
    using big_rep_lower [OF b] False b by (cases "length b = 1") (auto simp: big_rep_def neq_Nil_conv)
  have "2 ^ (64 * (length b - 1) + 64 * off) \<le> n * 2 ^ s"
    using mult_mono [OF low power_increasing [of "64 * off" s 2]] s by (simp add: power_add)
  then have low2: "2 ^ (64 * (length b - 1 + off)) \<le> n * 2 ^ s" by (simp only: distrib_left)
  then have "(2::nat) ^ (64 * (length b - 1 + off)) < 2 ^ (64 * (kCapacity - 1))"
    using lim unfolding big_limit_def by linarith
  then have cap: "length b + off < kCapacity" using b by (auto simp: big_rep_def power_strict_increasing_iff)
  show ?thesis
  proof (cases "i = 0")
    case True
    have "big_rep (replicate off 0 @ b) (n * 2 ^ s)"
    proof (rule big_repI)
      show "2 ^ (64 * (length (replicate off 0 @ b) - 1)) \<le> n * 2 ^ s"
        using low2 b by (cases b) (auto simp: big_rep_def add.commute)
      show "big_val (replicate off 0 @ b) = n * 2 ^ s"
        using b s True by (simp add: big_val_append big_rep_def mult.commute)
    qed (use b cap in \<open>auto simp: big_rep_def\<close>)
    then show ?thesis using z cap True by (simp add: big_shl_def Let_def kTypeBit_def off_def i_def)
  next
    case False
    define r where "r = shl_loop i 0 b"
    have r: "length r = Suc (length b)" "big_val r = 2 ^ i * n"
      using shl_loop_val [of i 0 b] False s(2) b by (auto simp: r_def big_rep_def)
    define r' where "r' = (if last r \<noteq> 0 then r else butlast r)"
    have ne: "r \<noteq> []" "b \<noteq> []" using r b by (auto simp: big_rep_def)
    have v: "big_val r' = 2 ^ i * n"
      using r(2) big_val_append [of "butlast r" "[last r]"] ne by (auto simp: r'_def)
    have "big_rep (replicate off 0 @ r') (n * 2 ^ s)"
    proof (rule big_repI)
      show val: "big_val (replicate off 0 @ r') = n * 2 ^ s" using v s by (simp add: big_val_append power_add)
      show "2 ^ (64 * (length (replicate off 0 @ r') - 1)) \<le> n * 2 ^ s"
      proof (cases "last r = 0")
        case True
        then have "length (replicate off 0 @ r') - 1 = length b - 1 + off"
          using r(1) ne by (cases b) (auto simp: r'_def)
        then show ?thesis using low2 by (simp only:)
      next
        case False
        then show ?thesis using big_val_last [of "replicate off 0 @ r'"] val ne by (simp add: r'_def)
      qed
      have "length b \<le> length r'" using r(1) by (simp add: r'_def)
      then show "replicate off 0 @ r' \<noteq> []" using ne(2) by auto
    qed (use cap r in \<open>auto simp: r'_def\<close>)
    moreover have "big_shl b s = Inr (replicate off 0 @ r')"
      using z cap False by (simp add: big_shl_def Let_def kTypeBit_def r'_def r_def flip: off_def i_def)
    ultimately show ?thesis by blast
  qed
qed

lemma pow5_27: "unat (0x6765C793FA10079D :: u64) = 5 ^ 27" by simp

lemma mul_pow5_27_rep:
  assumes "big_rep b n" and "n * 5 ^ e < big_limit"
  shows "\<exists>r e'. mul_pow5_27 b e = Inr (r, e') \<and> e' < 27 \<and> e' \<le> e \<and> big_rep r (n * 5 ^ (e - e'))"
  using assms
proof (induction b e arbitrary: n rule: mul_pow5_27.induct)
  case (1 b e)
  show ?case
  proof (cases "27 \<le> e")
    case True
    have split: "(5::nat) ^ e = 5 ^ 27 * 5 ^ (e - 27)" using True by (simp only: le_add_diff_inverse flip: power_add)
    have "n * 5 ^ 27 \<le> n * 5 ^ e" using True by (intro mult_left_mono power_increasing) auto
    then have "n * unat (0x6765C793FA10079D :: u64) < big_limit" using 1(3) unfolding pow5_27 by linarith
    from big_mul64_rep [OF 1(2) this] obtain r where r: "big_mul64 b 0x6765C793FA10079D = Inr r" "big_rep r (n * 5 ^ 27)"
      unfolding pow5_27 by blast
    have "n * 5 ^ 27 * 5 ^ (e - 27) < big_limit" using 1(3) split by (simp only: mult.assoc)
    from 1(1) [OF True r(2) this] obtain r' e' where r': "mul_pow5_27 r (e - 27) = Inr (r', e')" "e' < 27"
      "e' \<le> e - 27" "big_rep r' (n * 5 ^ 27 * 5 ^ (e - 27 - e'))" by blast
    have "n * 5 ^ 27 * 5 ^ (e - 27 - e') = n * 5 ^ (e - e')"
      using True r'(3) by (simp only: mult.assoc flip: power_add) simp
    then have "big_rep r' (n * 5 ^ (e - e'))" using r'(4) by (simp only:)
    then show ?thesis using r(1) r'(1-3) True by (subst mul_pow5_27.simps) auto
  next
    case False
    then show ?thesis using 1(2) by (subst mul_pow5_27.simps) auto
  qed
qed

lemma pow5_13: "unat (1220703125 :: 32 word) = 5 ^ 13" by simp

lemma mul_pow5_13_rep:
  assumes "big_rep b n" and "n * 5 ^ e < big_limit"
  shows "\<exists>r e'. mul_pow5_13 b e = Inr (r, e') \<and> e' < 13 \<and> e' \<le> e \<and> big_rep r (n * 5 ^ (e - e'))"
  using assms
proof (induction b e arbitrary: n rule: mul_pow5_13.induct)
  case (1 b e)
  show ?case
  proof (cases "13 \<le> e")
    case True
    have split: "(5::nat) ^ e = 5 ^ 13 * 5 ^ (e - 13)" using True by (simp only: le_add_diff_inverse flip: power_add)
    have "n * 5 ^ 13 \<le> n * 5 ^ e" using True by (intro mult_left_mono power_increasing) auto
    then have "n * unat (1220703125 :: 32 word) < big_limit" using 1(3) unfolding pow5_13 by linarith
    from big_mul32_rep [OF 1(2) this] obtain r where r: "big_mul32 b 1220703125 = Inr r" "big_rep r (n * 5 ^ 13)"
      unfolding pow5_13 by blast
    have "n * 5 ^ 13 * 5 ^ (e - 13) < big_limit" using 1(3) split by (simp only: mult.assoc)
    from 1(1) [OF True r(2) this] obtain r' e' where r': "mul_pow5_13 r (e - 13) = Inr (r', e')" "e' < 13"
      "e' \<le> e - 13" "big_rep r' (n * 5 ^ 13 * 5 ^ (e - 13 - e'))" by blast
    have "n * 5 ^ 13 * 5 ^ (e - 13 - e') = n * 5 ^ (e - e')"
      using True r'(3) by (simp only: mult.assoc flip: power_add) simp
    then have "big_rep r' (n * 5 ^ (e - e'))" using r'(4) by (simp only:)
    then show ?thesis using r(1) r'(1-3) True by (subst mul_pow5_13.simps) auto
  next
    case False
    then show ?thesis using 1(2) by (subst mul_pow5_13.simps) auto
  qed
qed

lemma kPow5_val:
  assumes "0 < e" "e < 13"
  shows "unat (kPow5 ! (e - 1)) = 5 ^ e"
proof -
  have k: "kPow5 = map (\<lambda>i. of_nat (5 ^ Suc i)) [0..<12]" by (simp add: kPow5_def upt_rec)
  have "e - 1 < length [0..<12]" "Suc (e - 1) = e" using assms by simp_all
  then have "kPow5 ! (e - 1) = of_nat (5 ^ e)" unfolding k by (subst nth_map) simp_all
  moreover have "(5::nat) ^ e \<le> 5 ^ 12" using assms by (intro power_increasing) auto
  ultimately show ?thesis by (simp only: unat_of_nat) (simp add: take_bit_nat_eq_self)
qed

lemma MultiplyPow5_rep:
  assumes b: "big_rep b n" and lim: "n * 5 ^ e < big_limit"
  shows "\<exists>r. MultiplyPow5 b e = Inr r \<and> big_rep r (n * 5 ^ e)"
proof (cases "e = 0")
  case False
  from mul_pow5_27_rep [OF b lim] obtain r1 e1 where 1: "mul_pow5_27 b e = Inr (r1, e1)" "e1 \<le> e"
    "big_rep r1 (n * 5 ^ (e - e1))" by blast
  have s1: "n * 5 ^ (e - e1) * 5 ^ e1 = n * 5 ^ e" using 1(2) by (simp only: mult.assoc flip: power_add) simp
  from mul_pow5_13_rep [OF 1(3)] s1 lim obtain r2 e2 where 2: "mul_pow5_13 r1 e1 = Inr (r2, e2)" "e2 < 13" "e2 \<le> e1"
    "big_rep r2 (n * 5 ^ (e - e1) * 5 ^ (e1 - e2))" by metis
  have s2: "n * 5 ^ (e - e1) * 5 ^ (e1 - e2) * 5 ^ e2 = n * 5 ^ e"
    using s1 2(3) by (simp only: mult.assoc flip: power_add) simp
  show ?thesis
  proof (cases "e2 = 0")
    case True
    then have "big_rep r2 (n * 5 ^ e)" using 2(4) s1 by simp
    then show ?thesis using 1(1) 2(1) True False by (simp add: MultiplyPow5_def)
  next
    case nz: False
    then have k: "unat (kPow5 ! (e2 - 1)) = 5 ^ e2" using kPow5_val 2(2) by simp
    from big_mul32_rep [OF 2(4), of "kPow5 ! (e2 - 1)"] lim
    obtain r where "big_mul32 r2 (kPow5 ! (e2 - 1)) = Inr r" "big_rep r (n * 5 ^ e)"
      unfolding k s2 by blast
    then show ?thesis using 1 2 nz False by (simp add: MultiplyPow5_def)
  qed
qed (use b in \<open>simp add: MultiplyPow5_def\<close>)

lemma compare_from_top_val:
  "length xs = length ys \<Longrightarrow> compare_from_top xs ys =
     (if big_val (rev xs) < big_val (rev ys) then - 1 else if big_val (rev xs) = big_val (rev ys) then 0 else 1)"
proof (induction xs ys rule: compare_from_top.induct)
  case (1 x xs y ys)
  define P :: nat where "P = 2 ^ (64 * length xs)"
  have v: "big_val (rev (x # xs)) = big_val (rev xs) + P * unat x" "big_val (rev (y # ys)) = big_val (rev ys) + P * unat y"
    using 1(2) by (simp_all add: big_val_append P_def)
  have b: "big_val (rev xs) < P" "big_val (rev ys) < P"
    using big_val_less [of "rev xs"] big_val_less [of "rev ys"] 1(2) by (simp_all add: P_def)
  have less: "big_val (rev us) + P * unat u < big_val (rev ws) + P * unat w" if "u < w" "big_val (rev us) < P" for u w :: u64 and us ws
  proof -
    have "unat u + 1 \<le> unat w" using that(1) by (simp add: word_less_nat_alt)
    then have "P * (unat u + 1) \<le> P * unat w" by (rule mult_left_mono) simp
    then show ?thesis using that(2) by simp
  qed
  consider "x < y" | "y < x" | "x = y" by (rule linorder_cases)
  then show ?case
  proof cases
    case 1
    then show ?thesis using less [OF 1 b(1), of ys] v by auto
  next
    case 2
    then show ?thesis using less [OF 2 b(2), of xs] v by auto
  next
    case 3
    then show ?thesis using 1 v by simp
  qed
qed auto

lemma Compare_rep:
  assumes a: "big_rep a n" and b: "big_rep b m"
  shows "Compare a b = (if n < m then - 1 else if n = m then 0 else 1)"
proof -
  have shorter: "k < l" if "big_rep c k" "big_rep d l" "length c < length d" for c d k l
  proof -
    have "k < 2 ^ (64 * length c)" using that(1) big_val_less [of c] by (auto simp: big_rep_def)
    also have "\<dots> \<le> 2 ^ (64 * (length d - 1))" using that(3) by (intro power_increasing) auto
    also have "\<dots> \<le> l" using big_rep_lower [OF that(2)] that by (cases c) (auto simp: big_rep_def)
    finally show ?thesis .
  qed
  consider "length a < length b" | "length b < length a" | "length a = length b" by linarith
  then show ?thesis
  proof cases
    case 1
    then show ?thesis using shorter [OF a b] by (simp add: Compare_def)
  next
    case 2
    then show ?thesis using shorter [OF b a] by (simp add: Compare_def)
  next
    case 3
    then show ?thesis using compare_from_top_val [of "rev a" "rev b"] a b by (simp add: Compare_def big_rep_def)
  qed
qed

lemma ParseUint64_val:
  "\<forall>c\<in>set s. is_digit c \<Longrightarrow> ParseUint64 r s = Inr (r * 10 ^ length s + of_nat (dec_to_nat s))"
proof (induction s arbitrary: r)
  case (Cons c s)
  then show ?case by (simp add: dec_to_nat_Cons algebra_simps)
qed (simp add: dec_to_nat_def)

lemma AppendDecimal64_rep:
  assumes b: "big_rep b n" and dig: "\<forall>c\<in>set s. is_digit c" and len: "length s \<le> 19" and ne: "s \<noteq> []"
    and lim: "n * 10 ^ length s < big_limit"
  shows "\<exists>r. AppendDecimal64 b s = Inr r \<and> big_rep r (n * 10 ^ length s + dec_to_nat s)"
proof -
  define u :: u64 where "u = of_nat (dec_to_nat s)"
  have "dec_to_nat s < 10 ^ length s" using dec_to_nat_less [OF dig] .
  also have "\<dots> \<le> 10 ^ 19" using len by (intro power_increasing) auto
  finally have u: "unat u = dec_to_nat s" unfolding u_def by (intro u64_of_nat_unat) simp
  have p: "ParseUint64 0 s = Inr u" using ParseUint64_val [OF dig, of 0] by (simp add: u_def)
  show ?thesis
  proof (cases "n = 0")
    case True
    then show ?thesis using p big_IsZero_iff [OF b] big_rep_BigInteger [of u] u by (simp add: AppendDecimal64_def)
  next
    case False
    have ten: "n * 5 ^ length s * 2 ^ length s = n * 10 ^ length s" by (simp flip: power_mult_distrib)
    have "n * 5 ^ length s \<le> n * 10 ^ length s" by (intro mult_left_mono power_mono) auto
    then have "n * 5 ^ length s < big_limit" using lim by linarith
    from MultiplyPow5_rep [OF b this] obtain r1 where 1: "MultiplyPow5 b (length s) = Inr r1" "big_rep r1 (n * 5 ^ length s)" by blast
    from big_shl_rep [OF 1(2), of "length s"] obtain r2 where 2: "big_shl r1 (length s) = Inr r2" "big_rep r2 (n * 10 ^ length s)"
      unfolding ten using lim by blast
    from big_add_rep [OF 2(2) lim, of u] u show ?thesis
      using p 1(1) 2(1) False big_IsZero_iff [OF b] by (simp add: AppendDecimal64_def)
  qed
qed

lemma decimals_loop_rep:
  assumes "big_rep b n" "\<forall>c\<in>set s. is_digit c" "(n + 1) * 10 ^ length s \<le> big_limit"
  shows "\<exists>r. decimals_loop b s = Inr r \<and> big_rep r (n * 10 ^ length s + dec_to_nat s)"
  using assms
proof (induction b s arbitrary: n rule: decimals_loop.induct)
  case (1 b s)
  have lim: "n * 10 ^ length u < big_limit" if "length u \<le> length s" for u :: string
  proof -
    have "n * 10 ^ length u \<le> n * 10 ^ length s" using that by (intro mult_left_mono power_increasing) auto
    also have "\<dots> < (n + 1) * 10 ^ length s" by simp
    finally show ?thesis using 1(4) by linarith
  qed
  consider "19 \<le> length s" | "length s < 19" "s \<noteq> []" | "s = []" by fastforce
  then show ?case
  proof cases
    case c1: 1
    define u v where "u = take 19 s" and "v = drop 19 s"
    have uv: "s = u @ v" "length u = 19" "u \<noteq> []" "\<forall>c\<in>set u. is_digit c" "\<forall>c\<in>set v. is_digit c"
      using c1 1(3) by (auto simp: u_def v_def dest: in_set_takeD in_set_dropD)
    obtain r where r: "AppendDecimal64 b u = Inr r" "big_rep r (n * 10 ^ length u + dec_to_nat u)"
      using AppendDecimal64_rep [OF 1(2) uv(4) _ uv(3) lim] uv(1,2) by auto
    have "(n * 10 ^ length u + dec_to_nat u + 1) * 10 ^ length v \<le> (n + 1) * 10 ^ length s"
    proof -
      have "n * 10 ^ length u + dec_to_nat u + 1 \<le> (n + 1) * 10 ^ length u" using dec_to_nat_less [OF uv(4)] by simp
      then have "(n * 10 ^ length u + dec_to_nat u + 1) * 10 ^ length v \<le> (n + 1) * 10 ^ length u * 10 ^ length v"
        by (rule mult_right_mono) simp
      also have "\<dots> = (n + 1) * 10 ^ length s" by (simp only: uv(1) length_append power_add mult.assoc)
      finally show ?thesis .
    qed
    then have "(n * 10 ^ length u + dec_to_nat u + 1) * 10 ^ length v \<le> big_limit" using 1(4) by linarith
    moreover have "length s \<ge> kMaxDigitPerIteration" using c1 by (simp add: kMaxDigitPerIteration_def)
    ultimately obtain r' where r': "decimals_loop r v = Inr r'"
      "big_rep r' ((n * 10 ^ length u + dec_to_nat u) * 10 ^ length v + dec_to_nat v)"
      using 1(1) [OF _ r(2)] uv(5) by (auto simp: kMaxDigitPerIteration_def v_def)
    have "(n * 10 ^ length u + dec_to_nat u) * 10 ^ length v + dec_to_nat v = n * 10 ^ length s + dec_to_nat s"
      by (simp add: uv(1) dec_to_nat_append power_add algebra_simps)
    then show ?thesis
      using r(1) r' c1 by (subst decimals_loop.simps) (simp add: kMaxDigitPerIteration_def u_def v_def)
  next
    case 2
    then have "decimals_loop b s = AppendDecimal64 b s"
      by (subst decimals_loop.simps) (simp add: kMaxDigitPerIteration_def)
    then show ?thesis using AppendDecimal64_rep [OF 1(2,3) _ 2(2) lim] 2(1) by simp
  next
    case 3
    then show ?thesis using 1(2) by (subst decimals_loop.simps) (simp add: kMaxDigitPerIteration_def dec_to_nat_def)
  qed
qed



section \<open>Subtraction\<close>

lemma diff_digit:
  fixes a b bo :: u64
  assumes "bo = 0 \<or> bo = 1" and "bo = 1 \<Longrightarrow> b \<noteq> 0xFFFFFFFFFFFFFFFF"
  shows "int (unat (a - bo - b)) = int (unat a) - int (unat bo) - int (unat b) + (if a - bo - b > a then 2 ^ 64 else 0)"
proof -
  define s where "s = bo + b"
  have "unat bo + unat b < 2 ^ 64"
  proof (cases "bo = 1")
    case True
    have "unat b \<noteq> 2 ^ 64 - 1" using assms(2) [OF True] unat_eq_iff_u64 [of b "0xFFFFFFFFFFFFFFFF"] by simp
    then show ?thesis using unat_u64_less [of b] True by simp
  next
    case False
    then show ?thesis using unat_u64_less [of b] assms(1) by simp
  qed
  then have s: "unat s = unat bo + unat b" unfolding s_def by (intro unat_add_no_wrap) simp
  have e: "a - bo - b = a - s" by (simp add: s_def)
  show ?thesis
  proof (cases "s \<le> a")
    case True
    then have "unat (a - s) = unat a - unat s" "unat s \<le> unat a" by (simp_all add: unat_sub word_le_nat_alt)
    then show ?thesis unfolding e using s by (simp add: word_less_nat_alt)
  next
    case False
    then have "unat a < unat s" by (simp add: word_le_nat_alt)
    then have "unat (a - s) = 2 ^ 64 + unat a - unat s"
      using unat_u64_less [of s] by (simp add: unat_sub_if_size word_size word_le_nat_alt)
    then show ?thesis unfolding e using s \<open>unat a < unat s\<close> unat_u64_less [of s] by (simp add: word_less_nat_alt)
  qed
qed

lemma diff_loop_val:
  assumes "bo = 0 \<or> bo = 1" "0xFFFFFFFFFFFFFFFF \<notin> set bs" "length bs \<le> length as"
  shows "length (diff_loop bo as bs) = length as \<and> (\<exists>c. c \<in> {0, 1} \<and>
    int (big_val (diff_loop bo as bs)) = int (big_val as) - int (big_val bs) - int (unat bo) + c * 2 ^ (64 * length as))"
  using assms
proof (induction bo as bs rule: diff_loop.induct)
  case (1 bo bs)
  then show ?case by (auto intro: exI [of _ "int (unat bo)"])
next
  case (2 bo a as bs)
  define b where "b = (case bs of [] \<Rightarrow> 0 | b # _ \<Rightarrow> b)"
  define d where "d = a - bo - b"
  define bo' :: u64 where "bo' = (if d > a then 1 else 0)"
  have vb: "big_val bs = unat b + 2 ^ 64 * big_val (tl bs)" by (cases bs) (simp_all add: b_def)
  have db: "diff_loop bo (a # as) bs = d # diff_loop bo' as (tl bs)"
    by (cases bs) (simp_all add: Let_def d_def bo'_def b_def)
  have "b \<noteq> 0xFFFFFFFFFFFFFFFF" using 2(3) by (cases bs) (auto simp: b_def)
  then have d: "int (unat d) = int (unat a) - int (unat bo) - int (unat b) + 2 ^ 64 * int (unat bo')"
    using diff_digit [OF 2(2), of b a] by (simp add: d_def bo'_def)
  have IH: "length (diff_loop bo' as (tl bs)) = length as \<and> (\<exists>c. c \<in> {0, 1} \<and>
    int (big_val (diff_loop bo' as (tl bs))) = int (big_val as) - int (big_val (tl bs)) - int (unat bo') + c * 2 ^ (64 * length as))"
    using 2(1) [of "a - bo" d bo'] 2(3,4) by (cases bs) (auto simp: d_def bo'_def b_def)
  then obtain c where c: "c \<in> {0, 1}"
    "int (big_val (diff_loop bo' as (tl bs))) = int (big_val as) - int (big_val (tl bs)) - int (unat bo') + c * 2 ^ (64 * length as)" by blast
  have "int (big_val (diff_loop bo (a # as) bs)) =
      int (unat d) + 2 ^ 64 * (int (big_val as) - int (big_val (tl bs)) - int (unat bo') + c * 2 ^ (64 * length as))"
    unfolding db by (simp add: c(2))
  also have "\<dots> = int (big_val (a # as)) - int (big_val bs) - int (unat bo) + c * 2 ^ (64 * length (a # as))"
    unfolding d vb by (simp add: algebra_simps power_add)
  finally show ?case using IH c(1) db by auto
qed

lemma big_val_strip: "big_val (rev (dropWhile (\<lambda>d. d = 0) (rev ds))) = big_val ds"
proof (induction ds rule: rev_induct)
  case (snoc d ds)
  then show ?case by (cases "d = 0") (simp_all add: big_val_append)
qed simp

lemma out_count_rep:
  assumes "ds \<noteq> []" "length ds \<le> kCapacity"
  shows "big_rep (out_count ds) (big_val ds)"
proof -
  define r where "r = rev (dropWhile (\<lambda>d. d = 0) (rev ds))"
  have v: "big_val r = big_val ds" unfolding r_def by (rule big_val_strip)
  have len: "length r \<le> length ds" unfolding r_def using length_dropWhile_le [of _ "rev ds"] by simp
  show ?thesis
  proof (cases "r = []")
    case True
    then have "\<forall>d\<in>set ds. d = 0" by (simp add: r_def dropWhile_eq_Nil_conv)
    then obtain n where "ds = replicate (Suc n) 0" using assms(1)
      by (metis length_greater_0_conv gr0_implies_Suc replicate_eqI)
    then show ?thesis using True assms by (simp add: out_count_def r_def [symmetric] big_rep_def kCapacity_def)
  next
    case False
    then have "last r \<noteq> 0" unfolding r_def using hd_dropWhile [of "\<lambda>d. d = 0" "rev ds"] by (simp add: last_rev)
    then show ?thesis using False v len assms(2) by (simp add: out_count_def r_def [symmetric] big_rep_def)
  qed
qed

lemma diff_exact:
  assumes a: "big_rep a n" and b: "big_rep b m" and "m < n" and "0xFFFFFFFFFFFFFFFF \<notin> set b"
  shows "big_rep (out_count (diff_loop 0 a b)) (n - m)"
proof -
  have "\<not> length a < length b" using Compare_rep [OF a b] assms(3) by (auto simp: Compare_def split: if_splits)
  then obtain c where l: "length (diff_loop 0 a b) = length a" and c: "c \<in> {0, 1}"
    "int (big_val (diff_loop 0 a b)) = int (big_val a) - int (big_val b) - int (unat (0::u64)) + c * 2 ^ (64 * length a)"
    using diff_loop_val [of 0 b a] assms(4) by force
  have v: "big_val a = n" "big_val b = m" using a b by (auto simp: big_rep_def)
  have "int (big_val (diff_loop 0 a b)) < 2 ^ (64 * length a)"
    using big_val_less [of "diff_loop 0 a b"] l by (metis of_nat_less_iff of_nat_numeral of_nat_power)
  then have "c = 0" using c assms(3) v by auto
  then have "big_val (diff_loop 0 a b) = n - m" using c(2) v assms(3) by simp
  moreover have "diff_loop 0 a b \<noteq> []" "length (diff_loop 0 a b) \<le> kCapacity" using l a by (auto simp: big_rep_def)
  ultimately show ?thesis using out_count_rep by metis
qed

text \<open>
  \<^verbatim>\<open>Difference\<close> is exact when no digit of the smaller number has all bits set.
\<close>

lemma Difference_exact:
  assumes "big_rep a n" "big_rep b m" "n \<noteq> m" "0xFFFFFFFFFFFFFFFF \<notin> set (if m < n then b else a)"
  shows "\<exists>r. Difference a b = Inr (n < m, r) \<and> big_rep r (max n m - min n m)"
proof (cases "m < n")
  case True
  then show ?thesis using diff_exact [OF assms(1,2)] assms(4) Compare_rep [OF assms(1,2)]
    by (simp add: Difference_def Let_def)
next
  case False
  then have "n < m" using assms(3) by simp
  then show ?thesis using diff_exact [OF assms(2,1)] assms(4) Compare_rep [OF assms(1,2)]
    by (simp add: Difference_def Let_def)
qed


end
