(* ===== verification/Strtod.thy ===== *)
theory Strtod
  imports Dtoa Big_Integer
begin

text \<open>
  From decimal digits to a double in the RapidJSON reader: rapidjson/internal/strtod.h with
  pow10.h and the functions of ieee754.h and diyfp.h that only the reader uses. The service reads with
  the default flags, that is with \<^verbatim>\<open>StrtodNormalPrecision\<close>.
\<close>

unbundle bit_operations_syntax

section \<open>Powers of ten\<close>

text \<open>The table holds the literals \<^verbatim>\<open>1e+0\<close> to \<^verbatim>\<open>1e+308\<close>, rounded by the compiler.\<close>

definition Pow10 :: "int \<Rightarrow> double result" where
  "Pow10 n = (if 0 \<le> n \<and> n \<le> 308 then Inr (round_ratio False (10 ^ nat n) 1) else Inl AssertionFailed)"

definition FastPath :: "double \<Rightarrow> int \<Rightarrow> double result" where
  "FastPath sig expn =
     (if expn < - 308 then Inr dzero
      else if expn \<ge> 0 then rbind (Pow10 expn) (\<lambda>t. Inr (dmul sig t))
      else rbind (Pow10 (- expn)) (\<lambda>t. Inr (ddiv sig t)))"

definition StrtodNormalPrecision :: "double \<Rightarrow> int \<Rightarrow> double result" where
  "StrtodNormalPrecision d p =
     (if p < - 308 then rbind (FastPath d (- 308)) (\<lambda>d. FastPath d (p + 308))
      else FastPath d p)"

section \<open>Bits\<close>

text \<open>The double with a given object representation.\<close>

definition bits_double :: "u64 \<Rightarrow> double" where
  "bits_double u =
     (let s = (u AND kSignMask \<noteq> 0);
          e = unat (drop_bit 52 (u AND kExponentMask));
          m = unat (u AND kSignificandMask)
      in if e = 0x7FF then (if m = 0 then Inf s else NaN)
         else if e = 0 then Fin s m (- 1074)
         else Fin s (2 ^ 52 + m) (int e - 1075))"

definition Exponent :: "u64 \<Rightarrow> int" where
  "Exponent u = uint (drop_bit 52 (u AND kExponentMask)) - 0x3FF"

definition IsNormal :: "u64 \<Rightarrow> bool" where
  "IsNormal u \<longleftrightarrow> u AND kExponentMask \<noteq> 0 \<or> Significand u = 0"

definition IntegerSignificand :: "u64 \<Rightarrow> u64" where
  "IntegerSignificand u = (if IsNormal u then Significand u OR kHiddenBit else Significand u)"

definition IntegerExponent :: "u64 \<Rightarrow> int" where
  "IntegerExponent u = (if IsNormal u then Exponent u else 1 - 0x3FF) - 52"

definition NextPositiveDouble :: "u64 \<Rightarrow> double result" where
  "NextPositiveDouble u = (if Sign u then Inl AssertionFailed else Inr (bits_double (u + 1)))"

definition EffectiveSignificandSize :: "int \<Rightarrow> int" where
  "EffectiveSignificandSize order =
     (if order \<ge> - 1021 then 53 else if order \<le> - 1074 then 0 else order + 1074)"

definition kDpMaxExponent :: int where "kDpMaxExponent = 0x7FF - kDpExponentBias"
definition kDpDenormalExponent :: int where "kDpDenormalExponent = - kDpExponentBias + 1"

definition ToDouble :: "DiyFp \<Rightarrow> double result" where
  "ToDouble a =
     (let f = dp_f a; e = dp_e a in
      if f > kHiddenBit + kSignificandMask then Inl AssertionFailed
      else if e < kDpDenormalExponent then Inr dzero
      else if e \<ge> kDpMaxExponent then Inr (Inf False)
      else let be = (if e = kDpDenormalExponent \<and> f AND kHiddenBit = 0 then 0
                     else word_of_int (e + kDpExponentBias)) :: u64
           in Inr (bits_double ((f AND kSignificandMask) OR push_bit 52 be)))"

section \<open>Comparison with half a unit in the last place\<close>

definition Min3 :: "int \<Rightarrow> int \<Rightarrow> int \<Rightarrow> int" where
  "Min3 a b c = (let m = a; m = (if m > b then b else m) in if m > c then c else m)"

definition big_scale :: "bigint \<Rightarrow> int \<Rightarrow> int \<Rightarrow> bigint result" where
  "big_scale b exp5 exp2 = rbind (MultiplyPow5 b (nat exp5)) (\<lambda>b. big_shl b (nat exp2))"

definition CheckWithinHalfULP :: "double \<Rightarrow> bigint \<Rightarrow> int \<Rightarrow> int result" where
  "CheckWithinHalfULP b d dExp =
     (let bInt = IntegerSignificand (double_bits b);
          bExp = IntegerExponent (double_bits b);
          hExp = bExp - 1;
          (dS_Exp2, dS_Exp5, bS_Exp2, bS_Exp5, hS_Exp2, hS_Exp5) =
            (if dExp \<ge> 0 then (dExp, dExp, 0, 0, 0, 0) else (0, 0, - dExp, - dExp, - dExp, - dExp));
          (dS_Exp2, bS_Exp2, hS_Exp2) =
            (if bExp \<ge> 0 then (dS_Exp2, bS_Exp2 + bExp, hS_Exp2) else (dS_Exp2 - bExp, bS_Exp2, hS_Exp2 - bExp));
          (dS_Exp2, bS_Exp2, hS_Exp2) =
            (if hExp \<ge> 0 then (dS_Exp2, bS_Exp2, hS_Exp2 + hExp) else (dS_Exp2 - hExp, bS_Exp2 - hExp, hS_Exp2));
          common_Exp2 = Min3 dS_Exp2 bS_Exp2 hS_Exp2
      in rbind (big_scale d dS_Exp5 (dS_Exp2 - common_Exp2)) (\<lambda>dS.
         rbind (big_scale (BigInteger bInt) bS_Exp5 (bS_Exp2 - common_Exp2)) (\<lambda>bS.
         rbind (big_scale (BigInteger 1) hS_Exp5 (hS_Exp2 - common_Exp2)) (\<lambda>hS.
         rbind (Difference dS bS) (\<lambda>(_, delta). Inr (Compare delta hS))))))"

section \<open>Full precision\<close>

definition StrtodFast :: "double \<Rightarrow> int \<Rightarrow> double option result" where
  "StrtodFast d p =
     rbind (if p > 22 \<and> p < 22 + 16 then rbind (Pow10 (p - 22)) (\<lambda>t. Inr (dmul d t, 22)) else Inr (d, p))
       (\<lambda>(d, p). if p \<ge> - 22 \<and> p \<le> 22 \<and> dge (int_to_double 9007199254740991) d
                 then rbind (FastPath d p) (\<lambda>r. Inr (Some r)) else Inr None)"

text \<open>The digits that fit into 64 bits, and how many they are.\<close>

fun significand_loop :: "u64 \<Rightarrow> string \<Rightarrow> nat \<Rightarrow> u64 \<times> string \<times> nat" where
  "significand_loop sig [] i = (sig, [], i)"
| "significand_loop sig (c # cs) i =
     (if sig > 0x1999999999999999 \<or> sig = 0x1999999999999999 \<and> digit_val c \<ge> 5 then (sig, c # cs, i)
      else significand_loop (sig * 10 + of_nat (digit_val c)) cs (i + 1))"

definition kPow10 :: "DiyFp list" where
  "kPow10 =
     [\<lparr>dp_f = 0xa000000000000000, dp_e = - 60\<rparr>, \<lparr>dp_f = 0xc800000000000000, dp_e = - 57\<rparr>,
      \<lparr>dp_f = 0xfa00000000000000, dp_e = - 54\<rparr>, \<lparr>dp_f = 0x9c40000000000000, dp_e = - 50\<rparr>,
      \<lparr>dp_f = 0xc350000000000000, dp_e = - 47\<rparr>, \<lparr>dp_f = 0xf424000000000000, dp_e = - 44\<rparr>,
      \<lparr>dp_f = 0x9896800000000000, dp_e = - 40\<rparr>]"

text \<open>The approximation, and whether it is known to be within half a unit in the last place.\<close>

definition StrtodDiyFp :: "string \<Rightarrow> int \<Rightarrow> (bool \<times> double) result" where
  "StrtodDiyFp decimals dExp =
     (let (signif, rest, i) = significand_loop 0 decimals 0;
          signif = (if rest \<noteq> [] \<and> digit_val (hd rest) \<ge> 5 then signif + 1 else signif);
          dLen = int (length decimals);
          remaining = dLen - int i;
          kUlpShift = 3;
          kUlp = 8;
          error = (if remaining = 0 then 0 else kUlp div 2) :: int;
          v = Normalize \<lparr>dp_f = signif, dp_e = 0\<rparr>;
          error = error * 2 ^ nat (- dp_e v);
          dExp = dExp + remaining;
          (cachedPower, actualExp) = GetCachedPower10 dExp;
          adjustment = dExp - actualExp
      in if dExp < - 348 \<or> signif = 0 then Inl AssertionFailed
         else if actualExp \<noteq> dExp \<and> \<not> (adjustment \<ge> 1 \<and> adjustment < 8) then Inl AssertionFailed
         else
           let v = (if actualExp \<noteq> dExp then diy_times v (kPow10 ! nat (adjustment - 1)) else v);
               error = (if actualExp \<noteq> dExp \<and> dLen + adjustment > 19 then error + kUlp div 2 else error);
               v = diy_times v cachedPower;
               error = error + kUlp + (if error = 0 then 0 else 1);
               oldExp = dp_e v;
               v = Normalize v;
               error = error * 2 ^ nat (oldExp - dp_e v);
               effectiveSignificandSize = EffectiveSignificandSize (64 + dp_e v);
               precisionSize = 64 - effectiveSignificandSize;
               scaleExp = precisionSize + kUlpShift - 63;
               (v, error, precisionSize) =
                 (if precisionSize + kUlpShift \<ge> 64
                  then (\<lparr>dp_f = drop_bit (nat scaleExp) (dp_f v), dp_e = dp_e v + scaleExp\<rparr>,
                        error div 2 ^ nat scaleExp + 1 + kUlp, precisionSize - scaleExp)
                  else (v, error, precisionSize));
               n = nat precisionSize;
               rounded = \<lparr>dp_f = drop_bit n (dp_f v), dp_e = dp_e v + precisionSize\<rparr>;
               precisionBits = (dp_f v AND (push_bit n 1 - 1)) * 8;
               halfWay = push_bit (n - 1) 1 * 8 :: u64;
               err = of_int (error mod 2 ^ 32) :: u64;
               rounded = (if precisionBits \<ge> halfWay + err
                          then let f = dp_f rounded + 1
                               in if f AND push_bit 1 kHiddenBit \<noteq> 0
                                  then \<lparr>dp_f = drop_bit 1 f, dp_e = dp_e rounded + 1\<rparr>
                                  else \<lparr>dp_f = f, dp_e = dp_e rounded\<rparr>
                          else rounded)
           in rbind (ToDouble rounded) (\<lambda>result.
                Inr (halfWay - err \<ge> precisionBits \<or> precisionBits \<ge> halfWay + err, result)))"

definition StrtodBigInteger :: "double \<Rightarrow> string \<Rightarrow> int \<Rightarrow> double result" where
  "StrtodBigInteger approx decimals dExp =
     rbind (BigInteger_decimals decimals) (\<lambda>dInt.
     rbind (CheckWithinHalfULP approx dInt dExp) (\<lambda>cmp.
       if cmp < 0 then Inr approx
       else if cmp = 0 then
         (if Significand (double_bits approx) AND 1 \<noteq> 0 then NextPositiveDouble (double_bits approx)
          else Inr approx)
       else NextPositiveDouble (double_bits approx)))"

definition INT_MAX :: int where "INT_MAX = 2147483647"
definition INT_MIN :: int where "INT_MIN = - 2147483648"
definition kMaxDecimalDigit :: nat where "kMaxDecimalDigit = 767 + 1"

definition StrtodFullPrecision :: "double \<Rightarrow> int \<Rightarrow> string \<Rightarrow> nat \<Rightarrow> int \<Rightarrow> double result" where
  "StrtodFullPrecision d p decimals decimalPosition expn =
     (let len = int (length decimals); dExpAdjust = len - int decimalPosition in
      if \<not> dge d dzero \<or> len < 1 then Inl AssertionFailed
      else rbind (StrtodFast d p) (\<lambda>fast.
        case fast of
          Some result \<Rightarrow> Inr result
        | None \<Rightarrow>
            if len > INT_MAX \<or> len < int decimalPosition \<or> dExpAdjust > INT_MAX \<or> expn < INT_MIN + dExpAdjust
               \<or> expn - dExpAdjust > INT_MAX - len
            then Inl AssertionFailed
            else
              let dExp = expn - dExpAdjust;
                  decimals = dropWhile (\<lambda>c. c = CHR ''0'') decimals;
                  zeros = length (takeWhile (\<lambda>c. c = CHR ''0'') (rev decimals));
                  decimals = take (length decimals - zeros) decimals;
                  dExp = dExp + int zeros
              in if decimals = [] then Inr dzero
                 else
                   let (decimals, dExp) =
                         (if length decimals > kMaxDecimalDigit
                          then (take kMaxDecimalDigit decimals, dExp + int (length decimals - kMaxDecimalDigit))
                          else (decimals, dExp));
                       dLen = int (length decimals)
                   in if dLen + dExp \<le> - 324 then Inr dzero
                      else if dLen + dExp > 309 then Inr (Inf False)
                      else rbind (StrtodDiyFp decimals dExp) (\<lambda>(ok, result).
                             if ok then Inr result else StrtodBigInteger result decimals dExp)))"

section \<open>The fast path is exact\<close>

lemma round_ratio_Fin:
  assumes "finite_double (round_ratio s p q)"
  obtains m e where "round_ratio s p q = Fin s m e"
  using assms by (auto simp: round_ratio_def Let_def split: if_splits prod.splits)

lemma dmul_value:
  assumes "0 < q" and "dval (Fin False m1 e1) * dval (Fin False m2 e2) = of_nat p / of_nat q"
  shows "dmul (Fin False m1 e1) (Fin False m2 e2) = round_ratio False p q"
proof -
  have "(of_nat (m1 * m2 * 2 ^ nat (e1 + e2)) / of_nat (2 ^ nat (- (e1 + e2))) :: rat) =
      of_nat m1 * of_nat m2 * 2 powi (e1 + e2)"
    by (simp add: powi_nat)
  also have "\<dots> = of_nat p / of_nat q"
    using assms(2) by (simp add: dval_def signed_def power_int_add algebra_simps)
  finally show ?thesis
    unfolding dmul.simps simp_thms by (intro round_ratio_cong assms(1)) simp_all
qed

lemma ddiv_value:
  assumes "0 < q" "0 < m2" and "dval (Fin False m1 e1) / dval (Fin False m2 e2) = of_nat p / of_nat q"
  shows "ddiv (Fin False m1 e1) (Fin False m2 e2) = round_ratio False p q"
proof -
  have "(of_nat (m1 * 2 ^ nat (e1 - e2)) / of_nat (m2 * 2 ^ nat (e2 - e1)) :: rat) =
      of_nat m1 / of_nat m2 * 2 powi (e1 - e2)"
    by (simp add: powi_nat)
  also have "\<dots> = of_nat p / of_nat q"
    using assms(3) by (simp add: dval_def signed_def power_int_diff algebra_simps)
  finally show ?thesis
    using assms(2) unfolding ddiv.simps simp_thms by (simp only: if_False neq0_conv [symmetric]) (intro round_ratio_cong assms(1); simp)
qed

lemma int_to_double_Fin:
  assumes "m < 2 ^ 53"
  obtains k e where "int_to_double (int m) = Fin False k e" "dval (Fin False k e) = of_nat m"
proof -
  have m: "\<bar>int m\<bar> < 2 ^ 53" using assms by (metis abs_of_nat of_nat_less_iff of_nat_numeral of_nat_power)
  have "int_to_double (int m) = round_ratio False m 1"
    by (cases "m = 0") (simp_all add: int_to_double_def round_scaled_def round_ratio_def)
  then obtain k e where "int_to_double (int m) = Fin False k e"
    using finite_int_to_double [OF m] round_ratio_Fin by metis
  then show ?thesis using dval_int_to_double [OF m] that by simp
qed

lemma Pow10_Fin:
  assumes "0 \<le> n" "n \<le> 22"
  obtains k e where "Pow10 n = Inr (Fin False k e)" "dval (Fin False k e) = 10 ^ nat n" "0 < k"
proof -
  have "(5 :: int) ^ nat n \<le> 5 ^ 22" using assms by (intro power_increasing) auto
  then have five: "\<bar>(5 :: int) ^ nat n\<bar> < 2 ^ 53" by simp
  have eq: "round_scaled False (5 ^ nat n) n = round_ratio False (10 ^ nat n) 1"
    using assms(1) by (simp add: round_scaled_def nat_power_eq flip: power_mult_distrib)
  note ex = round_scaled_exact [OF five, of n False, unfolded eq]
  have fin: "finite_double (round_ratio False (10 ^ nat n) 1)" and
    v: "dval (round_ratio False (10 ^ nat n) 1) = 5 ^ nat n * 2 powi n"
    using ex assms by auto
  from fin obtain k e where k: "round_ratio False (10 ^ nat n) 1 = Fin False k e"
    by (rule round_ratio_Fin)
  have "(2 :: rat) powi n = 2 ^ nat n" using assms(1) by (simp add: power_int_def)
  then have v': "dval (Fin False k e) = 10 ^ nat n"
    using v [unfolded k] by (simp flip: power_mult_distrib)
  moreover have "0 < k" using v' by (cases k) (auto simp: dval_def signed_def)
  moreover have "Pow10 n = Inr (Fin False k e)" using assms by (simp only: Pow10_def k) simp
  ultimately show ?thesis using that by blast
qed

lemma FastPath_exact:
  assumes m: "m < 2 ^ 53" and p: "- 22 \<le> p" "p \<le> 22"
  shows "FastPath (int_to_double (int m)) p = Inr (round_ratio False (m * 10 ^ nat p) (10 ^ nat (- p)))"
proof -
  from m obtain k e where d: "int_to_double (int m) = Fin False k e" "dval (Fin False k e) = of_nat m"
    by (rule int_to_double_Fin)
  show ?thesis
  proof (cases "0 \<le> p")
    case True
    then obtain k' e' where t: "Pow10 p = Inr (Fin False k' e')" "dval (Fin False k' e') = 10 ^ nat p"
      using p by (auto elim: Pow10_Fin)
    have "dmul (Fin False k e) (Fin False k' e') = round_ratio False (m * 10 ^ nat p) 1"
      by (rule dmul_value) (simp_all add: d(2) t(2))
    then show ?thesis
      using True p by (simp add: FastPath_def t(1) d(1) del: dmul.simps)
  next
    case False
    then obtain k' e' where t: "Pow10 (- p) = Inr (Fin False k' e')"
        "dval (Fin False k' e') = 10 ^ nat (- p)" "0 < k'"
      using p Pow10_Fin [of "- p"] by auto
    have "ddiv (Fin False k e) (Fin False k' e') = round_ratio False m (10 ^ nat (- p))"
      by (rule ddiv_value) (simp_all add: d(2) t(2,3))
    then show ?thesis
      using False p by (simp add: FastPath_def t(1) d(1) del: ddiv.simps)
  qed
qed

lemma dge_Fin: "dge (Fin s1 m1 e1) (Fin s2 m2 e2) \<longleftrightarrow> dval (Fin s2 m2 e2) \<le> dval (Fin s1 m1 e1)"
proof -
  define a b where "a = signed s1 m1 * 2 ^ nat (e1 - min e1 e2)" and "b = signed s2 m2 * 2 ^ nat (e2 - min e1 e2)"
  have "dval (Fin s1 m1 e1) = of_int a * 2 powi min e1 e2" "dval (Fin s2 m2 e2) = of_int b * 2 powi min e1 e2"
    unfolding a_def b_def by (simp_all only: dval_aligned min.cobounded1 min.cobounded2)
  moreover have "dge (Fin s1 m1 e1) (Fin s2 m2 e2) \<longleftrightarrow> b \<le> a"
    by (auto simp: dge_def Let_def a_def [symmetric] b_def [symmetric] sgn_if)
  ultimately show ?thesis by simp
qed

lemma StrtodFast_exact:
  assumes "m < 2 ^ 53" and "- 22 \<le> p" "p \<le> 22"
  shows "StrtodFast (int_to_double (int m)) p =
    Inr (Some (round_ratio False (m * 10 ^ nat p) (10 ^ nat (- p))))"
proof -
  obtain k e where d: "int_to_double (int m) = Fin False k e" "dval (Fin False k e) = of_nat m"
    using assms(1) by (rule int_to_double_Fin)
  have max_lt: "(9007199254740991 :: nat) < 2 ^ 53" by simp
  obtain k' e' where t: "int_to_double (int 9007199254740991) = Fin False k' e'"
      "dval (Fin False k' e') = of_nat 9007199254740991"
    using int_to_double_Fin [OF max_lt] .
  have "(of_nat m :: rat) \<le> of_nat 9007199254740991" using assms(1) by (subst of_nat_le_iff) simp
  then have "dge (int_to_double 9007199254740991) (int_to_double (int m))"
    using t d by (simp add: dge_Fin)
  then show ?thesis
    using assms by (simp add: StrtodFast_def FastPath_exact)
qed

text \<open>
  C27. Reading a number is correctly rounded where it matters: a significand below $2^{53}$ with a
  decimal exponent between $-22$ and 22 gives the double nearest to the decimal value, the value the C
  library's conversion gives, with and without the full-precision flag. Every amount with at most 15
  significant digits is such a number.
\<close>

theorem Strtod_exact:
  assumes "m < 2 ^ 53" and "- 22 \<le> p" "p \<le> 22" and "decimals \<noteq> []"
  defines "nearest \<equiv> round_ratio False (m * 10 ^ nat p) (10 ^ nat (- p))"
  shows "StrtodNormalPrecision (int_to_double (int m)) p = Inr nearest \<and>
         StrtodFullPrecision (int_to_double (int m)) p decimals pos e = Inr nearest"
proof -
  obtain k e where "int_to_double (int m) = Fin False k e" "dval (Fin False k e) = of_nat m"
    using assms(1) by (rule int_to_double_Fin)
  then have "dge (int_to_double (int m)) dzero"
    by (simp add: dzero_def dge_Fin) (simp add: dval_def signed_def)
  moreover have "1 \<le> length decimals" using assms(4) by (cases decimals) simp_all
  ultimately show ?thesis
    using assms by (simp add: StrtodNormalPrecision_def StrtodFullPrecision_def FastPath_exact StrtodFast_exact)
qed

theorem Strtod_exact_witness:
  "(1990 :: nat) < 2 ^ 53 \<and>
   StrtodNormalPrecision (int_to_double 1990) (- 2) = Inr (round_ratio False 1990 100) \<and>
   StrtodFullPrecision (int_to_double 1990) (- 2) ''1990'' 2 0 = Inr (round_ratio False 1990 100)"
  using Strtod_exact [of 1990 "- 2" "''1990''" 2 0] by simp

end
