(* ===== verification/String_Buffer.thy ===== *)
theory String_Buffer
  imports Cstd
begin

text \<open>
  The growing byte buffer that JSON text is written to: \<^verbatim>\<open>internal::Stack\<close> (rapidjson/internal/stack.h)
  used with characters, and \<^verbatim>\<open>GenericStringBuffer\<close> (rapidjson/stringbuffer.h). The unsafe operations write
  without a capacity check, so that a missing reservation is a fault of the model. The lemmas show
  that a reserved write never faults and appends exactly the written bytes.
\<close>

section \<open>The stack\<close>

text \<open>
  \<open>contents\<close> are the bytes from \<^verbatim>\<open>stack_\<close> to \<^verbatim>\<open>stackTop_\<close>, \<open>capacity\<close> is \<^verbatim>\<open>stackEnd_ - stack_\<close>, and
  \<open>allocated\<close> says that \<^verbatim>\<open>stack_\<close> is not null: memory is allocated by the first expansion.
\<close>

record Stack =
  contents :: string
  capacity :: nat
  allocated :: bool
  initialCapacity :: nat

definition Stack_new :: "nat \<Rightarrow> Stack" where
  "Stack_new n = \<lparr>contents = [], capacity = 0, allocated = False, initialCapacity = n\<rparr>"

definition Resize :: "Stack \<Rightarrow> nat \<Rightarrow> Stack" where
  "Resize s newCapacity = s\<lparr>capacity := newCapacity, allocated := True\<rparr>"

definition Expand :: "Stack \<Rightarrow> nat \<Rightarrow> Stack" where
  "Expand s count =
     (let newCapacity = (if \<not> allocated s then initialCapacity s
                         else capacity s + (capacity s + 1) div 2);
          newSize = length (contents s) + count
      in Resize s (if newCapacity < newSize then newSize else newCapacity))"

definition Reserve :: "Stack \<Rightarrow> nat \<Rightarrow> Stack" where
  "Reserve s count = (if count > capacity s - length (contents s) then Expand s count else s)"

text \<open>The bytes that a push makes room for are indeterminate; the model shows them as zeros.\<close>

definition PushUnsafe :: "Stack \<Rightarrow> nat \<Rightarrow> Stack result" where
  "PushUnsafe s count =
     (if allocated s \<and> count \<le> capacity s - length (contents s)
      then Inr (s\<lparr>contents := contents s @ replicate count (CHR 0x00)\<rparr>) else Inl AssertionFailed)"

definition Push :: "Stack \<Rightarrow> nat \<Rightarrow> Stack result" where
  "Push s count = PushUnsafe (Reserve s count) count"

definition Pop :: "Stack \<Rightarrow> nat \<Rightarrow> Stack result" where
  "Pop s count =
     (if length (contents s) \<ge> count
      then Inr (s\<lparr>contents := take (length (contents s) - count) (contents s)\<rparr>) else Inl AssertionFailed)"

definition Stack_Clear :: "Stack \<Rightarrow> Stack" where
  "Stack_Clear s = s\<lparr>contents := []\<rparr>"

definition Stack_ShrinkToFit :: "Stack \<Rightarrow> Stack" where
  "Stack_ShrinkToFit s =
     (if contents s = [] then s\<lparr>contents := [], capacity := 0, allocated := False\<rparr>
      else Resize s (length (contents s)))"

section \<open>The string buffer\<close>

definition kDefaultCapacity :: nat where "kDefaultCapacity = 256"

definition StringBuffer :: Stack where
  "StringBuffer = Stack_new kDefaultCapacity"

text \<open>A push of one byte and the assignment to it.\<close>

definition poke :: "Stack result \<Rightarrow> char \<Rightarrow> Stack result" where
  "poke r c = rbind r (\<lambda>s. Inr (s\<lparr>contents := butlast (contents s) @ [c]\<rparr>))"

definition Put :: "Stack \<Rightarrow> char \<Rightarrow> Stack result" where
  "Put s c = poke (Push s 1) c"

definition PutUnsafe :: "Stack \<Rightarrow> char \<Rightarrow> Stack result" where
  "PutUnsafe s c = poke (PushUnsafe s 1) c"

fun PutsUnsafe :: "Stack \<Rightarrow> string \<Rightarrow> Stack result" where
  "PutsUnsafe s [] = Inr s"
| "PutsUnsafe s (c # cs) = rbind (PutUnsafe s c) (\<lambda>s. PutsUnsafe s cs)"

definition ShrinkToFit :: "Stack \<Rightarrow> Stack result" where
  "ShrinkToFit s = rbind (Put s (CHR 0x00)) (\<lambda>s. Pop (Stack_ShrinkToFit s) 1)"

text \<open>The C string that the caller sees, and the buffer that may have grown for the terminator.\<close>

definition GetString :: "Stack \<Rightarrow> (string \<times> Stack) result" where
  "GetString s = rbind (Put s (CHR 0x00)) (\<lambda>s. rbind (Pop s 1) (\<lambda>s'. Inr (c_str (contents s), s')))"

definition PutN :: "Stack \<Rightarrow> char \<Rightarrow> nat \<Rightarrow> Stack result" where
  "PutN s c n = rbind (Push s n) (\<lambda>s'. Inr (s'\<lparr>contents := contents s @ replicate n c\<rparr>))"

section \<open>Lemmas\<close>

text \<open>What every reachable buffer satisfies, and how much can be written without a check.\<close>

definition Stack_ok :: "Stack \<Rightarrow> bool" where
  "Stack_ok s \<longleftrightarrow> length (contents s) \<le> capacity s \<and> (allocated s \<or> capacity s = 0)"

definition room :: "Stack \<Rightarrow> nat \<Rightarrow> bool" where
  "room s n \<longleftrightarrow> Stack_ok s \<and> length (contents s) + n \<le> capacity s \<and> (0 < n \<longrightarrow> allocated s)"

lemma Stack_ok_new: "Stack_ok (Stack_new n)"
  by (simp add: Stack_ok_def Stack_new_def)

lemma contents_Reserve [simp]: "contents (Reserve s n) = contents s"
  by (simp add: Reserve_def Expand_def Resize_def Let_def)

lemma room_Reserve: "Stack_ok s \<Longrightarrow> room (Reserve s n) n"
  by (auto simp: room_def Stack_ok_def Reserve_def Expand_def Resize_def Let_def)

lemma Reserve_enough: "room s n \<Longrightarrow> 0 < n \<Longrightarrow> Reserve s n = s"
  by (auto simp: room_def Reserve_def)

lemma PutUnsafe_room:
  assumes "room s (Suc n)"
  obtains s' where "PutUnsafe s c = Inr s'" "contents s' = contents s @ [c]" "room s' n"
proof -
  have "PutUnsafe s c = Inr (s\<lparr>contents := contents s @ [c]\<rparr>)"
    using assms by (auto simp: PutUnsafe_def PushUnsafe_def poke_def room_def butlast_append)
  then show ?thesis using assms that by (auto simp: room_def Stack_ok_def)
qed

lemma PutsUnsafe_room:
  assumes "room s (length cs + n)"
  shows "\<exists>s'. PutsUnsafe s cs = Inr s' \<and> contents s' = contents s @ cs \<and> room s' n"
  using assms
proof (induction cs arbitrary: s)
  case (Cons c cs)
  then have "room s (Suc (length cs + n))" by simp
  then obtain s1 where s1: "PutUnsafe s c = Inr s1" "contents s1 = contents s @ [c]" "room s1 (length cs + n)"
    by (rule PutUnsafe_room)
  from Cons.IH [OF s1(3)] show ?case by (auto simp: s1)
qed simp

lemma Put_ok:
  assumes "Stack_ok s"
  obtains s' where "Put s c = Inr s'" "contents s' = contents s @ [c]" "Stack_ok s'"
proof -
  have "room (Reserve s 1) (Suc 0)" using room_Reserve [OF assms, of 1] by simp
  then obtain s' where "PutUnsafe (Reserve s 1) c = Inr s'" "contents s' = contents s @ [c]" "room s' 0"
    by (rule PutUnsafe_room) simp
  then show ?thesis using that by (simp add: Put_def PutUnsafe_def Push_def room_def)
qed

lemma GetString_ok:
  assumes "Stack_ok s" and "CHR 0x00 \<notin> set (contents s)"
  shows "\<exists>s'. GetString s = Inr (contents s, s') \<and> contents s' = contents s \<and> Stack_ok s'"
proof -
  obtain s1 where s1: "Put s (CHR 0x00) = Inr s1" "contents s1 = contents s @ [CHR 0x00]" "Stack_ok s1"
    using assms(1) by (rule Put_ok)
  have "c_str (contents s @ [CHR 0x00]) = contents s"
    using assms(2) by (subst c_str_def, subst takeWhile_append2) auto
  then show ?thesis
    using s1 by (auto simp: GetString_def Pop_def Stack_ok_def)
qed

end
