(* ===== verification/Json_Writer.thy ===== *)
theory Json_Writer
  imports String_Buffer Unicode Itoa Dtoa
begin

text \<open>
  The RapidJSON writer (rapidjson/writer.h) on a \<^verbatim>\<open>StringBuffer\<close>, with source and target encoding UTF-8:
  the events of the handler concept (rapidjson/reader.h), the stack of nested levels, and the bytes every
  event appends. A failing \<^verbatim>\<open>RAPIDJSON_ASSERT\<close> is the fault \<^const>\<open>AssertionFailed\<close>.
\<close>

unbundle bit_operations_syntax

section \<open>Events and flags\<close>

datatype event =
    ENull
  | EBool bool
  | EInt "32 word"
  | EUint "32 word"
  | EInt64 u64
  | EUint64 u64
  | EDouble double
  | ERawNumber string
  | EString string
  | EStartObject
  | EKey string
  | EEndObject nat
  | EStartArray
  | EEndArray nat

datatype "Type" =
    kNullType
  | kFalseType
  | kTrueType
  | kObjectType
  | kArrayType
  | kStringType
  | kNumberType

datatype WriteFlag = kWriteValidateEncodingFlag | kWriteNanAndInfFlag | kWriteNanAndInfNullFlag

type_synonym write_flags = "WriteFlag list"

definition kWriteDefaultFlags :: write_flags where
  "kWriteDefaultFlags = []"

section \<open>State\<close>

record Level =
  valueCount :: nat
  inArray :: bool

definition Level_new :: "bool \<Rightarrow> Level" where
  "Level_new a = \<lparr>valueCount = 0, inArray = a\<rparr>"

text \<open>The top of the level stack is the head of the list.\<close>

record Writer =
  os :: Stack
  level_stack :: "Level list"
  maxDecimalPlaces :: int
  hasRoot :: bool

definition kDefaultMaxDecimalPlaces :: int where "kDefaultMaxDecimalPlaces = 324"

definition Writer_new :: "Stack \<Rightarrow> Writer" where
  "Writer_new b =
     \<lparr>os = b, level_stack = [], maxDecimalPlaces = kDefaultMaxDecimalPlaces, hasRoot = False\<rparr>"

definition Writer_Reset :: "Writer \<Rightarrow> Stack \<Rightarrow> Writer" where
  "Writer_Reset w b = w\<lparr>os := b, hasRoot := False, level_stack := []\<rparr>"

definition IsComplete :: "Writer \<Rightarrow> bool" where
  "IsComplete w \<longleftrightarrow> hasRoot w \<and> level_stack w = []"

definition SetMaxDecimalPlaces :: "Writer \<Rightarrow> int \<Rightarrow> Writer" where
  "SetMaxDecimalPlaces w n = w\<lparr>maxDecimalPlaces := n\<rparr>"

section \<open>Output of one token\<close>

text \<open>\<^verbatim>\<open>PutReserve\<close> and a sequence of \<^verbatim>\<open>PutUnsafe\<close>.\<close>

definition put_reserved :: "nat \<Rightarrow> string \<Rightarrow> Stack \<Rightarrow> Stack result" where
  "put_reserved n cs b = PutsUnsafe (Reserve b n) cs"

definition WriteNull :: "Stack \<Rightarrow> Stack result" where
  "WriteNull b = put_reserved 4 ''null'' b"

definition WriteBool :: "bool \<Rightarrow> Stack \<Rightarrow> Stack result" where
  "WriteBool x b = (if x then put_reserved 4 ''true'' b else put_reserved 5 ''false'' b)"

text \<open>
  The specialisations for \<^verbatim>\<open>StringBuffer\<close>: \<^verbatim>\<open>n\<close> bytes are pushed, the conversion writes its text there, and what it did not use
  is popped.
\<close>

definition write_pushed :: "nat \<Rightarrow> string \<Rightarrow> Stack \<Rightarrow> Stack result" where
  "write_pushed n cs b =
     rbind (Push b n) (\<lambda>b'.
       if length cs > n then Inl BufferOverflow
       else Pop (b'\<lparr>contents := contents b @ cs @ drop (length (contents b) + length cs) (contents b')\<rparr>)
              (n - length cs))"

definition WriteInt :: "32 word \<Rightarrow> Stack \<Rightarrow> Stack result" where
  "WriteInt i = write_pushed 11 (i32toa i)"

definition WriteUint :: "32 word \<Rightarrow> Stack \<Rightarrow> Stack result" where
  "WriteUint u = write_pushed 10 (u32toa u)"

definition WriteInt64 :: "u64 \<Rightarrow> Stack \<Rightarrow> Stack result" where
  "WriteInt64 i = write_pushed 21 (i64toa i)"

definition WriteUint64 :: "u64 \<Rightarrow> Stack \<Rightarrow> Stack result" where
  "WriteUint64 u = write_pushed 20 (u64toa u)"

definition WriteDouble :: "write_flags \<Rightarrow> int \<Rightarrow> double \<Rightarrow> Stack \<Rightarrow> (bool \<times> Stack) result" where
  "WriteDouble fl places d b =
     (let u = double_bits d in
      if IsNanOrInf u then
        (if kWriteNanAndInfFlag \<notin> set fl then Inr (False, b)
         else if kWriteNanAndInfNullFlag \<in> set fl then
           rbind (put_reserved 4 ''null'' b) (\<lambda>b. Inr (True, b))
         else if IsNan u then rbind (put_reserved 3 ''NaN'' b) (\<lambda>b. Inr (True, b))
         else rbind (put_reserved (if Sign u then 9 else 8) ((if Sign u then ''-'' else []) @ ''Infinity'') b)
                (\<lambda>b. Inr (True, b)))
      else case dtoa d places of
             None \<Rightarrow> Inl NonTermination
           | Some text \<Rightarrow> rbind (write_pushed 25 text b) (\<lambda>b. Inr (True, b)))"

section \<open>Strings\<close>

definition hexDigits :: string where
  "hexDigits = ''0123456789ABCDEF''"

text \<open>The table \<^verbatim>\<open>escape\<close>; zero where a character is copied.\<close>

definition escape :: string where
  "escape =
     (let Z16 = replicate 16 (CHR 0x00); Z = CHR 0x00
      in ''uuuuuuuubtnufruu'' @ ''uuuuuuuuuuuuuuuu'' @
         [Z, Z, CHR 0x22, Z, Z, Z, Z, Z, Z, Z, Z, Z, Z, Z, Z, Z] @
         Z16 @ Z16 @
         [Z, Z, Z, Z, Z, Z, Z, Z, Z, Z, Z, Z, CHR 0x5C, Z, Z, Z] @
         Z16 @ Z16 @ Z16 @ Z16 @ Z16 @ Z16 @ Z16 @ Z16 @ Z16 @ Z16)"

definition escaped :: "char \<Rightarrow> string" where
  "escaped c =
     (let e = escape ! of_char c
      in CHR 0x5C # e #
         (if e = CHR ''u''
          then ''00'' @ [hexDigits ! (drop_bit 4 (of_char c)), hexDigits ! (of_char c AND 0xF)] else []))"

definition ScanWriteUnescapedString :: "istream \<Rightarrow> nat \<Rightarrow> bool" where
  "ScanWriteUnescapedString is n \<longleftrightarrow> tell is < n"

text \<open>
  The loop over the stream: the escape of a character, else one code unit copied, or one code point
  validated and copied. The validation of the source writes with \<^verbatim>\<open>Put\<close>.
\<close>

fun Puts :: "Stack \<Rightarrow> string \<Rightarrow> Stack result" where
  "Puts s [] = Inr s"
| "Puts s (c # cs) = rbind (Put s c) (\<lambda>s. Puts s cs)"

lemma Take_tell [simp]: "tell (Take is) = tell is + 1"
  by (simp add: Take_def)

lemma validate_tails_tell: "tell is \<le> tell (fst (snd (fold validate_tail ms (r, is, out))))"
proof (induction ms arbitrary: r "is" out)
  case (Cons m ms)
  show ?case
    using Cons [of "Take is"] by (simp add: validate_tail_def) (meson Suc_leD)
qed simp

lemma Validate_tell: "Validate is out = (ok, is', out') \<Longrightarrow> tell is < tell is'"
  using validate_tails_tell [of "Take is"]
  by (auto simp: Validate_def Let_def Suc_le_eq split: if_splits option.splits dest!: arg_cong [where f = "\<lambda>x. fst (snd x)"])

function write_chars :: "write_flags \<Rightarrow> istream \<Rightarrow> nat \<Rightarrow> Stack \<Rightarrow> (bool \<times> Stack) result" where
  "write_chars fl is n b =
     (if ScanWriteUnescapedString is n then
        (let c = Peek is in
         if escape ! of_char c \<noteq> CHR 0x00 then
           rbind (PutsUnsafe b (escaped c)) (\<lambda>b. write_chars fl (Take is) n b)
         else if kWriteValidateEncodingFlag \<in> set fl then
           (case Validate is [] of (ok, is', out) \<Rightarrow>
              rbind (Puts b out) (\<lambda>b. if ok then write_chars fl is' n b else Inr (False, b)))
         else rbind (PutUnsafe b c) (\<lambda>b. write_chars fl (Take is) n b))
      else Inr (True, b))"
  by auto
termination
  by (relation "measure (\<lambda>(fl, is, n, b). n - tell is)")
     (auto simp: ScanWriteUnescapedString_def dest!: sym [of "(_, _)" "Validate _ _"] Validate_tell)

declare write_chars.simps [simp del]

text \<open>\<^verbatim>\<open>length\<close> is a 32-bit \<^verbatim>\<open>SizeType\<close>, so that the reservation is computed modulo $2^{32}$.\<close>

definition WriteString :: "write_flags \<Rightarrow> string \<Rightarrow> Stack \<Rightarrow> (bool \<times> Stack) result" where
  "WriteString fl str b =
     rbind (PutUnsafe (Reserve b ((2 + length str * 6) mod 2 ^ 32)) (CHR 0x22)) (\<lambda>b.
     rbind (write_chars fl (StringStream str) (length str) b) (\<lambda>(ok, b).
       if ok then rbind (PutUnsafe b (CHR 0x22)) (\<lambda>b. Inr (True, b)) else Inr (False, b)))"

section \<open>Levels\<close>

definition Prefix :: "Type \<Rightarrow> Writer \<Rightarrow> Writer result" where
  "Prefix type w =
     (case level_stack w of
        [] \<Rightarrow> if hasRoot w then Inl AssertionFailed else Inr (w\<lparr>hasRoot := True\<rparr>)
      | l # ls \<Rightarrow>
          rbind (if valueCount l > 0
                 then Put (os w) (if inArray l then CHR '','' else if valueCount l mod 2 = 0 then CHR '','' else CHR '':'')
                 else Inr (os w)) (\<lambda>b.
            if \<not> inArray l \<and> valueCount l mod 2 = 0 \<and> type \<noteq> kStringType then Inl AssertionFailed
            else Inr (w\<lparr>os := b, level_stack := l\<lparr>valueCount := valueCount l + 1\<rparr> # ls\<rparr>)))"

text \<open>A value event: the prefix, then the token; \<^verbatim>\<open>EndValue\<close> only flushes, which a string buffer ignores.\<close>

definition write_value :: "Type \<Rightarrow> (Writer \<Rightarrow> (bool \<times> Stack) result) \<Rightarrow> Writer \<Rightarrow> (bool \<times> Writer) result" where
  "write_value type f w =
     rbind (Prefix type w) (\<lambda>w. rbind (f w) (\<lambda>(ok, b). Inr (ok, w\<lparr>os := b\<rparr>)))"

definition always :: "(Stack \<Rightarrow> Stack result) \<Rightarrow> Writer \<Rightarrow> (bool \<times> Stack) result" where
  "always f w = rbind (f (os w)) (\<lambda>b. Inr (True, b))"

definition Writer_Null :: "Writer \<Rightarrow> (bool \<times> Writer) result" where
  "Writer_Null = write_value kNullType (always WriteNull)"

definition Writer_Bool :: "bool \<Rightarrow> Writer \<Rightarrow> (bool \<times> Writer) result" where
  "Writer_Bool x = write_value (if x then kTrueType else kFalseType) (always (WriteBool x))"

definition Writer_Int :: "32 word \<Rightarrow> Writer \<Rightarrow> (bool \<times> Writer) result" where
  "Writer_Int i = write_value kNumberType (always (WriteInt i))"

definition Writer_Uint :: "32 word \<Rightarrow> Writer \<Rightarrow> (bool \<times> Writer) result" where
  "Writer_Uint u = write_value kNumberType (always (WriteUint u))"

definition Writer_Int64 :: "u64 \<Rightarrow> Writer \<Rightarrow> (bool \<times> Writer) result" where
  "Writer_Int64 i = write_value kNumberType (always (WriteInt64 i))"

definition Writer_Uint64 :: "u64 \<Rightarrow> Writer \<Rightarrow> (bool \<times> Writer) result" where
  "Writer_Uint64 u = write_value kNumberType (always (WriteUint64 u))"

definition Writer_Double :: "write_flags \<Rightarrow> double \<Rightarrow> Writer \<Rightarrow> (bool \<times> Writer) result" where
  "Writer_Double fl d = write_value kNumberType (\<lambda>w. WriteDouble fl (maxDecimalPlaces w) d (os w))"

definition Writer_RawNumber :: "write_flags \<Rightarrow> string \<Rightarrow> Writer \<Rightarrow> (bool \<times> Writer) result" where
  "Writer_RawNumber fl str = write_value kNumberType (\<lambda>w. WriteString fl str (os w))"

definition Writer_String :: "write_flags \<Rightarrow> string \<Rightarrow> Writer \<Rightarrow> (bool \<times> Writer) result" where
  "Writer_String fl str = write_value kStringType (\<lambda>w. WriteString fl str (os w))"

definition Writer_Key :: "write_flags \<Rightarrow> string \<Rightarrow> Writer \<Rightarrow> (bool \<times> Writer) result" where
  "Writer_Key fl str = Writer_String fl str"

text \<open>A start event opens a level between the prefix and the bracket, an end event closes it.\<close>

definition put_bracket :: "char \<Rightarrow> Writer \<Rightarrow> (bool \<times> Writer) result" where
  "put_bracket c w = rbind (Put (os w) c) (\<lambda>b. Inr (True, w\<lparr>os := b\<rparr>))"

definition Writer_StartObject :: "Writer \<Rightarrow> (bool \<times> Writer) result" where
  "Writer_StartObject w =
     rbind (Prefix kObjectType w) (\<lambda>w.
       put_bracket (CHR ''{'') (w\<lparr>level_stack := Level_new False # level_stack w\<rparr>))"

definition Writer_EndObject :: "nat \<Rightarrow> Writer \<Rightarrow> (bool \<times> Writer) result" where
  "Writer_EndObject memberCount w =
     (case level_stack w of
        [] \<Rightarrow> Inl AssertionFailed
      | l # ls \<Rightarrow> if inArray l \<or> valueCount l mod 2 \<noteq> 0 then Inl AssertionFailed
                  else put_bracket (CHR ''}'') (w\<lparr>level_stack := ls\<rparr>))"

definition Writer_StartArray :: "Writer \<Rightarrow> (bool \<times> Writer) result" where
  "Writer_StartArray w =
     rbind (Prefix kArrayType w) (\<lambda>w.
       put_bracket (CHR ''['') (w\<lparr>level_stack := Level_new True # level_stack w\<rparr>))"

definition Writer_EndArray :: "nat \<Rightarrow> Writer \<Rightarrow> (bool \<times> Writer) result" where
  "Writer_EndArray elementCount w =
     (case level_stack w of
        [] \<Rightarrow> Inl AssertionFailed
      | l # ls \<Rightarrow> if \<not> inArray l then Inl AssertionFailed
                  else put_bracket (CHR '']'') (w\<lparr>level_stack := ls\<rparr>))"

text \<open>The writer as a handler of events.\<close>

fun Writer_handler :: "write_flags \<Rightarrow> event \<Rightarrow> Writer \<Rightarrow> (bool \<times> Writer) result" where
  "Writer_handler fl ENull w = Writer_Null w"
| "Writer_handler fl (EBool x) w = Writer_Bool x w"
| "Writer_handler fl (EInt i) w = Writer_Int i w"
| "Writer_handler fl (EUint u) w = Writer_Uint u w"
| "Writer_handler fl (EInt64 i) w = Writer_Int64 i w"
| "Writer_handler fl (EUint64 u) w = Writer_Uint64 u w"
| "Writer_handler fl (EDouble d) w = Writer_Double fl d w"
| "Writer_handler fl (ERawNumber s) w = Writer_RawNumber fl s w"
| "Writer_handler fl (EString s) w = Writer_String fl s w"
| "Writer_handler fl EStartObject w = Writer_StartObject w"
| "Writer_handler fl (EKey s) w = Writer_Key fl s w"
| "Writer_handler fl (EEndObject n) w = Writer_EndObject n w"
| "Writer_handler fl EStartArray w = Writer_StartArray w"
| "Writer_handler fl (EEndArray n) w = Writer_EndArray n w"

end
