(* ===== verification/Json_Value.thy ===== *)
theory Json_Value
  imports Json_Writer
begin

text \<open>
  JSON values (rapidjson/document.h, \<^verbatim>\<open>GenericValue\<close>): construction of numbers with their flags, type tests,
  access to numbers, members of objects, elements of arrays, comparison, and \<^verbatim>\<open>Accept\<close>, which sends a
  value as events to a handler. Allocation and the capacity of objects and arrays are not
  part of a value.
\<close>

unbundle bit_operations_syntax

section \<open>Values\<close>

definition kNumberFlag :: nat where "kNumberFlag = 0x10"
definition kIntFlag :: nat where "kIntFlag = 0x20"
definition kUintFlag :: nat where "kUintFlag = 0x40"
definition kInt64Flag :: nat where "kInt64Flag = 0x80"
definition kUint64Flag :: nat where "kUint64Flag = 0x100"
definition kDoubleFlag :: nat where "kDoubleFlag = 0x200"

definition kNumberIntFlag :: nat where "kNumberIntFlag = 6 OR kNumberFlag OR kIntFlag OR kInt64Flag"
definition kNumberUintFlag :: nat where
  "kNumberUintFlag = 6 OR kNumberFlag OR kUintFlag OR kUint64Flag OR kInt64Flag"
definition kNumberInt64Flag :: nat where "kNumberInt64Flag = 6 OR kNumberFlag OR kInt64Flag"
definition kNumberUint64Flag :: nat where "kNumberUint64Flag = 6 OR kNumberFlag OR kUint64Flag"
definition kNumberDoubleFlag :: nat where "kNumberDoubleFlag = 6 OR kNumberFlag OR kDoubleFlag"

lemmas number_flags = kNumberFlag_def kIntFlag_def kUintFlag_def kInt64Flag_def kUint64Flag_def
  kDoubleFlag_def kNumberIntFlag_def kNumberUintFlag_def kNumberInt64Flag_def kNumberUint64Flag_def
  kNumberDoubleFlag_def

text \<open>The union of a number: eight bytes of an integer, or a double.\<close>

datatype number_data = NBits u64 | NDouble double

text \<open>The flags of a number say how its data can be read; the flags of the other values are their type.\<close>

datatype json_value =
    VNull
  | VFalse
  | VTrue
  | VObject "(string \<times> json_value) list"
  | VArray "json_value list"
  | VString string
  | VNumber nat number_data

definition Value_bool :: "bool \<Rightarrow> json_value" where
  "Value_bool b = (if b then VTrue else VFalse)"

definition Value_int :: "32 word \<Rightarrow> json_value" where
  "Value_int i =
     VNumber (if sint i \<ge> 0 then kNumberIntFlag OR kUintFlag OR kUint64Flag else kNumberIntFlag)
       (NBits (scast i))"

definition Value_unsigned :: "32 word \<Rightarrow> json_value" where
  "Value_unsigned u =
     VNumber (if u AND 0x80000000 \<noteq> 0 then kNumberUintFlag else kNumberUintFlag OR kIntFlag OR kInt64Flag)
       (NBits (ucast u))"

definition Value_int64 :: "u64 \<Rightarrow> json_value" where
  "Value_int64 i64 =
     VNumber
       (if sint i64 \<ge> 0 then
          kNumberInt64Flag OR kNumberUint64Flag OR
          (if i64 AND 0xFFFFFFFF00000000 = 0 then kUintFlag else 0) OR
          (if i64 AND 0xFFFFFFFF80000000 = 0 then kIntFlag else 0)
        else if sint i64 \<ge> sint (0xFFFFFFFF80000000 :: u64) then kNumberInt64Flag OR kIntFlag
        else kNumberInt64Flag)
       (NBits i64)"

definition Value_uint64 :: "u64 \<Rightarrow> json_value" where
  "Value_uint64 u64 =
     VNumber
       (kNumberUint64Flag OR
        (if u64 AND 0x8000000000000000 = 0 then kInt64Flag else 0) OR
        (if u64 AND 0xFFFFFFFF00000000 = 0 then kUintFlag else 0) OR
        (if u64 AND 0xFFFFFFFF80000000 = 0 then kIntFlag else 0))
       (NBits u64)"

definition Value_double :: "double \<Rightarrow> json_value" where
  "Value_double d = VNumber kNumberDoubleFlag (NDouble d)"

section \<open>Types and numbers\<close>

fun GetType :: "json_value \<Rightarrow> Type" where
  "GetType VNull = kNullType"
| "GetType VFalse = kFalseType"
| "GetType VTrue = kTrueType"
| "GetType (VObject _) = kObjectType"
| "GetType (VArray _) = kArrayType"
| "GetType (VString _) = kStringType"
| "GetType (VNumber _ _) = kNumberType"

fun number_flag :: "nat \<Rightarrow> json_value \<Rightarrow> bool" where
  "number_flag f (VNumber flags _) = (flags AND f \<noteq> 0)"
| "number_flag f _ = False"

definition IsObject :: "json_value \<Rightarrow> bool" where "IsObject v \<longleftrightarrow> GetType v = kObjectType"
definition IsNumber :: "json_value \<Rightarrow> bool" where "IsNumber v = number_flag kNumberFlag v"
definition IsInt :: "json_value \<Rightarrow> bool" where "IsInt v = number_flag kIntFlag v"
definition IsUint :: "json_value \<Rightarrow> bool" where "IsUint v = number_flag kUintFlag v"
definition IsInt64 :: "json_value \<Rightarrow> bool" where "IsInt64 v = number_flag kInt64Flag v"
definition IsUint64 :: "json_value \<Rightarrow> bool" where "IsUint64 v = number_flag kUint64Flag v"
definition IsDouble :: "json_value \<Rightarrow> bool" where "IsDouble v = number_flag kDoubleFlag v"

text \<open>The eight bytes of the number union, and the double in it.\<close>

fun number_bits :: "json_value \<Rightarrow> u64" where
  "number_bits (VNumber _ (NBits b)) = b"
| "number_bits (VNumber _ (NDouble d)) = double_bits d"
| "number_bits _ = 0"

fun number_double :: "json_value \<Rightarrow> double" where
  "number_double (VNumber _ (NDouble d)) = d"
| "number_double _ = dzero"

definition GetInt :: "json_value \<Rightarrow> 32 word result" where
  "GetInt v = (if IsInt v then Inr (ucast (number_bits v)) else Inl AssertionFailed)"

definition GetUint :: "json_value \<Rightarrow> 32 word result" where
  "GetUint v = (if IsUint v then Inr (ucast (number_bits v)) else Inl AssertionFailed)"

definition GetInt64 :: "json_value \<Rightarrow> u64 result" where
  "GetInt64 v = (if IsInt64 v then Inr (number_bits v) else Inl AssertionFailed)"

definition GetUint64 :: "json_value \<Rightarrow> u64 result" where
  "GetUint64 v = (if IsUint64 v then Inr (number_bits v) else Inl AssertionFailed)"

definition GetDouble :: "json_value \<Rightarrow> double result" where
  "GetDouble v =
     (if \<not> IsNumber v then Inl AssertionFailed
      else if IsDouble v then Inr (number_double v)
      else if IsInt v then Inr (int_to_double (sint (ucast (number_bits v) :: 32 word)))
      else if IsUint v then Inr (int_to_double (uint (ucast (number_bits v) :: 32 word)))
      else if IsInt64 v then Inr (int_to_double (sint (number_bits v)))
      else if IsUint64 v then Inr (int_to_double (uint (number_bits v)))
      else Inl AssertionFailed)"

section \<open>Objects and arrays\<close>

definition SetObject :: json_value where "SetObject = VObject []"
definition SetArray :: json_value where "SetArray = VArray []"

fun members :: "json_value \<Rightarrow> (string \<times> json_value) list result" where
  "members (VObject ms) = Inr ms"
| "members _ = Inl AssertionFailed"

fun elements :: "json_value \<Rightarrow> json_value list result" where
  "elements (VArray vs) = Inr vs"
| "elements _ = Inl AssertionFailed"

definition MemberCount :: "json_value \<Rightarrow> nat result" where
  "MemberCount v = rbind (members v) (\<lambda>ms. Inr (length ms))"

definition StringEqual :: "string \<Rightarrow> string \<Rightarrow> bool" where
  "StringEqual s t \<longleftrightarrow> length s = length t \<and> list_all2 (=) s t"

text \<open>The position of the first member with the name, the number of members when there is none.\<close>

fun DoFindMember :: "(string \<times> json_value) list \<Rightarrow> string \<Rightarrow> nat" where
  "DoFindMember [] name = 0"
| "DoFindMember (m # ms) name = (if StringEqual name (fst m) then 0 else DoFindMember ms name + 1)"

definition FindMember :: "json_value \<Rightarrow> string \<Rightarrow> nat result" where
  "FindMember v name = rbind (members v) (\<lambda>ms. Inr (DoFindMember ms name))"

definition HasMember :: "json_value \<Rightarrow> string \<Rightarrow> bool result" where
  "HasMember v name = rbind (members v) (\<lambda>ms. rbind (FindMember v name) (\<lambda>i. Inr (i \<noteq> length ms)))"

text \<open>\<^verbatim>\<open>operator[]\<close> with a member name; a missing member violates its contract.\<close>

definition member_at :: "json_value \<Rightarrow> string \<Rightarrow> json_value result" where
  "member_at v name =
     rbind (members v) (\<lambda>ms. rbind (FindMember v name) (\<lambda>i.
       if i \<noteq> length ms then Inr (snd (ms ! i)) else Inl AssertionFailed))"

definition AddMember :: "json_value \<Rightarrow> string \<Rightarrow> json_value \<Rightarrow> json_value result" where
  "AddMember v name value = rbind (members v) (\<lambda>ms. Inr (VObject (ms @ [(name, value)])))"

definition RemoveAllMembers :: "json_value \<Rightarrow> json_value result" where
  "RemoveAllMembers v = rbind (members v) (\<lambda>_. Inr (VObject []))"

text \<open>Removal moves the last member into the place of the removed one; erasure keeps the order.\<close>

definition DoRemoveMember :: "(string \<times> json_value) list \<Rightarrow> nat \<Rightarrow> (string \<times> json_value) list" where
  "DoRemoveMember ms i = butlast (if 1 < length ms \<and> i \<noteq> length ms - 1 then ms[i := last ms] else ms)"

definition RemoveMember :: "json_value \<Rightarrow> nat \<Rightarrow> json_value result" where
  "RemoveMember v i =
     rbind (members v) (\<lambda>ms. if i < length ms then Inr (VObject (DoRemoveMember ms i)) else Inl AssertionFailed)"

definition EraseMembers :: "json_value \<Rightarrow> nat \<Rightarrow> nat \<Rightarrow> json_value result" where
  "EraseMembers v i j =
     rbind (members v) (\<lambda>ms. if 0 < length ms \<and> i \<le> j \<and> j \<le> length ms
                             then Inr (VObject (take i ms @ drop j ms)) else Inl AssertionFailed)"

definition EraseMember :: "json_value \<Rightarrow> string \<Rightarrow> (bool \<times> json_value) result" where
  "EraseMember v name =
     rbind (members v) (\<lambda>ms. rbind (FindMember v name) (\<lambda>i.
       if i \<noteq> length ms then rbind (EraseMembers v i (i + 1)) (\<lambda>v. Inr (True, v)) else Inr (False, v)))"

definition Value_PushBack :: "json_value \<Rightarrow> json_value \<Rightarrow> json_value result" where
  "Value_PushBack v x = rbind (elements v) (\<lambda>vs. Inr (VArray (vs @ [x])))"

definition Value_PopBack :: "json_value \<Rightarrow> json_value result" where
  "Value_PopBack v = rbind (elements v) (\<lambda>vs. if vs \<noteq> [] then Inr (VArray (butlast vs)) else Inl AssertionFailed)"

definition Value_Erase :: "json_value \<Rightarrow> nat \<Rightarrow> nat \<Rightarrow> json_value result" where
  "Value_Erase v i j =
     rbind (elements v) (\<lambda>vs. if 0 < length vs \<and> i \<le> j \<and> j \<le> length vs
                              then Inr (VArray (take i vs @ drop j vs)) else Inl AssertionFailed)"

section \<open>Comparison\<close>

definition number_eq :: "json_value \<Rightarrow> json_value \<Rightarrow> bool" where
  "number_eq v w =
     (if IsDouble v \<or> IsDouble w then
        (case (GetDouble v, GetDouble w) of (Inr a, Inr b) \<Rightarrow> dge a b \<and> dge b a | _ \<Rightarrow> False)
      else number_bits v = number_bits w)"

fun Value_eq :: "json_value \<Rightarrow> json_value \<Rightarrow> bool"
  and members_eq :: "(string \<times> json_value) list \<Rightarrow> (string \<times> json_value) list \<Rightarrow> bool"
  and elements_eq :: "json_value list \<Rightarrow> json_value list \<Rightarrow> bool" where
  "Value_eq (VObject ms) (VObject ms') = (length ms = length ms' \<and> members_eq ms ms')"
| "Value_eq (VArray vs) (VArray vs') = (length vs = length vs' \<and> elements_eq vs vs')"
| "Value_eq (VString s) (VString s') = StringEqual s s'"
| "Value_eq (VNumber f d) (VNumber f' d') = number_eq (VNumber f d) (VNumber f' d')"
| "Value_eq VNull VNull = True"
| "Value_eq VFalse VFalse = True"
| "Value_eq VTrue VTrue = True"
| "Value_eq _ _ = False"
| "members_eq [] ms' = True"
| "members_eq ((n, v) # ms) ms' =
     (let i = DoFindMember ms' n
      in i \<noteq> length ms' \<and> Value_eq v (snd (ms' ! i)) \<and> members_eq ms ms')"
| "elements_eq [] ws = True"
| "elements_eq (v # vs) ws = (ws \<noteq> [] \<and> Value_eq v (hd ws) \<and> elements_eq vs (tl ws))"

section \<open>Events of a value\<close>

type_synonym 'h handler = "event \<Rightarrow> 'h \<Rightarrow> (bool \<times> 'h) result"

text \<open>Go on only after a handler method that returned true.\<close>

definition proceed :: "(bool \<times> 'h) result \<Rightarrow> ('h \<Rightarrow> (bool \<times> 'h) result) \<Rightarrow> (bool \<times> 'h) result" where
  "proceed r f = rbind r (\<lambda>(ok, s). if ok then f s else Inr (False, s))"

definition number_event :: "json_value \<Rightarrow> event" where
  "number_event v =
     (if IsDouble v then EDouble (number_double v)
      else if IsInt v then EInt (ucast (number_bits v))
      else if IsUint v then EUint (ucast (number_bits v))
      else if IsInt64 v then EInt64 (number_bits v)
      else EUint64 (number_bits v))"

fun Accept :: "'h handler \<Rightarrow> json_value \<Rightarrow> 'h \<Rightarrow> (bool \<times> 'h) result"
  and Accept_members :: "'h handler \<Rightarrow> (string \<times> json_value) list \<Rightarrow> 'h \<Rightarrow> (bool \<times> 'h) result"
  and Accept_elements :: "'h handler \<Rightarrow> json_value list \<Rightarrow> 'h \<Rightarrow> (bool \<times> 'h) result" where
  "Accept h VNull s = h ENull s"
| "Accept h VFalse s = h (EBool False) s"
| "Accept h VTrue s = h (EBool True) s"
| "Accept h (VObject ms) s =
     proceed (h EStartObject s) (\<lambda>s. proceed (Accept_members h ms s) (h (EEndObject (length ms))))"
| "Accept h (VArray vs) s =
     proceed (h EStartArray s) (\<lambda>s. proceed (Accept_elements h vs s) (h (EEndArray (length vs))))"
| "Accept h (VString str) s = h (EString str) s"
| "Accept h (VNumber f d) s = h (number_event (VNumber f d)) s"
| "Accept_members h [] s = Inr (True, s)"
| "Accept_members h ((n, v) # ms) s =
     proceed (h (EKey n) s) (\<lambda>s. proceed (Accept h v s) (Accept_members h ms))"
| "Accept_elements h [] s = Inr (True, s)"
| "Accept_elements h (v # vs) s = proceed (Accept h v s) (Accept_elements h vs)"

end
