(* ===== verification/Json_Reader.thy ===== *)
theory Json_Reader
  imports Json_Value Strtod
begin

text \<open>
  The recursive RapidJSON reader (rapidjson/reader.h, \<^verbatim>\<open>GenericReader::Parse\<close>) from and to UTF-8, for any
  handler of events. The flag for destructive (in-situ) parsing is not modelled. Every loop of the
  source over the input is a recursive function on the rest of the input; the mutual recursion of values,
  objects and arrays has fuel, and enough of it is shown to be twice the length of the rest.
\<close>

unbundle bit_operations_syntax

section \<open>Flags, errors and results\<close>

datatype ParseFlag =
    kParseValidateEncodingFlag
  | kParseIterativeFlag
  | kParseStopWhenDoneFlag
  | kParseFullPrecisionFlag
  | kParseCommentsFlag
  | kParseNumbersAsStringsFlag
  | kParseTrailingCommasFlag
  | kParseNanAndInfFlag
  | kParseEscapedApostropheFlag

type_synonym parse_flags = "ParseFlag list"

definition kParseDefaultFlags :: parse_flags where
  "kParseDefaultFlags = []"

datatype ParseErrorCode =
    kParseErrorDocumentEmpty
  | kParseErrorDocumentRootNotSingular
  | kParseErrorValueInvalid
  | kParseErrorObjectMissName
  | kParseErrorObjectMissColon
  | kParseErrorObjectMissCommaOrCurlyBracket
  | kParseErrorArrayMissCommaOrSquareBracket
  | kParseErrorStringUnicodeEscapeInvalidHex
  | kParseErrorStringUnicodeSurrogateInvalid
  | kParseErrorStringEscapeInvalid
  | kParseErrorStringMissQuotationMark
  | kParseErrorStringInvalidEncoding
  | kParseErrorNumberTooBig
  | kParseErrorNumberMissFraction
  | kParseErrorNumberMissExponent
  | kParseErrorTermination
  | kParseErrorUnspecificSyntaxError

text \<open>Why parsing stops early: an error with its offset in the input, or a fault.\<close>

datatype parse_fail = ParseError ParseErrorCode nat | Fault fault

type_synonym 'a parse = "parse_fail + 'a"

definition pbind :: "'a parse \<Rightarrow> ('a \<Rightarrow> 'b parse) \<Rightarrow> 'b parse" where
  "pbind r f = (case r of Inl e \<Rightarrow> Inl e | Inr x \<Rightarrow> f x)"

lemma pbind_Inl [simp]: "pbind (Inl e) f = Inl e"
  by (simp add: pbind_def)

lemma pbind_Inr [simp]: "pbind (Inr x) f = f x"
  by (simp add: pbind_def)

lemma pbind_Inr_iff: "pbind r f = Inr y \<longleftrightarrow> (\<exists>x. r = Inr x \<and> f x = Inr y)"
  by (cases r) simp_all

lemma pbind_Inl_iff: "pbind r f = Inl e \<longleftrightarrow> r = Inl e \<or> (\<exists>x. r = Inr x \<and> f x = Inl e)"
  by (cases r) simp_all

definition of_result :: "'a result \<Rightarrow> 'a parse" where
  "of_result r = (case r of Inl f \<Rightarrow> Inl (Fault f) | Inr x \<Rightarrow> Inr x)"

text \<open>A call of a handler method: false terminates the parsing at the given offset.\<close>

definition notify :: "'h handler \<Rightarrow> event \<Rightarrow> nat \<Rightarrow> 'h \<Rightarrow> 'h parse" where
  "notify h ev offset s =
     pbind (of_result (h ev s)) (\<lambda>(ok, s). if ok then Inr s else Inl (ParseError kParseErrorTermination offset))"

section \<open>White space and comments\<close>

definition Consume :: "istream \<Rightarrow> char \<Rightarrow> istream option" where
  "Consume is expect = (if Peek is = expect then Some (Take is) else None)"

lemma Take_shrinks: "Peek is \<noteq> CHR 0x00 \<Longrightarrow> length (src (Take is)) < length (src is)"
  by (cases "src is") (simp_all add: Peek_def Take_def)

lemma Take_le: "length (src (Take is)) \<le> length (src is)"
  by (simp add: Take_def)

definition json_space :: "char \<Rightarrow> bool" where
  "json_space c \<longleftrightarrow> c = CHR '' '' \<or> c = CHR 0x0A \<or> c = CHR 0x0D \<or> c = CHR 0x09"

function SkipWhitespace :: "istream \<Rightarrow> istream" where
  "SkipWhitespace is = (if json_space (Peek is) then SkipWhitespace (Take is) else is)"
  by auto
termination
  by (relation "measure (\<lambda>is. length (src is))") (auto intro!: Take_shrinks simp: json_space_def)

declare SkipWhitespace.simps [simp del]

lemma SkipWhitespace_le: "length (src (SkipWhitespace is)) \<le> length (src is)"
proof (induction "is" rule: SkipWhitespace.induct)
  case (1 "is")
  then show ?case
    using Take_le [of "is"] by (subst SkipWhitespace.simps) (auto intro: order_trans)
qed

function block_comment :: "istream \<Rightarrow> istream parse" where
  "block_comment is =
     (if Peek is = CHR 0x00 then Inl (ParseError kParseErrorUnspecificSyntaxError (tell is))
      else case Consume is (CHR ''*'') of
             Some is' \<Rightarrow> (case Consume is' (CHR ''/'') of Some is'' \<Rightarrow> Inr is'' | None \<Rightarrow> block_comment is')
           | None \<Rightarrow> block_comment (Take is))"
  by auto
termination
  by (relation "measure (\<lambda>is. length (src is))")
     (auto intro!: Take_shrinks simp: Consume_def split: if_splits)

declare block_comment.simps [simp del]

lemma block_comment_le: "block_comment is = Inr is' \<Longrightarrow> length (src is') \<le> length (src is)"
proof (induction "is" rule: block_comment.induct)
  case (1 "is")
  show ?case
    using 1 Take_le [of "is"] Take_le [of "Take is"]
    by (subst (asm) (3) block_comment.simps)
       (auto simp: Consume_def split: if_splits option.splits dest: order_trans)
qed

function line_comment :: "istream \<Rightarrow> istream" where
  "line_comment is =
     (if Peek is \<noteq> CHR 0x00 \<and> Peek is \<noteq> CHR 0x0A then line_comment (Take is)
      else if Peek is \<noteq> CHR 0x00 then Take is else is)"
  by auto
termination
  by (relation "measure (\<lambda>is. length (src is))") (auto intro!: Take_shrinks)

declare line_comment.simps [simp del]

lemma line_comment_le: "length (src (line_comment is)) \<le> length (src is)"
proof (induction "is" rule: line_comment.induct)
  case (1 "is")
  then show ?case
    using Take_le [of "is"] by (subst line_comment.simps) (auto intro: order_trans)
qed

function comments :: "istream \<Rightarrow> istream parse" where
  "comments is =
     (case Consume is (CHR ''/'') of
        None \<Rightarrow> Inr is
      | Some is1 \<Rightarrow>
          (case Consume is1 (CHR ''*'') of
             Some is2 \<Rightarrow> (case block_comment is2 of Inl e \<Rightarrow> Inl e | Inr is3 \<Rightarrow> comments (SkipWhitespace is3))
           | None \<Rightarrow>
               (case Consume is1 (CHR ''/'') of
                  Some is2 \<Rightarrow> comments (SkipWhitespace (line_comment is2))
                | None \<Rightarrow> Inl (ParseError kParseErrorUnspecificSyntaxError (tell is1)))))"
  by auto
termination
proof (relation "measure (\<lambda>is. length (src is))")
  fix "is" is1 is2 is3
  assume "Consume is (CHR ''/'') = Some is1" "Consume is1 (CHR ''*'') = Some is2" "block_comment is2 = Inr is3"
  then show "(SkipWhitespace is3, is) \<in> measure (\<lambda>is. length (src is))"
    using Take_shrinks [of "is"] Take_le [of "Take is"] SkipWhitespace_le [of is3] block_comment_le [of is2 is3]
    by (auto simp: Consume_def split: if_splits)
next
  fix "is" is1 is2
  assume "Consume is (CHR ''/'') = Some is1" "Consume is1 (CHR ''/'') = Some is2"
  then show "(SkipWhitespace (line_comment is2), is) \<in> measure (\<lambda>is. length (src is))"
    using Take_shrinks [of "is"] Take_le [of "Take is"] SkipWhitespace_le [of "line_comment is2"]
      line_comment_le [of is2]
    by (auto simp: Consume_def split: if_splits)
qed simp

declare comments.simps [simp del]

definition SkipWhitespaceAndComments :: "parse_flags \<Rightarrow> istream \<Rightarrow> istream parse" where
  "SkipWhitespaceAndComments pf is =
     (if kParseCommentsFlag \<in> set pf then comments (SkipWhitespace is) else Inr (SkipWhitespace is))"


section \<open>Strings\<close>

text \<open>
  The value of a hexadecimal digit; \<^const>\<open>None\<close> for any other character. \<^verbatim>\<open>ParseHex4\<close> looks at four
  characters and reports the offset of the escape sequence.
\<close>

definition hex4_digit :: "char \<Rightarrow> nat option" where
  "hex4_digit c =
     (let n = of_char c :: nat in
      if 48 \<le> n \<and> n \<le> 57 then Some (n - 48)
      else if 65 \<le> n \<and> n \<le> 70 then Some (n - (65 - 10))
      else if 97 \<le> n \<and> n \<le> 102 then Some (n - (97 - 10))
      else None)"

fun hex4_loop :: "nat \<Rightarrow> nat \<Rightarrow> nat \<Rightarrow> istream \<Rightarrow> (nat \<times> istream) parse" where
  "hex4_loop 0 escapeOffset codepoint is = Inr (codepoint, is)"
| "hex4_loop (Suc i) escapeOffset codepoint is =
     (case hex4_digit (Peek is) of
        Some d \<Rightarrow> hex4_loop i escapeOffset (push_bit 4 codepoint + d) (Take is)
      | None \<Rightarrow> Inl (ParseError kParseErrorStringUnicodeEscapeInvalidHex escapeOffset))"

definition ParseHex4 :: "istream \<Rightarrow> nat \<Rightarrow> (nat \<times> istream) parse" where
  "ParseHex4 is escapeOffset = hex4_loop 4 escapeOffset 0 is"

text \<open>The table \<^verbatim>\<open>escape\<close> of the reader: what a character behind a backslash stands for, zero for none.\<close>

definition unescape :: string where
  "unescape =
     (let Z16 = replicate 16 (CHR 0x00); Z = CHR 0x00
      in Z16 @ Z16 @ [Z, Z, CHR 0x22, Z, Z, Z, Z, Z, Z, Z, Z, Z, Z, Z, Z, CHR ''/''] @
         Z16 @ Z16 @ [Z, Z, Z, Z, Z, Z, Z, Z, Z, Z, Z, Z, CHR 0x5C, Z, Z, Z] @
         [Z, Z, CHR 0x08, Z, Z, Z, CHR 0x0C, Z, Z, Z, Z, Z, Z, Z, CHR 0x0A, Z] @
         [Z, Z, CHR 0x0D, Z, CHR 0x09, Z, Z, Z, Z, Z, Z, Z, Z, Z, Z, Z] @
         Z16 @ Z16 @ Z16 @ Z16 @ Z16 @ Z16 @ Z16 @ Z16)"

text \<open>What follows \<^verbatim>\<open>\u\<close>: a code point, from a surrogate pair where it starts with a high surrogate.\<close>

definition ParseUnicode :: "istream \<Rightarrow> nat \<Rightarrow> (nat \<times> istream) parse" where
  "ParseUnicode is escapeOffset =
     pbind (ParseHex4 is escapeOffset) (\<lambda>(codepoint, is).
       if codepoint \<ge> 0xD800 \<and> codepoint \<le> 0xDFFF then
         (if codepoint \<le> 0xDBFF then
            (case Option.bind (Consume is (CHR 0x5C)) (\<lambda>is. Consume is (CHR ''u'')) of
               None \<Rightarrow> Inl (ParseError kParseErrorStringUnicodeSurrogateInvalid escapeOffset)
             | Some is \<Rightarrow>
                 pbind (ParseHex4 is escapeOffset) (\<lambda>(codepoint2, is).
                   if codepoint2 < 0xDC00 \<or> codepoint2 > 0xDFFF
                   then Inl (ParseError kParseErrorStringUnicodeSurrogateInvalid escapeOffset)
                   else Inr ((push_bit 10 (codepoint - 0xD800) OR (codepoint2 - 0xDC00)) + 0x10000, is)))
          else Inl (ParseError kParseErrorStringUnicodeSurrogateInvalid escapeOffset))
       else Inr (codepoint, is))"

text \<open>One escape sequence, from the backslash: the text it stands for and the stream behind it.\<close>

definition ParseEscape :: "parse_flags \<Rightarrow> istream \<Rightarrow> (string \<times> istream) parse" where
  "ParseEscape pf is =
     (let escapeOffset = tell is; is = Take is; e = Peek is in
      if unescape ! of_char e \<noteq> CHR 0x00 then Inr ([unescape ! of_char e], Take is)
      else if kParseEscapedApostropheFlag \<in> set pf \<and> e = CHR 0x27 then Inr ([CHR 0x27], Take is)
      else if e = CHR ''u'' then
        pbind (ParseUnicode (Take is) escapeOffset) (\<lambda>(codepoint, is). Inr (Encode codepoint, is))
      else Inl (ParseError kParseErrorStringEscapeInvalid escapeOffset))"

lemma hex4_loop_le: "hex4_loop n off cp is = Inr (x, is') \<Longrightarrow> length (src is') \<le> length (src is)"
proof (induction n arbitrary: cp "is")
  case (Suc n)
  then show ?case
    using Take_le [of "is"] by (auto split: option.splits dest: order_trans)
qed simp

lemma ParseHex4_le: "ParseHex4 is off = Inr (x, is') \<Longrightarrow> length (src is') \<le> length (src is)"
  by (auto simp: ParseHex4_def dest: hex4_loop_le)

lemma Consume_le: "Consume is c = Some is' \<Longrightarrow> length (src is') \<le> length (src is)"
  by (auto simp: Consume_def Take_le split: if_splits)

lemma ParseUnicode_le:
  assumes "ParseUnicode is off = Inr (x, is')"
  shows "length (src is') \<le> length (src is)"
proof -
  obtain cp is1 where 1: "ParseHex4 is off = Inr (cp, is1)"
    using assms by (cases "ParseHex4 is off") (auto simp: ParseUnicode_def)
  have "length (src is') \<le> length (src is1)"
    using assms 1
    by (auto simp: ParseUnicode_def pbind_Inr_iff split: if_splits option.splits bind_splits
        dest!: ParseHex4_le Consume_le dest: order_trans)
  with ParseHex4_le [OF 1] show ?thesis by simp
qed

lemma ParseEscape_le:
  assumes "ParseEscape pf is = Inr (x, is')"
  shows "length (src is') \<le> length (src (Take is))"
  using assms Take_le [of "Take is"] ParseUnicode_le [of "Take (Take is)" "tell is"]
  by (auto simp: ParseEscape_def Let_def pbind_Inr_iff split: if_splits dest: order_trans)

lemma validate_tails_le: "length (src (fst (snd (fold validate_tail ms (r, is, out))))) \<le> length (src is)"
proof (induction ms arbitrary: r "is" out)
  case (Cons m ms)
  show ?case
    using Cons [of _ "Take is"] Take_le [of "is"] by (auto simp: validate_tail_def intro: order_trans)
qed simp

lemma Validate_le: "Validate is out = (ok, is', out') \<Longrightarrow> length (src is') \<le> length (src (Take is))"
  using validate_tails_le [of _ _ "Take is"]
  by (auto simp: Validate_def Let_def split: if_splits option.splits
      dest!: arg_cong [where f = "\<lambda>x. fst (snd x)"])

text \<open>
  The loop over the characters of a string, up to the closing quotation mark, where the string is
  terminated. Without validation one code unit is copied (\<^verbatim>\<open>Transcoder::Transcode\<close>).
\<close>

function ParseStringToStream :: "parse_flags \<Rightarrow> istream \<Rightarrow> string \<Rightarrow> (string \<times> istream) parse" where
  "ParseStringToStream pf is out =
     (let c = Peek is in
      if c = CHR 0x5C then
        (case ParseEscape pf is of Inl e \<Rightarrow> Inl e
         | Inr (t, is') \<Rightarrow> ParseStringToStream pf is' (out @ t))
      else if c = CHR 0x22 then Inr (out @ [CHR 0x00], Take is)
      else if of_char c < (0x20 :: nat) then
        (if c = CHR 0x00 then Inl (ParseError kParseErrorStringMissQuotationMark (tell is))
         else Inl (ParseError kParseErrorStringInvalidEncoding (tell is)))
      else if kParseValidateEncodingFlag \<in> set pf then
        (case Validate is out of (ok, is', out') \<Rightarrow>
           if ok then ParseStringToStream pf is' out'
           else Inl (ParseError kParseErrorStringInvalidEncoding (tell is)))
      else ParseStringToStream pf (Take is) (out @ [c]))"
  by auto
termination
proof (relation "measure (\<lambda>(pf, is, out). length (src is))")
  fix pf "is" out c b x y
  assume "c = Peek is" "c = CHR 0x5C" "ParseEscape pf is = Inr b" "(x, y) = b"
  then show "((pf, y, out @ x), pf, is, out) \<in> measure (\<lambda>(pf, is, out). length (src is))"
    using ParseEscape_le [of pf "is" x y] Take_shrinks [of "is"] by (cases "Peek is = CHR 0x00") auto
next
  fix pf "is" out c x y xa ya
  assume "c = Peek is" "\<not> of_char c < (0x20 :: nat)" "(x, y) = Validate is out" "(xa, ya) = y"
  then show "((pf, xa, ya), pf, is, out) \<in> measure (\<lambda>(pf, is, out). length (src is))"
    using Validate_le [of "is" out x xa ya] Take_shrinks [of "is"] by (cases "Peek is = CHR 0x00") auto
next
  fix pf "is" out c
  assume "c = Peek is" "\<not> of_char c < (0x20 :: nat)"
  then show "((pf, Take is, out @ [c]), pf, is, out) \<in> measure (\<lambda>(pf, is, out). length (src is))"
    using Take_shrinks [of "is"] by (cases "Peek is = CHR 0x00") auto
qed simp

declare ParseStringToStream.simps [simp del]

definition ParseString :: "parse_flags \<Rightarrow> 'h handler \<Rightarrow> bool \<Rightarrow> istream \<times> 'h \<Rightarrow> (istream \<times> 'h) parse" where
  "ParseString pf h isKey st =
     (case st of (is, s) \<Rightarrow>
        if Peek is \<noteq> CHR 0x22 then Inl (Fault AssertionFailed)
        else pbind (ParseStringToStream pf (Take is) []) (\<lambda>(str, is).
               pbind (notify h (if isKey then EKey (butlast str) else EString (butlast str)) (tell is) s)
                 (\<lambda>s. Inr (is, s))))"

lemma ParseStringToStream_le:
  "ParseStringToStream pf is out = Inr (str, is') \<Longrightarrow> length (src is') < length (src is)"
proof (induction pf "is" out rule: ParseStringToStream.induct)
  case (1 pf "is" out)
  have T: "Peek is \<noteq> CHR 0x00 \<Longrightarrow> length (src (Take is)) < length (src is)"
    by (rule Take_shrinks)
  show ?case
    using 1 T ParseEscape_le [of pf "is"] Validate_le [of "is" out]
    by (subst (asm) (4) ParseStringToStream.simps)
       (fastforce simp: Let_def split: if_splits sum.splits prod.splits dest: less_le_trans le_less_trans)
qed

lemma ParseString_shrinks:
  "ParseString pf h k (is, s) = Inr (is', s') \<Longrightarrow> length (src is') < length (src is)"
  using Take_le [of "is"]
  by (auto simp: ParseString_def pbind_Inr_iff split: if_splits dest!: ParseStringToStream_le)

end
