(* ===== verification/Json_Number.thy ===== *)
theory Json_Number
  imports Json_Reader
begin

text \<open>
  Numbers in the RapidJSON reader (rapidjson/reader.h, \<^verbatim>\<open>NumberStream\<close> and \<^verbatim>\<open>ParseNumber\<close>). The unsigned accumulators
  are natural numbers: the tests before each step keep them below $2^{32}$ and $2^{64}$. Exponents
  are integers; the tests of the source keep them in the range of \<^verbatim>\<open>int\<close>.
\<close>

section \<open>The number stream\<close>

text \<open>The input, and the characters that are backed up when the flags ask for it.\<close>

record number_stream =
  ns_is :: istream
  pushed :: string

definition backup :: "parse_flags \<Rightarrow> bool" where
  "backup pf \<longleftrightarrow> kParseNumbersAsStringsFlag \<in> set pf \<or> kParseFullPrecisionFlag \<in> set pf"

definition pushOnTake :: "parse_flags \<Rightarrow> bool" where
  "pushOnTake pf \<longleftrightarrow> kParseNumbersAsStringsFlag \<in> set pf"

definition ns_Peek :: "number_stream \<Rightarrow> char" where
  "ns_Peek s = Peek (ns_is s)"

definition ns_TakePush :: "parse_flags \<Rightarrow> number_stream \<Rightarrow> number_stream" where
  "ns_TakePush pf s =
     s\<lparr>ns_is := Take (ns_is s), pushed := (if backup pf then pushed s @ [ns_Peek s] else pushed s)\<rparr>"

definition ns_Take :: "parse_flags \<Rightarrow> number_stream \<Rightarrow> number_stream" where
  "ns_Take pf s = (if pushOnTake pf then ns_TakePush pf s else s\<lparr>ns_is := Take (ns_is s)\<rparr>)"

definition ns_Consume :: "parse_flags \<Rightarrow> number_stream \<Rightarrow> char \<Rightarrow> number_stream option" where
  "ns_Consume pf s c = (if ns_Peek s = c then Some (ns_Take pf s) else None)"

fun ns_Consume_all :: "parse_flags \<Rightarrow> number_stream \<Rightarrow> string \<Rightarrow> bool \<times> number_stream" where
  "ns_Consume_all pf s [] = (True, s)"
| "ns_Consume_all pf s (c # cs) =
     (case ns_Consume pf s c of None \<Rightarrow> (False, s) | Some s' \<Rightarrow> ns_Consume_all pf s' cs)"

definition ns_tell :: "number_stream \<Rightarrow> nat" where
  "ns_tell s = tell (ns_is s)"

abbreviation ns_left :: "number_stream \<Rightarrow> nat" where
  "ns_left s \<equiv> length (src (ns_is s))"

lemma ns_is_TakePush [simp]: "ns_is (ns_TakePush pf s) = Take (ns_is s)"
  by (simp add: ns_TakePush_def)

lemma ns_is_Take [simp]: "ns_is (ns_Take pf s) = Take (ns_is s)"
  by (simp add: ns_Take_def)

lemma ns_digit_shrinks:
  "is_digit (ns_Peek s) \<Longrightarrow> ns_left (ns_TakePush pf s) < ns_left s"
  "is_digit (ns_Peek s) \<Longrightarrow> ns_left (ns_Take pf s) < ns_left s"
  using Take_shrinks [of "ns_is s"] by (auto simp: ns_Peek_def is_digit_def)

lemma ns_left_le [simp]:
  "ns_left (ns_TakePush pf s) \<le> ns_left s" "ns_left (ns_Take pf s) \<le> ns_left s"
  by (simp_all add: Take_le)

section \<open>State of the scan\<close>

record number_scan =
  minus :: bool
  num_i :: nat
  num_i64 :: nat
  use64bit :: bool
  useDouble :: bool
  useNanOrInf :: bool
  num_d :: double
  significandDigit :: nat
  expFrac :: int
  num_exp :: int
  decimalPosition :: nat

definition num_init :: number_scan where
  "num_init =
     \<lparr>minus = False, num_i = 0, num_i64 = 0, use64bit = False, useDouble = False, useNanOrInf = False,
      num_d = dzero, significandDigit = 0, expFrac = 0, num_exp = 0, decimalPosition = 0\<rparr>"

definition ten :: double where "ten = int_to_double 10"

definition digit_double :: "char \<Rightarrow> double" where
  "digit_double c = int_to_double (int (digit_val c))"

section \<open>Integers\<close>

text \<open>
  The loops over the digits of an integer, in 32 and in 64 bits: they stop before a digit that would leave
  the range, given by the largest prefix \<open>limit\<close> and the largest digit \<open>topdigit\<close> behind it. The flag
  says that they stopped there.
\<close>

function int_loop :: "parse_flags \<Rightarrow> nat \<Rightarrow> nat \<Rightarrow> nat \<Rightarrow> nat \<Rightarrow> number_stream \<Rightarrow> nat \<times> bool \<times> nat \<times> number_stream" where
  "int_loop pf limit topdigit i sd s =
     (if is_digit (ns_Peek s) then
        (if i \<ge> limit \<and> (i \<noteq> limit \<or> digit_val (ns_Peek s) > topdigit) then (i, True, sd, s)
         else int_loop pf limit topdigit (i * 10 + digit_val (ns_Peek s)) (sd + 1) (ns_TakePush pf s))
      else (i, False, sd, s))"
  by auto
termination
  by (relation "measure (\<lambda>(pf, limit, topdigit, i, sd, s). ns_left s)") (auto dest: ns_digit_shrinks(1) simp del: ns_is_TakePush)

declare int_loop.simps [simp del]

text \<open>Infinity and not-a-number, when the flags allow them.\<close>

definition parse_nan_inf :: "parse_flags \<Rightarrow> number_scan \<Rightarrow> number_stream \<Rightarrow> (number_scan \<times> number_stream) parse" where
  "parse_nan_inf pf m s =
     (case ns_Consume pf s (CHR ''N'') of
        Some s \<Rightarrow>
          (case ns_Consume_all pf s ''aN'' of
             (True, s) \<Rightarrow> Inr (m\<lparr>num_d := NaN, useNanOrInf := True\<rparr>, s)
           | (False, s) \<Rightarrow> Inl (ParseError kParseErrorValueInvalid (ns_tell s)))
      | None \<Rightarrow>
          (case ns_Consume pf s (CHR ''I'') of
             None \<Rightarrow> Inl (ParseError kParseErrorValueInvalid (ns_tell s))
           | Some s \<Rightarrow>
               (case ns_Consume_all pf s ''nf'' of
                  (False, s) \<Rightarrow> Inl (ParseError kParseErrorValueInvalid (ns_tell s))
                | (True, s) \<Rightarrow>
                    (let m = m\<lparr>num_d := Inf (minus m), useNanOrInf := True\<rparr> in
                     if ns_Peek s = CHR ''i'' then
                       (case ns_Consume_all pf s ''inity'' of
                          (True, s) \<Rightarrow> Inr (m, s)
                        | (False, s) \<Rightarrow> Inl (ParseError kParseErrorValueInvalid (ns_tell s)))
                     else Inr (m, s)))))"

definition parse_minus :: "parse_flags \<Rightarrow> number_stream \<Rightarrow> number_scan \<times> number_stream" where
  "parse_minus pf s =
     (case ns_Consume pf s (CHR ''-'') of
        Some s \<Rightarrow> (num_init\<lparr>minus := True\<rparr>, s) | None \<Rightarrow> (num_init, s))"

definition parse_int :: "parse_flags \<Rightarrow> number_scan \<Rightarrow> number_stream \<Rightarrow> (number_scan \<times> number_stream) parse" where
  "parse_int pf m s =
     (if ns_Peek s = CHR ''0'' then Inr (m, ns_TakePush pf s)
      else if is_digit (ns_Peek s) then
        (case (if minus m then int_loop pf 214748364 8 (digit_val (ns_Peek s)) 0 (ns_TakePush pf s)
               else int_loop pf 429496729 5 (digit_val (ns_Peek s)) 0 (ns_TakePush pf s)) of
           (i, over, sd, s) \<Rightarrow>
             Inr (m\<lparr>num_i := i, num_i64 := (if over then i else 0), use64bit := over, significandDigit := sd\<rparr>, s))
      else if kParseNanAndInfFlag \<in> set pf \<and> (ns_Peek s = CHR ''I'' \<or> ns_Peek s = CHR ''N'') then
        parse_nan_inf pf m s
      else Inl (ParseError kParseErrorValueInvalid (ns_tell s)))"

definition parse_int64 :: "parse_flags \<Rightarrow> number_scan \<Rightarrow> number_stream \<Rightarrow> number_scan \<times> number_stream" where
  "parse_int64 pf m s =
     (if use64bit m then
        (case (if minus m then int_loop pf 0x0CCCCCCCCCCCCCCC 8 (num_i64 m) (significandDigit m) s
               else int_loop pf 0x1999999999999999 5 (num_i64 m) (significandDigit m) s) of
           (i64, over, sd, s) \<Rightarrow>
             (m\<lparr>num_i64 := i64, significandDigit := sd, useDouble := over,
                num_d := (if over then int_to_double (int i64) else num_d m)\<rparr>, s))
      else (m, s))"

text \<open>A big integer goes on as a double.\<close>

function double_loop :: "parse_flags \<Rightarrow> double \<Rightarrow> number_stream \<Rightarrow> double \<times> number_stream" where
  "double_loop pf d s =
     (if is_digit (ns_Peek s)
      then double_loop pf (dadd (dmul d ten) (digit_double (ns_Peek s))) (ns_TakePush pf s)
      else (d, s))"
  by auto
termination
  by (relation "measure (\<lambda>(pf, d, s). ns_left s)") (auto dest: ns_digit_shrinks(1) simp del: ns_is_TakePush)

declare double_loop.simps [simp del]

definition parse_big :: "parse_flags \<Rightarrow> number_scan \<Rightarrow> number_stream \<Rightarrow> number_scan \<times> number_stream" where
  "parse_big pf m s =
     (if useDouble m then (case double_loop pf (num_d m) s of (d, s) \<Rightarrow> (m\<lparr>num_d := d\<rparr>, s)) else (m, s))"

section \<open>Fraction\<close>

text \<open>The first digits of the fraction go into the 64-bit significand, up to $2^{53} - 1$.\<close>

function frac_loop :: "parse_flags \<Rightarrow> nat \<Rightarrow> int \<Rightarrow> nat \<Rightarrow> number_stream \<Rightarrow> nat \<times> int \<times> nat \<times> number_stream" where
  "frac_loop pf i64 ef sd s =
     (if is_digit (ns_Peek s) \<and> i64 \<le> 0x1FFFFFFFFFFFFF then
        (let i64' = i64 * 10 + digit_val (ns_Peek s)
         in frac_loop pf i64' (ef - 1) (if i64' \<noteq> 0 then sd + 1 else sd) (ns_TakePush pf s))
      else (i64, ef, sd, s))"
  by auto
termination
  by (relation "measure (\<lambda>(pf, i64, ef, sd, s). ns_left s)") (auto dest: ns_digit_shrinks(1) simp del: ns_is_TakePush)

declare frac_loop.simps [simp del]

text \<open>Further digits count up to 17 significant ones, the others are skipped.\<close>

function frac_double_loop :: "parse_flags \<Rightarrow> double \<Rightarrow> int \<Rightarrow> nat \<Rightarrow> number_stream \<Rightarrow> double \<times> int \<times> nat \<times> number_stream" where
  "frac_double_loop pf d ef sd s =
     (if is_digit (ns_Peek s) then
        (if sd < 17 then
           (let d' = dadd (dmul d ten) (digit_double (ns_Peek s))
            in frac_double_loop pf d' (ef - 1) (if dlt dzero d' then sd + 1 else sd) (ns_TakePush pf s))
         else frac_double_loop pf d ef sd (ns_TakePush pf s))
      else (d, ef, sd, s))"
  by auto
termination
  by (relation "measure (\<lambda>(pf, d, ef, sd, s). ns_left s)") (auto dest: ns_digit_shrinks(1) simp del: ns_is_TakePush)

declare frac_double_loop.simps [simp del]

definition parse_frac :: "parse_flags \<Rightarrow> number_scan \<Rightarrow> number_stream \<Rightarrow> (number_scan \<times> number_stream) parse" where
  "parse_frac pf m s =
     (case (if useNanOrInf m then None else ns_Consume pf s (CHR ''.'')) of
        None \<Rightarrow> Inr (m\<lparr>decimalPosition := length (pushed s)\<rparr>, s)
      | Some s \<Rightarrow>
          if \<not> is_digit (ns_Peek s) then Inl (ParseError kParseErrorNumberMissFraction (ns_tell s))
          else
            let m = m\<lparr>decimalPosition := length (pushed s)\<rparr>;
                (m, s) =
                  (if \<not> useDouble m then
                     (case frac_loop pf (if use64bit m then num_i64 m else num_i m) 0 (significandDigit m) s of
                        (i64, ef, sd, s) \<Rightarrow>
                          (m\<lparr>num_i64 := i64, expFrac := ef, significandDigit := sd,
                             num_d := int_to_double (int i64), useDouble := True\<rparr>, s))
                   else (m, s))
            in case frac_double_loop pf (num_d m) (expFrac m) (significandDigit m) s of
                 (d, ef, sd, s) \<Rightarrow> Inr (m\<lparr>num_d := d, expFrac := ef, significandDigit := sd\<rparr>, s))"

section \<open>Exponent\<close>

function skip_digits :: "parse_flags \<Rightarrow> number_stream \<Rightarrow> number_stream" where
  "skip_digits pf s = (if is_digit (ns_Peek s) then skip_digits pf (ns_Take pf s) else s)"
  by auto
termination
  by (relation "measure (\<lambda>(pf, s). ns_left s)") (auto dest: ns_digit_shrinks(2) simp del: ns_is_Take)

declare skip_digits.simps [simp del]

text \<open>A negative exponent beyond the limit: the rest of its digits is consumed.\<close>

function exp_minus_loop :: "parse_flags \<Rightarrow> int \<Rightarrow> int \<Rightarrow> number_stream \<Rightarrow> int \<times> number_stream" where
  "exp_minus_loop pf maxExp e s =
     (if is_digit (ns_Peek s) then
        (let e' = e * 10 + int (digit_val (ns_Peek s)); s' = ns_Take pf s
         in if e' > maxExp then (e', skip_digits pf s') else exp_minus_loop pf maxExp e' s')
      else (e, s))"
  by auto
termination
  by (relation "measure (\<lambda>(pf, m, e, s). ns_left s)") (auto dest: ns_digit_shrinks(2) simp del: ns_is_Take)

declare exp_minus_loop.simps [simp del]

function exp_plus_loop :: "parse_flags \<Rightarrow> nat \<Rightarrow> int \<Rightarrow> int \<Rightarrow> number_stream \<Rightarrow> (int \<times> number_stream) parse" where
  "exp_plus_loop pf startOffset maxExp e s =
     (if is_digit (ns_Peek s) then
        (let e' = e * 10 + int (digit_val (ns_Peek s)); s' = ns_Take pf s
         in if e' > maxExp then Inl (ParseError kParseErrorNumberTooBig startOffset)
            else exp_plus_loop pf startOffset maxExp e' s')
      else Inr (e, s))"
  by auto
termination
  by (relation "measure (\<lambda>(pf, so, m, e, s). ns_left s)") (auto dest: ns_digit_shrinks(2) simp del: ns_is_Take)

declare exp_plus_loop.simps [simp del]

definition exp_mark :: "parse_flags \<Rightarrow> number_stream \<Rightarrow> number_stream option" where
  "exp_mark pf s =
     (case ns_Consume pf s (CHR ''e'') of Some s \<Rightarrow> Some s | None \<Rightarrow> ns_Consume pf s (CHR ''E''))"

definition exp_sign :: "parse_flags \<Rightarrow> number_stream \<Rightarrow> bool \<times> number_stream" where
  "exp_sign pf s =
     (case ns_Consume pf s (CHR ''+'') of
        Some s \<Rightarrow> (False, s)
      | None \<Rightarrow> (case ns_Consume pf s (CHR ''-'') of Some s \<Rightarrow> (True, s) | None \<Rightarrow> (False, s)))"

definition parse_exp :: "parse_flags \<Rightarrow> nat \<Rightarrow> number_scan \<Rightarrow> number_stream \<Rightarrow> (number_scan \<times> number_stream) parse" where
  "parse_exp pf startOffset m s =
     (case (if useNanOrInf m then None else exp_mark pf s) of
        None \<Rightarrow> Inr (m, s)
      | Some s \<Rightarrow>
          let m = (if \<not> useDouble m
                   then m\<lparr>num_d := int_to_double (int (if use64bit m then num_i64 m else num_i m)), useDouble := True\<rparr>
                   else m);
              (expMinus, s) = exp_sign pf s
          in if is_digit (ns_Peek s) then
               let e = int (digit_val (ns_Peek s)); s = ns_Take pf s
               in if expMinus then
                    (if expFrac m > 0 then Inl (Fault AssertionFailed)
                     else case exp_minus_loop pf ((expFrac m + 2147483639) div 10) e s of
                            (e, s) \<Rightarrow> Inr (m\<lparr>num_exp := - e\<rparr>, s))
                  else pbind (exp_plus_loop pf startOffset (308 - expFrac m) e s) (\<lambda>(e, s).
                         Inr (m\<lparr>num_exp := e\<rparr>, s))
             else Inl (ParseError kParseErrorNumberMissExponent (ns_tell s)))"

section \<open>The event of a number\<close>

definition double_max :: double where
  "double_max = Fin False (2 ^ 53 - 1) 971"

definition number_token :: "parse_flags \<Rightarrow> nat \<Rightarrow> number_scan \<Rightarrow> number_stream \<Rightarrow> event parse" where
  "number_token pf startOffset m s =
     (if kParseNumbersAsStringsFlag \<in> set pf then Inr (ERawNumber (pushed s))
      else if useDouble m then
        pbind (of_result
                 (if kParseFullPrecisionFlag \<in> set pf
                  then StrtodFullPrecision (num_d m) (num_exp m + expFrac m) (pushed s) (decimalPosition m) (num_exp m)
                  else StrtodNormalPrecision (num_d m) (num_exp m + expFrac m)))
          (\<lambda>d. if dlt double_max d then Inl (ParseError kParseErrorNumberTooBig startOffset)
               else Inr (EDouble (if minus m then dneg d else d)))
      else if useNanOrInf m then Inr (EDouble (num_d m))
      else if use64bit m then
        Inr (if minus m then EInt64 (- of_nat (num_i64 m)) else EUint64 (of_nat (num_i64 m)))
      else Inr (if minus m then EInt (- of_nat (num_i m)) else EUint (of_nat (num_i m))))"

definition ScanNumber :: "parse_flags \<Rightarrow> istream \<Rightarrow> (number_scan \<times> number_stream) parse" where
  "ScanNumber pf is =
     (let (m, s) = parse_minus pf \<lparr>ns_is = is, pushed = []\<rparr> in
      pbind (parse_int pf m s) (\<lambda>(m, s).
        let (m, s) = parse_int64 pf m s; (m, s) = parse_big pf m s in
        pbind (parse_frac pf m s) (\<lambda>(m, s). parse_exp pf (tell is) m s)))"

definition ParseNumber :: "parse_flags \<Rightarrow> 'h handler \<Rightarrow> istream \<times> 'h \<Rightarrow> (istream \<times> 'h) parse" where
  "ParseNumber pf h st =
     (case st of (is, hs) \<Rightarrow>
        pbind (ScanNumber pf is) (\<lambda>(m, s).
        pbind (number_token pf (tell is) m s) (\<lambda>ev.
        pbind (notify h ev (tell is) hs) (\<lambda>hs. Inr (ns_is s, hs)))))"

section \<open>Consumption\<close>

lemma int_loop_le: "int_loop pf l t i sd s = (i', o', sd', s') \<Longrightarrow> ns_left s' \<le> ns_left s"
proof (induction pf l t i sd s rule: int_loop.induct)
  case (1 pf l t i sd s)
  show ?case
    using 1 Take_le [of "ns_is s"]
    by (subst (asm) (2) int_loop.simps) (auto split: if_splits dest: order_trans)
qed

lemma double_loop_le: "double_loop pf d s = (d', s') \<Longrightarrow> ns_left s' \<le> ns_left s"
proof (induction pf d s rule: double_loop.induct)
  case (1 pf d s)
  show ?case
    using 1 Take_le [of "ns_is s"]
    by (subst (asm) (2) double_loop.simps) (auto split: if_splits dest: order_trans)
qed

lemma frac_loop_le: "frac_loop pf i ef sd s = (i', ef', sd', s') \<Longrightarrow> ns_left s' \<le> ns_left s \<and> ef' \<le> ef"
proof (induction pf i ef sd s rule: frac_loop.induct)
  case (1 pf i ef sd s)
  show ?case
  proof (cases "is_digit (ns_Peek s) \<and> i \<le> 0x1FFFFFFFFFFFFF")
    case True
    have "ns_left s' \<le> ns_left (ns_TakePush pf s) \<and> ef' \<le> ef - 1"
      by (rule "1.IH" [OF True refl]) (use "1.prems" True in \<open>subst (asm) frac_loop.simps, simp add: Let_def\<close>)
    with Take_le [of "ns_is s"] show ?thesis by simp
  next
    case False
    with "1.prems" show ?thesis by (subst (asm) frac_loop.simps) (simp add: Let_def)
  qed
qed

lemma frac_double_loop_le:
  "frac_double_loop pf d ef sd s = (d', ef', sd', s') \<Longrightarrow> ns_left s' \<le> ns_left s \<and> ef' \<le> ef"
proof (induction pf d ef sd s rule: frac_double_loop.induct)
  case (1 pf d ef sd s)
  consider "\<not> is_digit (ns_Peek s)" | "is_digit (ns_Peek s)" "sd < 17" | "is_digit (ns_Peek s)" "\<not> sd < 17"
    by blast
  then show ?case
  proof cases
    case 2
    have "ns_left s' \<le> ns_left (ns_TakePush pf s) \<and> ef' \<le> ef - 1"
      by (rule "1.IH"(1) [OF 2 refl]) (use "1.prems" 2 in \<open>subst (asm) frac_double_loop.simps, simp add: Let_def\<close>)
    with Take_le [of "ns_is s"] show ?thesis by simp
  next
    case 3
    have "ns_left s' \<le> ns_left (ns_TakePush pf s) \<and> ef' \<le> ef"
      by (rule "1.IH"(2) [OF 3]) (use "1.prems" 3 in \<open>subst (asm) frac_double_loop.simps, simp add: Let_def\<close>)
    with Take_le [of "ns_is s"] show ?thesis by simp
  qed (use "1.prems" in \<open>subst (asm) frac_double_loop.simps, simp\<close>)
qed

lemma skip_digits_le: "ns_left (skip_digits pf s) \<le> ns_left s"
proof (induction pf s rule: skip_digits.induct)
  case (1 pf s)
  then show ?case
    using Take_le [of "ns_is s"] by (subst skip_digits.simps) (auto intro: order_trans)
qed

lemma exp_minus_loop_le: "exp_minus_loop pf m e s = (e', s') \<Longrightarrow> ns_left s' \<le> ns_left s"
proof (induction pf m e s rule: exp_minus_loop.induct)
  case (1 pf m e s)
  show ?case
    using 1 Take_le [of "ns_is s"] skip_digits_le [of pf "ns_Take pf s"]
    by (subst (asm) (2) exp_minus_loop.simps)
       (auto split: if_splits dest: order_trans simp: Let_def)
qed

lemma exp_plus_loop_le: "exp_plus_loop pf so m e s = Inr (e', s') \<Longrightarrow> ns_left s' \<le> ns_left s"
proof (induction pf so m e s rule: exp_plus_loop.induct)
  case (1 pf so m e s)
  show ?case
    using 1 Take_le [of "ns_is s"]
    by (subst (asm) (2) exp_plus_loop.simps)
       (auto split: if_splits dest: order_trans simp: Let_def)
qed

lemma ns_Consume_le: "ns_Consume pf s c = Some s' \<Longrightarrow> ns_left s' \<le> ns_left s"
  using ns_left_le(2) [of pf s] by (auto simp: ns_Consume_def split: if_splits)

lemma ns_Consume_all_le: "ns_Consume_all pf s cs = (ok, s') \<Longrightarrow> ns_left s' \<le> ns_left s"
proof (induction cs arbitrary: s)
  case (Cons c cs)
  then show ?case by (auto split: option.splits dest!: ns_Consume_le dest: order_trans)
qed simp

lemma ns_Consume_shrinks:
  "ns_Consume pf s c = Some s' \<Longrightarrow> c \<noteq> CHR 0x00 \<Longrightarrow> ns_left s' < ns_left s"
  using Take_shrinks [of "ns_is s"] by (auto simp: ns_Consume_def ns_Peek_def split: if_splits)

lemma parse_nan_inf_shrinks:
  assumes "parse_nan_inf pf m s = Inr (m', s')"
  shows "ns_left s' < ns_left s \<and> expFrac m' = expFrac m \<and> num_exp m' = num_exp m"
proof (cases "ns_Consume pf s (CHR ''N'')")
  case (Some s1)
  with assms ns_Consume_shrinks [OF Some] show ?thesis
    by (auto simp: parse_nan_inf_def split: prod.splits bool.splits dest!: ns_Consume_all_le simp del: ns_Consume_all.simps)
next
  case None
  with assms show ?thesis
    by (auto simp: parse_nan_inf_def Let_def split: prod.splits bool.splits option.splits if_splits
        dest!: ns_Consume_all_le ns_Consume_shrinks simp del: ns_Consume_all.simps)
qed

lemma parse_int_shrinks:
  assumes "parse_int pf m s = Inr (m', s')"
  shows "ns_left s' < ns_left s \<and> expFrac m' = expFrac m \<and> num_exp m' = num_exp m"
proof -
  consider "ns_Peek s = CHR ''0''" | "ns_Peek s \<noteq> CHR ''0''" "is_digit (ns_Peek s)" | "\<not> is_digit (ns_Peek s)"
    by blast
  then show ?thesis
  proof cases
    case 1
    then show ?thesis
      using assms Take_shrinks [of "ns_is s"] by (auto simp: parse_int_def ns_Peek_def)
  next
    case 2
    then have "ns_left (ns_TakePush pf s) < ns_left s" by (intro ns_digit_shrinks)
    with assms 2 show ?thesis
      by (auto simp: parse_int_def split: prod.splits if_splits dest!: int_loop_le)
  next
    case 3
    then show ?thesis
      using assms parse_nan_inf_shrinks [of pf m s m' s'] by (auto simp: parse_int_def split: if_splits)
  qed
qed

lemma parse_int64_le:
  assumes "parse_int64 pf m s = (m', s')"
  shows "ns_left s' \<le> ns_left s \<and> expFrac m' = expFrac m \<and> num_exp m' = num_exp m"
  using assms by (auto simp: parse_int64_def split: prod.splits if_splits dest!: int_loop_le)

lemma parse_big_le:
  assumes "parse_big pf m s = (m', s')"
  shows "ns_left s' \<le> ns_left s \<and> expFrac m' = expFrac m \<and> num_exp m' = num_exp m"
  using assms by (auto simp: parse_big_def split: prod.splits if_splits dest!: double_loop_le)

lemma parse_frac_le:
  assumes "parse_frac pf m s = Inr (m', s')" and "expFrac m \<le> 0"
  shows "ns_left s' \<le> ns_left s \<and> expFrac m' \<le> 0 \<and> num_exp m' = num_exp m"
proof (cases "if useNanOrInf m then None else ns_Consume pf s (CHR ''.'')")
  case None
  with assms show ?thesis by (auto simp: parse_frac_def)
next
  case (Some s1)
  then have "ns_left s1 \<le> ns_left s" by (auto split: if_splits dest: ns_Consume_le)
  moreover have "ns_left s' \<le> ns_left s1 \<and> expFrac m' \<le> 0 \<and> num_exp m' = num_exp m"
    using assms Some
    by (auto simp: parse_frac_def Let_def split: if_splits prod.splits
        dest!: frac_loop_le frac_double_loop_le)
  ultimately show ?thesis by simp
qed

lemma exp_plus_loop_bound: "exp_plus_loop pf so mx e s = Inr (e', s') \<Longrightarrow> e' \<le> max e mx"
proof (induction pf so mx e s rule: exp_plus_loop.induct)
  case (1 pf so mx e s)
  show ?case
    using 1 by (subst (asm) (2) exp_plus_loop.simps) (auto split: if_splits simp: Let_def le_max_iff_disj)
qed

lemma exp_minus_loop_nonneg: "exp_minus_loop pf mx e s = (e', s') \<Longrightarrow> 0 \<le> e \<Longrightarrow> 0 \<le> e'"
proof (induction pf mx e s rule: exp_minus_loop.induct)
  case (1 pf mx e s)
  show ?case
    using 1 by (subst (asm) (2) exp_minus_loop.simps) (auto split: if_splits simp: Let_def)
qed

lemma exp_mark_le: "exp_mark pf s = Some s' \<Longrightarrow> ns_left s' \<le> ns_left s"
  by (auto simp: exp_mark_def split: option.splits dest: ns_Consume_le)

lemma exp_sign_le: "exp_sign pf s = (b, s') \<Longrightarrow> ns_left s' \<le> ns_left s"
  by (auto simp: exp_sign_def split: option.splits dest: ns_Consume_le)

lemma digit_val_le_9: "is_digit c \<Longrightarrow> digit_val c \<le> 9"
  by (auto simp: is_digit_def digit_val_def)

lemma parse_exp_le:
  assumes "parse_exp pf so m s = Inr (m', s')" and "expFrac m \<le> 0" and "num_exp m = 0"
  shows "ns_left s' \<le> ns_left s \<and> num_exp m' + expFrac m' \<le> 308"
proof (cases "if useNanOrInf m then None else exp_mark pf s")
  case None
  with assms show ?thesis by (auto simp: parse_exp_def)
next
  case (Some s1)
  then have s1: "ns_left s1 \<le> ns_left s" by (auto split: if_splits dest: exp_mark_le)
  obtain b s2 where sg: "exp_sign pf s1 = (b, s2)" by fastforce
  let ?s3 = "ns_Take pf s2" and ?e = "int (digit_val (ns_Peek s2))"
  have d: "is_digit (ns_Peek s2)" using assms(1) Some sg by (auto simp: parse_exp_def Let_def split: if_splits)
  have s3: "ns_left ?s3 \<le> ns_left s" using s1 exp_sign_le [OF sg] Take_le [of "ns_is s2"] by simp
  show ?thesis
  proof (cases b)
    case True
    then obtain e s4 where "exp_minus_loop pf ((expFrac m + 2147483639) div 10) ?e ?s3 = (e, s4)"
        "s' = s4" "num_exp m' = - e" "expFrac m' = expFrac m"
      using assms Some sg d by (cases "useDouble m") (auto simp: parse_exp_def Let_def split: prod.splits)
    then show ?thesis
      using s3 assms(2) exp_minus_loop_le exp_minus_loop_nonneg by fastforce
  next
    case False
    then obtain e s4 where e: "exp_plus_loop pf so (308 - expFrac m) ?e ?s3 = Inr (e, s4)"
        "s' = s4" "num_exp m' = e" "expFrac m' = expFrac m"
      using assms Some sg d by (cases "useDouble m") (auto simp: parse_exp_def Let_def pbind_Inr_iff)
    then show ?thesis
      using s3 assms(2) exp_plus_loop_le [OF e(1)] exp_plus_loop_bound [OF e(1)] digit_val_le_9 [OF d] by auto
  qed
qed

lemma ScanNumber_shrinks:
  assumes "ScanNumber pf is = Inr (m, s)"
  shows "length (src (ns_is s)) < length (src is) \<and> num_exp m + expFrac m \<le> 308"
proof -
  obtain m0 s0 where 0: "parse_minus pf \<lparr>ns_is = is, pushed = []\<rparr> = (m0, s0)" by fastforce
  then have "ns_left s0 \<le> length (src is)" "expFrac m0 = 0" "num_exp m0 = 0"
    by (auto simp: parse_minus_def num_init_def split: option.splits dest!: ns_Consume_le)
  moreover obtain m1 s1 where 1: "parse_int pf m0 s0 = Inr (m1, s1)"
    using assms by (auto simp: ScanNumber_def 0 pbind_Inr_iff)
  moreover obtain m2 s2 where 2: "parse_int64 pf m1 s1 = (m2, s2)" by fastforce
  moreover obtain m3 s3 where 3: "parse_big pf m2 s2 = (m3, s3)" by fastforce
  moreover obtain m4 s4 where 4: "parse_frac pf m3 s3 = Inr (m4, s4)"
    using assms by (auto simp: ScanNumber_def 0 1 2 3 pbind_Inr_iff)
  moreover have "parse_exp pf (tell is) m4 s4 = Inr (m, s)"
    using assms by (auto simp: ScanNumber_def 0 1 2 3 4 pbind_Inr_iff)
  ultimately show ?thesis
    using parse_int_shrinks [OF 1] parse_int64_le [OF 2] parse_big_le [OF 3] parse_frac_le [OF 4]
      parse_exp_le [of pf "tell is" m4 s4 m s] by simp
qed

lemma ParseNumber_shrinks:
  "ParseNumber pf h (is, s) = Inr (is', s') \<Longrightarrow> length (src is') < length (src is)"
  by (auto simp: ParseNumber_def pbind_Inr_iff dest!: ScanNumber_shrinks)

end
