(* ===== verification/Json_Parser.thy ===== *)
theory Json_Parser
  imports Json_Number
begin

text \<open>
  Values, objects, arrays and documents in the RapidJSON reader (rapidjson/reader.h,
  \<^verbatim>\<open>ParseNull\<close> to \<^verbatim>\<open>ParseValue\<close> and \<^verbatim>\<open>Parse\<close>).
\<close>

section \<open>Literals\<close>

text \<open>\<^verbatim>\<open>Consume(is, a) && Consume(is, b) && ...\<close>: a mismatch leaves the stream where it occurs.\<close>

fun Consume_all :: "istream \<Rightarrow> string \<Rightarrow> bool \<times> istream" where
  "Consume_all is [] = (True, is)"
| "Consume_all is (c # cs) =
     (case Consume is c of None \<Rightarrow> (False, is) | Some is' \<Rightarrow> Consume_all is' cs)"

definition parse_literal :: "'h handler \<Rightarrow> string \<Rightarrow> event \<Rightarrow> istream \<times> 'h \<Rightarrow> (istream \<times> 'h) parse" where
  "parse_literal h lit ev st =
     (case st of (is, s) \<Rightarrow>
        if Peek is \<noteq> hd lit then Inl (Fault AssertionFailed)
        else case Consume_all (Take is) (tl lit) of
               (True, is) \<Rightarrow> pbind (notify h ev (tell is) s) (\<lambda>s. Inr (is, s))
             | (False, is) \<Rightarrow> Inl (ParseError kParseErrorValueInvalid (tell is)))"

definition ParseNull :: "'h handler \<Rightarrow> istream \<times> 'h \<Rightarrow> (istream \<times> 'h) parse" where
  "ParseNull h = parse_literal h ''null'' ENull"

definition ParseTrue :: "'h handler \<Rightarrow> istream \<times> 'h \<Rightarrow> (istream \<times> 'h) parse" where
  "ParseTrue h = parse_literal h ''true'' (EBool True)"

definition ParseFalse :: "'h handler \<Rightarrow> istream \<times> 'h \<Rightarrow> (istream \<times> 'h) parse" where
  "ParseFalse h = parse_literal h ''false'' (EBool False)"

section \<open>Objects and arrays\<close>

definition skip :: "parse_flags \<Rightarrow> istream \<times> 'h \<Rightarrow> (istream \<times> 'h) parse" where
  "skip pf st = (case st of (is, s) \<Rightarrow> pbind (SkipWhitespaceAndComments pf is) (\<lambda>is. Inr (is, s)))"

text \<open>The opening bracket of an object or array, its start event, and the white space behind it.\<close>

definition open_bracket ::
  "parse_flags \<Rightarrow> 'h handler \<Rightarrow> char \<Rightarrow> event \<Rightarrow> istream \<times> 'h \<Rightarrow> (istream \<times> 'h) parse" where
  "open_bracket pf h c ev st =
     (case st of (is, s) \<Rightarrow>
        if Peek is \<noteq> c then Inl (Fault AssertionFailed)
        else let is = Take is in pbind (notify h ev (tell is) s) (\<lambda>s. skip pf (is, s)))"

text \<open>A closing bracket is consumed before its event; behind a trailing comma after it.\<close>

definition close_bracket :: "'h handler \<Rightarrow> event \<Rightarrow> istream \<times> 'h \<Rightarrow> (istream \<times> 'h) parse" where
  "close_bracket h ev st =
     (case st of (is, s) \<Rightarrow> let is = Take is in pbind (notify h ev (tell is) s) (\<lambda>s. Inr (is, s)))"

definition close_trailing :: "'h handler \<Rightarrow> event \<Rightarrow> istream \<times> 'h \<Rightarrow> (istream \<times> 'h) parse" where
  "close_trailing h ev st =
     (case st of (is, s) \<Rightarrow> pbind (notify h ev (tell is) s) (\<lambda>s. Inr (Take is, s)))"

text \<open>The name of a member and its colon.\<close>

definition parse_name :: "parse_flags \<Rightarrow> 'h handler \<Rightarrow> istream \<times> 'h \<Rightarrow> (istream \<times> 'h) parse" where
  "parse_name pf h st =
     (if Peek (fst st) \<noteq> CHR 0x22 then Inl (ParseError kParseErrorObjectMissName (tell (fst st)))
      else pbind (ParseString pf h True st) (\<lambda>st.
           pbind (skip pf st) (\<lambda>(is, s).
             case Consume is (CHR '':'') of
               None \<Rightarrow> Inl (ParseError kParseErrorObjectMissColon (tell is))
             | Some is \<Rightarrow> skip pf (is, s))))"

text \<open>The fuel bounds the nesting and the number of members and elements together.\<close>

fun ParseValue :: "nat \<Rightarrow> parse_flags \<Rightarrow> 'h handler \<Rightarrow> istream \<times> 'h \<Rightarrow> (istream \<times> 'h) parse"
  and object_loop :: "nat \<Rightarrow> parse_flags \<Rightarrow> 'h handler \<Rightarrow> nat \<Rightarrow> istream \<times> 'h \<Rightarrow> (istream \<times> 'h) parse"
  and array_loop :: "nat \<Rightarrow> parse_flags \<Rightarrow> 'h handler \<Rightarrow> nat \<Rightarrow> istream \<times> 'h \<Rightarrow> (istream \<times> 'h) parse" where
  "ParseValue 0 pf h st = Inl (Fault NonTermination)"
| "ParseValue (Suc n) pf h st =
     (let c = Peek (fst st) in
      if c = CHR ''n'' then ParseNull h st
      else if c = CHR ''t'' then ParseTrue h st
      else if c = CHR ''f'' then ParseFalse h st
      else if c = CHR 0x22 then ParseString pf h False st
      else if c = CHR ''{'' then
        pbind (open_bracket pf h (CHR ''{'') EStartObject st) (\<lambda>st.
          if Peek (fst st) = CHR ''}'' then close_bracket h (EEndObject 0) st
          else object_loop n pf h 0 st)
      else if c = CHR ''['' then
        pbind (open_bracket pf h (CHR ''['') EStartArray st) (\<lambda>st.
          if Peek (fst st) = CHR '']'' then close_bracket h (EEndArray 0) st
          else array_loop n pf h 0 st)
      else ParseNumber pf h st)"
| "object_loop 0 pf h memberCount st = Inl (Fault NonTermination)"
| "object_loop (Suc n) pf h memberCount st =
     pbind (parse_name pf h st) (\<lambda>st.
     pbind (ParseValue n pf h st) (\<lambda>st.
     pbind (skip pf st) (\<lambda>(is, s).
       let memberCount = memberCount + 1 in
       if Peek is = CHR '','' then
         pbind (skip pf (Take is, s)) (\<lambda>st.
           if kParseTrailingCommasFlag \<in> set pf \<and> Peek (fst st) = CHR ''}''
           then close_trailing h (EEndObject memberCount) st
           else object_loop n pf h memberCount st)
       else if Peek is = CHR ''}'' then close_bracket h (EEndObject memberCount) (is, s)
       else Inl (ParseError kParseErrorObjectMissCommaOrCurlyBracket (tell is)))))"
| "array_loop 0 pf h elementCount st = Inl (Fault NonTermination)"
| "array_loop (Suc n) pf h elementCount st =
     pbind (ParseValue n pf h st) (\<lambda>st.
     pbind (skip pf st) (\<lambda>(is, s).
       let elementCount = elementCount + 1 in
       if Peek is = CHR '','' then
         pbind (skip pf (Take is, s)) (\<lambda>st.
           if kParseTrailingCommasFlag \<in> set pf \<and> Peek (fst st) = CHR '']''
           then close_trailing h (EEndArray elementCount) st
           else array_loop n pf h elementCount st)
       else if Peek is = CHR '']'' then close_bracket h (EEndArray elementCount) (is, s)
       else Inl (ParseError kParseErrorArrayMissCommaOrSquareBracket (tell is))))"

definition fuel_for :: "istream \<Rightarrow> nat" where
  "fuel_for is = 2 * length (src is) + 2"

definition RecursiveParse :: "parse_flags \<Rightarrow> 'h handler \<Rightarrow> istream \<Rightarrow> 'h \<Rightarrow> (istream \<times> 'h) parse" where
  "RecursiveParse pf h is s =
     pbind (skip pf (is, s)) (\<lambda>st.
       if Peek (fst st) = CHR 0x00 then Inl (ParseError kParseErrorDocumentEmpty (tell (fst st)))
       else pbind (ParseValue (fuel_for (fst st)) pf h st) (\<lambda>st.
              if kParseStopWhenDoneFlag \<in> set pf then Inr st
              else pbind (skip pf st) (\<lambda>st.
                     if Peek (fst st) \<noteq> CHR 0x00
                     then Inl (ParseError kParseErrorDocumentRootNotSingular (tell (fst st)))
                     else Inr st)))"

section \<open>Consumption\<close>

lemma comments_le: "comments is = Inr is' \<Longrightarrow> length (src is') \<le> length (src is)"
proof (induction "is" rule: comments.induct)
  case (1 "is")
  show ?case
  proof (cases "Consume is (CHR ''/'')")
    case None
    with "1.prems" show ?thesis by (subst (asm) comments.simps) simp
  next
    case (Some is1)
    note le = Consume_le [OF Some]
    show ?thesis
    proof (cases "Consume is1 (CHR ''*'')")
      case star: (Some is2)
      then obtain is3 where b: "block_comment is2 = Inr is3" and c: "comments (SkipWhitespace is3) = Inr is'"
        using "1.prems" Some by (subst (asm) comments.simps) (auto split: sum.splits)
      from "1.IH"(2) [OF Some star b c] le Consume_le [OF star] block_comment_le [OF b] SkipWhitespace_le [of is3]
      show ?thesis by simp
    next
      case None
      then obtain is2 where l: "Consume is1 (CHR ''/'') = Some is2"
          and c: "comments (SkipWhitespace (line_comment is2)) = Inr is'"
        using "1.prems" Some by (subst (asm) comments.simps) (auto split: option.splits)
      from "1.IH"(1) [OF Some None l c] le Consume_le [OF l] line_comment_le [of is2]
        SkipWhitespace_le [of "line_comment is2"]
      show ?thesis by simp
    qed
  qed
qed

lemma skip_le: "skip pf (is, s) = Inr (is', s') \<Longrightarrow> s' = s \<and> length (src is') \<le> length (src is)"
  using SkipWhitespace_le [of "is"] comments_le [of "SkipWhitespace is"]
  by (auto simp: skip_def SkipWhitespaceAndComments_def pbind_Inr_iff split: if_splits dest: order_trans)

lemma Consume_all_le: "Consume_all is cs = (ok, is') \<Longrightarrow> length (src is') \<le> length (src is)"
proof (induction cs arbitrary: "is")
  case (Cons c cs)
  then show ?case by (auto split: option.splits dest!: Consume_le dest: order_trans)
qed simp

lemma parse_literal_shrinks:
  "parse_literal h lit ev (is, s) = Inr (is', s') \<Longrightarrow> hd lit \<noteq> CHR 0x00 \<Longrightarrow> length (src is') < length (src is)"
  using Take_shrinks [of "is"]
  by (auto simp: parse_literal_def pbind_Inr_iff split: if_splits prod.splits bool.splits dest!: Consume_all_le)

lemma open_bracket_shrinks:
  "open_bracket pf h c ev (is, s) = Inr (is', s') \<Longrightarrow> c \<noteq> CHR 0x00 \<Longrightarrow> length (src is') < length (src is)"
  using Take_shrinks [of "is"]
  by (auto simp: open_bracket_def Let_def pbind_Inr_iff split: if_splits dest!: skip_le)

lemma close_bracket_shrinks:
  "close_bracket h ev (is, s) = Inr (is', s') \<Longrightarrow> Peek is \<noteq> CHR 0x00 \<Longrightarrow> length (src is') < length (src is)"
  "close_trailing h ev (is, s) = Inr (is', s') \<Longrightarrow> Peek is \<noteq> CHR 0x00 \<Longrightarrow> length (src is') < length (src is)"
  using Take_shrinks [of "is"]
  by (auto simp: close_bracket_def close_trailing_def Let_def pbind_Inr_iff)

lemma parse_name_shrinks:
  assumes "parse_name pf h (is, s) = Inr (is', s')"
  shows "length (src is') < length (src is)"
proof -
  obtain is1 s1 where 1: "ParseString pf h True (is, s) = Inr (is1, s1)"
    using assms by (auto simp: parse_name_def pbind_Inr_iff split: if_splits)
  obtain is2 s2 where 2: "skip pf (is1, s1) = Inr (is2, s2)"
    using assms 1 by (auto simp: parse_name_def pbind_Inr_iff split: if_splits)
  obtain is3 where 3: "Consume is2 (CHR '':'') = Some is3" "skip pf (is3, s2) = Inr (is', s')"
    using assms 1 2 by (auto simp: parse_name_def split: if_splits option.splits)
  from ParseString_shrinks [OF 1] skip_le [OF 2] Consume_le [OF 3(1)] skip_le [OF 3(2)] show ?thesis by simp
qed

text \<open>The length of the rest of the input.\<close>

abbreviation left :: "istream \<times> 'h \<Rightarrow> nat" where
  "left st \<equiv> length (src (fst st))"

lemma literals_shrink:
  "ParseNull h st = Inr st' \<Longrightarrow> left st' < left st"
  "ParseTrue h st = Inr st' \<Longrightarrow> left st' < left st"
  "ParseFalse h st = Inr st' \<Longrightarrow> left st' < left st"
  by (cases st; cases st'; auto simp: ParseNull_def ParseTrue_def ParseFalse_def dest!: parse_literal_shrinks)+

lemma parts_shrink:
  "ParseString pf h k st = Inr st' \<Longrightarrow> left st' < left st"
  "ParseNumber pf h st = Inr st' \<Longrightarrow> left st' < left st"
  "parse_name pf h st = Inr st' \<Longrightarrow> left st' < left st"
  "skip pf st = Inr st' \<Longrightarrow> left st' \<le> left st"
  by (cases st; cases st'; auto dest: ParseString_shrinks ParseNumber_shrinks parse_name_shrinks skip_le)+

lemma brackets_shrink:
  "open_bracket pf h c ev st = Inr st' \<Longrightarrow> c \<noteq> CHR 0x00 \<Longrightarrow> left st' < left st"
  "close_bracket h ev st = Inr st' \<Longrightarrow> Peek (fst st) \<noteq> CHR 0x00 \<Longrightarrow> left st' < left st"
  "close_trailing h ev st = Inr st' \<Longrightarrow> Peek (fst st) \<noteq> CHR 0x00 \<Longrightarrow> left st' < left st"
  by (cases st; cases st'; auto dest: open_bracket_shrinks close_bracket_shrinks)+

lemma comma_shrinks: "skip pf (Take is, s) = Inr st' \<Longrightarrow> left st' \<le> length (src is)"
  using parts_shrink(4) [of pf "(Take is, s)" st'] Take_le [of "is"] by simp

lemma values_shrink:
  "ParseValue n pf h st = Inr st' \<Longrightarrow> left st' < left st"
  "object_loop n pf h m st = Inr st' \<Longrightarrow> left st' < left st"
  "array_loop n pf h m st = Inr st' \<Longrightarrow> left st' < left st"
proof (induction n arbitrary: m st st')
  case (Suc n)
  {
    case 1
    then show ?case
      by (auto simp: Let_def pbind_Inr_iff split: if_splits simp del: split_paired_Ex
          dest!: literals_shrink parts_shrink brackets_shrink Suc.IH)
  next
    case 2
    obtain st1 where 1: "parse_name pf h st = Inr st1"
      using 2 by (auto simp: pbind_Inr_iff)
    obtain st2 where v: "ParseValue n pf h st1 = Inr st2"
      using 2 1 by (auto simp: pbind_Inr_iff)
    obtain is3 s3 where w: "skip pf st2 = Inr (is3, s3)"
      using 2 1 v by (auto simp: pbind_Inr_iff)
    have "left st' \<le> length (src is3)"
      using 2 1 v w by (auto simp: Let_def pbind_Inr_iff split: if_splits simp del: split_paired_Ex
          dest!: comma_shrinks brackets_shrink Suc.IH)
    with parts_shrink(3) [OF 1] Suc.IH(1) [OF v] parts_shrink(4) [OF w] show ?case by simp
  next
    case 3
    obtain st2 where v: "ParseValue n pf h st = Inr st2"
      using 3 by (auto simp: pbind_Inr_iff)
    obtain is3 s3 where w: "skip pf st2 = Inr (is3, s3)"
      using 3 v by (auto simp: pbind_Inr_iff)
    have "left st' \<le> length (src is3)"
      using 3 v w by (auto simp: Let_def pbind_Inr_iff split: if_splits simp del: split_paired_Ex
          dest!: comma_shrinks brackets_shrink Suc.IH)
    with Suc.IH(1) [OF v] parts_shrink(4) [OF w] show ?case by simp
  }
qed simp_all

section \<open>Freedom from faults\<close>

text \<open>
  Results without a fault, with a property of the value. Parse errors are allowed.
\<close>

definition good :: "('a \<Rightarrow> bool) \<Rightarrow> 'a parse \<Rightarrow> bool" where
  "good P r = (case r of Inr x \<Rightarrow> P x | Inl (ParseError _ _) \<Rightarrow> True | Inl (Fault _) \<Rightarrow> False)"

lemma good_simps [simp]:
  "good P (Inr x) = P x" "good P (Inl (ParseError c n))" "\<not> good P (Inl (Fault f))"
  by (simp_all add: good_def)

lemma good_pbind: "good Q r \<Longrightarrow> (\<And>x. r = Inr x \<Longrightarrow> Q x \<Longrightarrow> good P (f x)) \<Longrightarrow> good P (pbind r f)"
  by (auto simp: good_def split: sum.splits parse_fail.splits)

lemma good_mono: "good P r \<Longrightarrow> (\<And>x. r = Inr x \<Longrightarrow> P x \<Longrightarrow> Q x) \<Longrightarrow> good Q r"
  by (auto simp: good_def split: sum.splits parse_fail.splits)

lemma good_block_comment: "good (\<lambda>_. True) (block_comment is)"
proof (induction "is" rule: block_comment.induct)
  case (1 "is")
  then show ?case by (subst block_comment.simps) (auto split: option.splits)
qed

lemma good_comments: "good (\<lambda>_. True) (comments is)"
proof (induction "is" rule: comments.induct)
  case (1 "is")
  then show ?case
    by (subst comments.simps, unfold pbind_def [symmetric])
       (auto split: option.splits intro!: good_pbind [OF good_block_comment])
qed

lemma good_skip: "good (\<lambda>st'. snd st' = snd st \<and> left st' \<le> left st) (skip pf st)"
proof -
  have "good (\<lambda>_. True) (SkipWhitespaceAndComments pf (fst st))"
    by (simp add: SkipWhitespaceAndComments_def good_comments)
  then have "good (\<lambda>_. True) (skip pf st)"
    unfolding skip_def by (cases st) (auto intro: good_pbind)
  then show ?thesis
    by (rule good_mono) (cases st; auto dest: skip_le)
qed

lemma good_comma: "good (\<lambda>st'. snd st' = s \<and> left st' \<le> length (src is)) (skip pf (Take is, s))"
  by (rule good_mono [OF good_skip]) (use Take_le [of "is"] in auto)

lemma good_hex4_loop: "good (\<lambda>_. True) (hex4_loop n off cp is)"
  by (induction n arbitrary: cp "is") (auto split: option.splits)

lemma good_ParseHex4: "good (\<lambda>_. True) (ParseHex4 is off)"
  by (simp add: ParseHex4_def good_hex4_loop)

lemma good_ParseUnicode: "good (\<lambda>_. True) (ParseUnicode is off)"
  unfolding ParseUnicode_def
  by (auto intro!: good_pbind [OF good_ParseHex4] split: option.splits)

lemma good_ParseEscape: "good (\<lambda>_. True) (ParseEscape pf is)"
  unfolding ParseEscape_def Let_def
  by (auto intro!: good_pbind [OF good_ParseUnicode])

lemma good_ParseStringToStream: "good (\<lambda>_. True) (ParseStringToStream pf is out)"
proof (induction pf "is" out rule: ParseStringToStream.induct)
  case (1 pf "is" out)
  show ?case
  proof (cases "Peek is = CHR 0x5C")
    case True
    then show ?thesis
      using 1(1) by (subst ParseStringToStream.simps, unfold pbind_def [symmetric])
        (auto simp: Let_def intro!: good_pbind [OF good_ParseEscape])
  next
    case False
    then show ?thesis
      using 1(2,3) by (subst ParseStringToStream.simps) (auto simp: Let_def split: prod.splits)
  qed
qed

lemma good_exp_plus_loop: "good (\<lambda>_. True) (exp_plus_loop pf so mx e s)"
proof (induction pf so mx e s rule: exp_plus_loop.induct)
  case (1 pf so mx e s)
  then show ?case by (subst exp_plus_loop.simps) (auto simp: Let_def)
qed

lemma good_parse_nan_inf: "good (\<lambda>_. True) (parse_nan_inf pf m s)"
  by (auto simp: parse_nan_inf_def Let_def split: option.splits prod.splits bool.splits)

lemma good_parse_int: "good (\<lambda>_. True) (parse_int pf m s)"
  by (auto simp: parse_int_def good_parse_nan_inf split: prod.splits)

lemma good_parse_frac: "good (\<lambda>_. True) (parse_frac pf m s)"
  by (auto simp: parse_frac_def Let_def split: option.splits prod.splits)

lemma good_parse_exp: "expFrac m \<le> 0 \<Longrightarrow> good (\<lambda>_. True) (parse_exp pf so m s)"
  unfolding parse_exp_def
  by (auto simp: Let_def split: option.splits prod.splits intro!: good_pbind [OF good_exp_plus_loop])

lemma good_ScanNumber: "good (\<lambda>(m, s). num_exp m + expFrac m \<le> 308) (ScanNumber pf is)"
proof -
  obtain m0 s0 where 0: "parse_minus pf \<lparr>ns_is = is, pushed = []\<rparr> = (m0, s0)" by fastforce
  then have "expFrac m0 = 0"
    by (auto simp: parse_minus_def num_init_def split: option.splits)
  then have "good (\<lambda>_. True) (ScanNumber pf is)"
    unfolding ScanNumber_def 0
    by (auto simp: Let_def split: prod.splits intro!: good_pbind [OF good_parse_int] good_pbind [OF good_parse_frac]
        good_parse_exp dest!: parse_int_shrinks parse_int64_le parse_big_le parse_frac_le)
  then show ?thesis
    by (rule good_mono) (auto dest: ScanNumber_shrinks)
qed

lemma StrtodNormalPrecision_returns: "p \<le> 308 \<Longrightarrow> \<exists>d'. StrtodNormalPrecision d p = Inr d'"
  by (auto simp: StrtodNormalPrecision_def FastPath_def Pow10_def)

fun is_end :: "event \<Rightarrow> bool" where
  "is_end (EEndObject _) = True"
| "is_end (EEndArray _) = True"
| "is_end _ = False"

fun is_key :: "event \<Rightarrow> bool" where
  "is_key (EKey _) = True"
| "is_key _ = False"

lemma good_number_token:
  assumes "num_exp m + expFrac m \<le> 308" and "kParseFullPrecisionFlag \<notin> set pf"
  shows "good (\<lambda>ev. \<not> is_end ev \<and> \<not> is_key ev) (number_token pf so m s)"
proof -
  obtain d where "StrtodNormalPrecision (num_d m) (num_exp m + expFrac m) = Inr d"
    using StrtodNormalPrecision_returns [OF assms(1)] by blast
  with assms(2) show ?thesis by (simp add: number_token_def of_result_def)
qed

section \<open>The contract between reader and handler\<close>

text \<open>
  What a handler promises: it holds a stack of values and member names. Every event but the end of an
  object or array pushes one, a name for a key; an end event with a count replaces that many members or
  elements by the container below them, as long as they are there. The reader keeps its side, it
  never asks for more: so it neither faults nor runs out of fuel, and one value more is held after a value
  was parsed. The stack is described by its tags, \<^const>\<open>True\<close> for a name.
\<close>

definition member_tags :: "nat \<Rightarrow> bool list" where
  "member_tags m = concat (replicate m [False, True])"

lemma member_tags_simps [simp]:
  "member_tags 0 = []" "member_tags (Suc m) = False # True # member_tags m"
  by (simp_all add: member_tags_def)

locale handler_contract =
  fixes h :: "'h handler" and holds :: "bool list \<Rightarrow> 'h \<Rightarrow> bool"
  assumes event_ok: "holds ts s \<Longrightarrow> \<not> is_end e \<Longrightarrow> \<exists>s'. h e s = Inr (True, s') \<and> holds (is_key e # ts) s'"
    and end_object: "holds (member_tags m @ False # ts) s \<Longrightarrow>
          \<exists>s'. h (EEndObject m) s = Inr (True, s') \<and> holds (False # ts) s'"
    and end_array: "holds (replicate m False @ False # ts) s \<Longrightarrow>
          \<exists>s'. h (EEndArray m) s = Inr (True, s') \<and> holds (False # ts) s'"
begin

lemma good_event: "holds ts s \<Longrightarrow> \<not> is_end e \<Longrightarrow> good (holds (is_key e # ts)) (notify h e off s)"
  using event_ok [of ts s e] by (auto simp: notify_def of_result_def)

lemma good_value_event: "holds ts s \<Longrightarrow> \<not> is_end e \<and> \<not> is_key e \<Longrightarrow> good (holds (False # ts)) (notify h e off s)"
  using good_event [of ts s e] by simp

lemma good_end_object: "holds (member_tags m @ False # ts) s \<Longrightarrow> good (holds (False # ts)) (notify h (EEndObject m) off s)"
  using end_object [of m ts s] by (auto simp: notify_def of_result_def)

lemma good_end_array: "holds (replicate m False @ False # ts) s \<Longrightarrow> good (holds (False # ts)) (notify h (EEndArray m) off s)"
  using end_array [of m ts s] by (auto simp: notify_def of_result_def)

abbreviation held :: "bool list \<Rightarrow> istream \<times> 'h \<Rightarrow> bool" where
  "held ts st \<equiv> holds ts (snd st)"

lemma good_literal:
  assumes "held ts st" "Peek (fst st) = hd lit" "\<not> is_end ev \<and> \<not> is_key ev"
  shows "good (held (False # ts)) (parse_literal h lit ev st)"
  using assms by (cases st)
    (auto simp: parse_literal_def split: prod.splits bool.splits intro!: good_pbind [OF good_value_event])

lemma good_string:
  assumes "held ts st" "Peek (fst st) = CHR 0x22"
  shows "good (held (b # ts)) (ParseString pf h b st)"
  using assms good_event [of ts _ "EKey _"] good_event [of ts _ "EString _"] by (cases st; cases b)
    (auto simp: ParseString_def intro!: good_pbind [OF good_ParseStringToStream] good_pbind)

lemma good_number:
  assumes "held ts st" "kParseFullPrecisionFlag \<notin> set pf"
  shows "good (held (False # ts)) (ParseNumber pf h st)"
  using assms by (cases st)
    (auto simp: ParseNumber_def intro!: good_pbind [OF good_ScanNumber] good_pbind [OF good_number_token]
      good_pbind [OF good_value_event])

lemma good_open:
  assumes "held ts st" "Peek (fst st) = c" "\<not> is_end ev \<and> \<not> is_key ev" "c \<noteq> CHR 0x00"
  shows "good (\<lambda>st'. held (False # ts) st' \<and> left st' < left st) (open_bracket pf h c ev st)"
proof -
  have "good (held (False # ts)) (open_bracket pf h c ev st)"
    using assms by (cases st)
      (auto simp: open_bracket_def Let_def intro!: good_pbind [OF good_value_event] good_mono [OF good_skip])
  then show ?thesis
    by (rule good_mono) (use assms(4) in \<open>auto dest: brackets_shrink\<close>)
qed

lemma good_close:
  "held (member_tags m @ False # ts) st \<Longrightarrow> good (held (False # ts)) (close_bracket h (EEndObject m) st)"
  "held (replicate m False @ False # ts) st \<Longrightarrow> good (held (False # ts)) (close_bracket h (EEndArray m) st)"
  "held (member_tags m @ False # ts) st \<Longrightarrow> good (held (False # ts)) (close_trailing h (EEndObject m) st)"
  "held (replicate m False @ False # ts) st \<Longrightarrow> good (held (False # ts)) (close_trailing h (EEndArray m) st)"
  by (cases st; auto simp: close_bracket_def close_trailing_def Let_def
      intro!: good_pbind [OF good_end_object] good_pbind [OF good_end_array])+

lemma good_name:
  assumes "held ts st"
  shows "good (\<lambda>st'. held (True # ts) st' \<and> left st' < left st) (parse_name pf h st)"
proof -
  have "good (held (True # ts)) (parse_name pf h st)"
    using assms unfolding parse_name_def
    by (auto intro!: good_pbind [OF good_string] good_pbind [OF good_skip] good_mono [OF good_skip]
        split: option.splits)
  then show ?thesis
    by (rule good_mono) (auto dest: parts_shrink)
qed

lemma good_value_step:
  assumes pf: "kParseFullPrecisionFlag \<notin> set pf"
    and object: "\<And>st. held (False # ts) st \<Longrightarrow> 2 * left st < n \<Longrightarrow> good (held (False # ts)) (object_loop n pf h 0 st)"
    and array: "\<And>st. held (False # ts) st \<Longrightarrow> 2 * left st + 1 < n \<Longrightarrow> good (held (False # ts)) (array_loop n pf h 0 st)"
    and st: "held ts st" "2 * left st < Suc n"
  shows "good (held (False # ts)) (ParseValue (Suc n) pf h st)"
  using assms unfolding ParseValue.simps Let_def ParseNull_def ParseTrue_def ParseFalse_def
  by (auto intro!: good_literal good_string good_number good_pbind [OF good_open] object array
      good_close(1) [where m = 0, simplified] good_close(2) [where m = 0, simplified])

lemma good_values:
  assumes pf: "kParseFullPrecisionFlag \<notin> set pf"
  shows "held ts st \<Longrightarrow> 2 * left st < n \<Longrightarrow> good (held (False # ts)) (ParseValue n pf h st)"
    and "held (member_tags m @ False # ts) st \<Longrightarrow> 2 * left st < n \<Longrightarrow> good (held (False # ts)) (object_loop n pf h m st)"
    and "held (replicate m False @ False # ts) st \<Longrightarrow> 2 * left st + 1 < n \<Longrightarrow> good (held (False # ts)) (array_loop n pf h m st)"
proof (induction n arbitrary: ts m st)
  case (Suc n)
  {
    case 1
    then show ?case
      using Suc.IH(2) [of 0 ts] Suc.IH(3) [of 0 ts] by (intro good_value_step [OF pf]) auto
  next
    case 2
    let ?ts = "member_tags m @ False # ts"
    have val: "held (True # ?ts) st1 \<Longrightarrow> left st1 < left st \<Longrightarrow>
        good (\<lambda>st2. held (False # True # ?ts) st2 \<and> left st2 < left st) (ParseValue n pf h st1)" for st1
      using Suc.IH(1) [of "True # ?ts" st1] 2(2) values_shrink(1) [of n pf h st1]
      by (auto elim!: good_mono)
    have loop: "held (False # True # ?ts) st1 \<Longrightarrow> left st1 < left st \<Longrightarrow>
        good (held (False # ts)) (object_loop n pf h (Suc m) st1)" for st1
      using Suc.IH(2) [of "m + 1" ts st1] 2(2) by simp
    show ?case
      using 2
      by (auto simp: Let_def intro!: good_pbind [OF good_name] good_pbind [OF val] good_pbind [OF good_skip]
          good_pbind [OF good_comma] loop good_close(1,3) [where m = "m + 1", simplified])
  next
    case 3
    let ?ts = "replicate m False @ False # ts"
    have val: "good (\<lambda>st2. held (False # ?ts) st2 \<and> left st2 < left st) (ParseValue n pf h st)"
      using Suc.IH(1) [of ?ts st] 3 values_shrink(1) [of n pf h st]
      by (auto elim!: good_mono)
    have loop: "held (False # ?ts) st1 \<Longrightarrow> left st1 < left st \<Longrightarrow>
        good (held (False # ts)) (array_loop n pf h (Suc m) st1)" for st1
      using Suc.IH(3) [of "m + 1" ts st1] 3(2) by simp
    show ?case
      using 3
      by (auto simp: Let_def intro!: good_pbind [OF val] good_pbind [OF good_skip] good_pbind [OF good_comma]
          loop good_close(2,4) [where m = "m + 1", simplified])
  }
qed simp_all

lemma good_parse:
  assumes "kParseFullPrecisionFlag \<notin> set pf" and "holds [] s"
  shows "good (held [False]) (RecursiveParse pf h is s)"
proof -
  have val: "holds [] s' \<Longrightarrow> good (held [False]) (ParseValue (fuel_for is') pf h (is', s'))" for is' s'
    by (rule good_values(1) [OF assms(1)]) (simp_all add: fuel_for_def)
  show ?thesis
    using assms(2) unfolding RecursiveParse_def
    by (auto intro!: good_pbind [OF good_skip] good_pbind [OF val])
qed

end

end
