(* ===== verification/Json_Iterative.thy ===== *)
theory Json_Iterative
  imports Json_Parser
begin

text \<open>
  The iterative RapidJSON reader (rapidjson/reader.h, \<^verbatim>\<open>Tokenize\<close> to \<^verbatim>\<open>IterativeParse\<close>, and \<^verbatim>\<open>IterativeParseNext\<close>): a
  table-driven automaton with an explicit stack of states and counts. The theory shows
  that it accepts the same texts with the same events as the recursive reader, and reports the same errors.
\<close>

section \<open>States and tokens\<close>

datatype IterativeParsingState =
    IterativeParsingFinishState
  | IterativeParsingErrorState
  | IterativeParsingStartState
  | IterativeParsingObjectInitialState
  | IterativeParsingMemberKeyState
  | IterativeParsingMemberValueState
  | IterativeParsingObjectFinishState
  | IterativeParsingArrayInitialState
  | IterativeParsingElementState
  | IterativeParsingArrayFinishState
  | IterativeParsingValueState
  | IterativeParsingElementDelimiterState
  | IterativeParsingMemberDelimiterState
  | IterativeParsingKeyValueDelimiterState

datatype Token =
    LeftBracketToken
  | RightBracketToken
  | LeftCurlyBracketToken
  | RightCurlyBracketToken
  | CommaToken
  | ColonToken
  | StringToken
  | FalseToken
  | TrueToken
  | NullToken
  | NumberToken

definition tokenMap :: "Token list" where
  "tokenMap =
     (let N = NumberToken; N16 = replicate 16 NumberToken
      in N16 @ N16 @
         [N, N, StringToken, N, N, N, N, N, N, N, N, N, CommaToken, N, N, N] @
         [N, N, N, N, N, N, N, N, N, N, ColonToken, N, N, N, N, N] @
         N16 @
         [N, N, N, N, N, N, N, N, N, N, N, LeftBracketToken, N, RightBracketToken, N, N] @
         [N, N, N, N, N, N, FalseToken, N, N, N, N, N, N, N, NullToken, N] @
         [N, N, N, N, TrueToken, N, N, N, N, N, N, LeftCurlyBracketToken, N, RightCurlyBracketToken, N, N] @
         N16 @ N16 @ N16 @ N16 @ N16 @ N16 @ N16 @ N16)"

definition Tokenize :: "char \<Rightarrow> Token" where
  "Tokenize c = tokenMap ! of_char c"

text \<open>The table \<^verbatim>\<open>G\<close>: current state and look-ahead token give the candidate state.\<close>

fun token_index :: "Token \<Rightarrow> nat" where
  "token_index LeftBracketToken = 0"
| "token_index RightBracketToken = 1"
| "token_index LeftCurlyBracketToken = 2"
| "token_index RightCurlyBracketToken = 3"
| "token_index CommaToken = 4"
| "token_index ColonToken = 5"
| "token_index StringToken = 6"
| "token_index FalseToken = 7"
| "token_index TrueToken = 8"
| "token_index NullToken = 9"
| "token_index NumberToken = 10"

fun G_table :: "IterativeParsingState \<Rightarrow> IterativeParsingState list" where
  "G_table IterativeParsingFinishState = replicate 11 IterativeParsingErrorState"
| "G_table IterativeParsingErrorState = replicate 11 IterativeParsingErrorState"
| "G_table IterativeParsingStartState =
     [IterativeParsingArrayInitialState,
      IterativeParsingErrorState,
      IterativeParsingObjectInitialState,
      IterativeParsingErrorState,
      IterativeParsingErrorState,
      IterativeParsingErrorState,
      IterativeParsingValueState,
      IterativeParsingValueState,
      IterativeParsingValueState,
      IterativeParsingValueState,
      IterativeParsingValueState]"
| "G_table IterativeParsingObjectInitialState =
     [IterativeParsingErrorState,
      IterativeParsingErrorState,
      IterativeParsingErrorState,
      IterativeParsingObjectFinishState,
      IterativeParsingErrorState,
      IterativeParsingErrorState,
      IterativeParsingMemberKeyState,
      IterativeParsingErrorState,
      IterativeParsingErrorState,
      IterativeParsingErrorState,
      IterativeParsingErrorState]"
| "G_table IterativeParsingMemberKeyState =
     [IterativeParsingErrorState,
      IterativeParsingErrorState,
      IterativeParsingErrorState,
      IterativeParsingErrorState,
      IterativeParsingErrorState,
      IterativeParsingKeyValueDelimiterState,
      IterativeParsingErrorState,
      IterativeParsingErrorState,
      IterativeParsingErrorState,
      IterativeParsingErrorState,
      IterativeParsingErrorState]"
| "G_table IterativeParsingMemberValueState =
     [IterativeParsingErrorState,
      IterativeParsingErrorState,
      IterativeParsingErrorState,
      IterativeParsingObjectFinishState,
      IterativeParsingMemberDelimiterState,
      IterativeParsingErrorState,
      IterativeParsingErrorState,
      IterativeParsingErrorState,
      IterativeParsingErrorState,
      IterativeParsingErrorState,
      IterativeParsingErrorState]"
| "G_table IterativeParsingObjectFinishState = replicate 11 IterativeParsingErrorState"
| "G_table IterativeParsingArrayInitialState =
     [IterativeParsingArrayInitialState,
      IterativeParsingArrayFinishState,
      IterativeParsingObjectInitialState,
      IterativeParsingErrorState,
      IterativeParsingErrorState,
      IterativeParsingErrorState,
      IterativeParsingElementState,
      IterativeParsingElementState,
      IterativeParsingElementState,
      IterativeParsingElementState,
      IterativeParsingElementState]"
| "G_table IterativeParsingElementState =
     [IterativeParsingErrorState,
      IterativeParsingArrayFinishState,
      IterativeParsingErrorState,
      IterativeParsingErrorState,
      IterativeParsingElementDelimiterState,
      IterativeParsingErrorState,
      IterativeParsingErrorState,
      IterativeParsingErrorState,
      IterativeParsingErrorState,
      IterativeParsingErrorState,
      IterativeParsingErrorState]"
| "G_table IterativeParsingArrayFinishState = replicate 11 IterativeParsingErrorState"
| "G_table IterativeParsingValueState = replicate 11 IterativeParsingErrorState"
| "G_table IterativeParsingElementDelimiterState =
     [IterativeParsingArrayInitialState,
      IterativeParsingArrayFinishState,
      IterativeParsingObjectInitialState,
      IterativeParsingErrorState,
      IterativeParsingErrorState,
      IterativeParsingErrorState,
      IterativeParsingElementState,
      IterativeParsingElementState,
      IterativeParsingElementState,
      IterativeParsingElementState,
      IterativeParsingElementState]"
| "G_table IterativeParsingMemberDelimiterState =
     [IterativeParsingErrorState,
      IterativeParsingErrorState,
      IterativeParsingErrorState,
      IterativeParsingObjectFinishState,
      IterativeParsingErrorState,
      IterativeParsingErrorState,
      IterativeParsingMemberKeyState,
      IterativeParsingErrorState,
      IterativeParsingErrorState,
      IterativeParsingErrorState,
      IterativeParsingErrorState]"
| "G_table IterativeParsingKeyValueDelimiterState =
     [IterativeParsingArrayInitialState,
      IterativeParsingErrorState,
      IterativeParsingObjectInitialState,
      IterativeParsingErrorState,
      IterativeParsingErrorState,
      IterativeParsingErrorState,
      IterativeParsingMemberValueState,
      IterativeParsingMemberValueState,
      IterativeParsingMemberValueState,
      IterativeParsingMemberValueState,
      IterativeParsingMemberValueState]"

definition Predict :: "IterativeParsingState \<Rightarrow> Token \<Rightarrow> IterativeParsingState" where
  "Predict state token = G_table state ! token_index token"

section \<open>Transitions\<close>

text \<open>
  A frame of the stack is the state to return to and the number of members or elements so far; the
  source pushes and pops the two cells together. The configuration is the input, the handler
  and the stack.
\<close>

type_synonym frames = "(IterativeParsingState \<times> nat) list"

definition push_state :: "IterativeParsingState \<Rightarrow> IterativeParsingState" where
  "push_state cur =
     (if cur = IterativeParsingArrayInitialState \<or> cur = IterativeParsingElementDelimiterState
      then IterativeParsingElementState
      else if cur = IterativeParsingKeyValueDelimiterState then IterativeParsingMemberValueState
      else cur)"

definition pop_state :: "IterativeParsingState \<Rightarrow> IterativeParsingState" where
  "pop_state n = (if n = IterativeParsingStartState then IterativeParsingFinishState else n)"

definition transit_scalar ::
  "parse_flags \<Rightarrow> 'h handler \<Rightarrow> IterativeParsingState \<Rightarrow> frames \<Rightarrow> istream \<times> 'h
     \<Rightarrow> (IterativeParsingState \<times> frames \<times> istream \<times> 'h) parse" where
  "transit_scalar pf h dst stk st =
     pbind (ParseValue (fuel_for (fst st)) pf h st) (\<lambda>st. Inr (dst, stk, st))"

definition transit_finish ::
  "'h handler \<Rightarrow> IterativeParsingState \<Rightarrow> IterativeParsingState \<Rightarrow> (nat \<Rightarrow> event) \<Rightarrow> frames \<Rightarrow> istream \<times> 'h
     \<Rightarrow> (IterativeParsingState \<times> frames \<times> istream \<times> 'h) parse" where
  "transit_finish h cur counted ev stk st =
     (case (stk, st) of
        ([], _) \<Rightarrow> Inl (Fault AssertionFailed)
      | ((n, c) # stk', (is, s)) \<Rightarrow>
          pbind (notify h (ev (if cur = counted then c + 1 else c)) (tell is) s) (\<lambda>s.
            Inr (pop_state n, stk', Take is, s)))"

fun Transit ::
  "parse_flags \<Rightarrow> 'h handler \<Rightarrow> IterativeParsingState \<Rightarrow> Token \<Rightarrow> IterativeParsingState \<Rightarrow> frames \<Rightarrow> istream \<times> 'h
     \<Rightarrow> (IterativeParsingState \<times> frames \<times> istream \<times> 'h) parse" where
  "Transit pf h cur token IterativeParsingErrorState stk st = Inr (IterativeParsingErrorState, stk, st)"
| "Transit pf h cur token IterativeParsingObjectInitialState stk (is, s) =
     pbind (notify h EStartObject (tell is) s) (\<lambda>s.
       Inr (IterativeParsingObjectInitialState, (push_state cur, 0) # stk, Take is, s))"
| "Transit pf h cur token IterativeParsingArrayInitialState stk (is, s) =
     pbind (notify h EStartArray (tell is) s) (\<lambda>s.
       Inr (IterativeParsingArrayInitialState, (push_state cur, 0) # stk, Take is, s))"
| "Transit pf h cur token IterativeParsingMemberKeyState stk st =
     pbind (ParseString pf h True st) (\<lambda>st. Inr (IterativeParsingMemberKeyState, stk, st))"
| "Transit pf h cur token IterativeParsingKeyValueDelimiterState stk (is, s) =
     (if token \<noteq> ColonToken then Inl (Fault AssertionFailed)
      else Inr (IterativeParsingKeyValueDelimiterState, stk, Take is, s))"
| "Transit pf h cur token IterativeParsingMemberValueState stk st =
     transit_scalar pf h IterativeParsingMemberValueState stk st"
| "Transit pf h cur token IterativeParsingElementState stk st =
     transit_scalar pf h IterativeParsingElementState stk st"
| "Transit pf h cur token IterativeParsingMemberDelimiterState stk (is, s) =
     (case stk of
        [] \<Rightarrow> Inl (Fault AssertionFailed)
      | (n, c) # stk' \<Rightarrow> Inr (IterativeParsingMemberDelimiterState, (n, c + 1) # stk', Take is, s))"
| "Transit pf h cur token IterativeParsingElementDelimiterState stk (is, s) =
     (case stk of
        [] \<Rightarrow> Inl (Fault AssertionFailed)
      | (n, c) # stk' \<Rightarrow> Inr (IterativeParsingElementDelimiterState, (n, c + 1) # stk', Take is, s))"
| "Transit pf h cur token IterativeParsingObjectFinishState stk st =
     (if kParseTrailingCommasFlag \<notin> set pf \<and> cur = IterativeParsingMemberDelimiterState
      then Inl (ParseError kParseErrorObjectMissName (tell (fst st)))
      else transit_finish h cur IterativeParsingMemberValueState EEndObject stk st)"
| "Transit pf h cur token IterativeParsingArrayFinishState stk st =
     (if kParseTrailingCommasFlag \<notin> set pf \<and> cur = IterativeParsingElementDelimiterState
      then Inl (ParseError kParseErrorValueInvalid (tell (fst st)))
      else transit_finish h cur IterativeParsingElementState EEndArray stk st)"
| "Transit pf h cur token IterativeParsingValueState stk st =
     transit_scalar pf h IterativeParsingFinishState stk st"
| "Transit pf h cur token IterativeParsingStartState stk st = Inl (Fault AssertionFailed)"
| "Transit pf h cur token IterativeParsingFinishState stk st = Inl (Fault AssertionFailed)"

text \<open>The error for a state that cannot go on.\<close>

fun HandleError :: "IterativeParsingState \<Rightarrow> istream \<Rightarrow> parse_fail" where
  "HandleError IterativeParsingStartState is = ParseError kParseErrorDocumentEmpty (tell is)"
| "HandleError IterativeParsingFinishState is = ParseError kParseErrorDocumentRootNotSingular (tell is)"
| "HandleError IterativeParsingObjectInitialState is = ParseError kParseErrorObjectMissName (tell is)"
| "HandleError IterativeParsingMemberDelimiterState is = ParseError kParseErrorObjectMissName (tell is)"
| "HandleError IterativeParsingMemberKeyState is = ParseError kParseErrorObjectMissColon (tell is)"
| "HandleError IterativeParsingMemberValueState is = ParseError kParseErrorObjectMissCommaOrCurlyBracket (tell is)"
| "HandleError IterativeParsingKeyValueDelimiterState is = ParseError kParseErrorValueInvalid (tell is)"
| "HandleError IterativeParsingArrayInitialState is = ParseError kParseErrorValueInvalid (tell is)"
| "HandleError IterativeParsingElementDelimiterState is = ParseError kParseErrorValueInvalid (tell is)"
| "HandleError IterativeParsingElementState is = ParseError kParseErrorArrayMissCommaOrSquareBracket (tell is)"
| "HandleError _ is = Fault AssertionFailed"

definition IsIterativeParsingDelimiterState :: "IterativeParsingState \<Rightarrow> bool" where
  "IsIterativeParsingDelimiterState s \<longleftrightarrow>
     s \<in> {IterativeParsingElementDelimiterState, IterativeParsingMemberDelimiterState,
          IterativeParsingKeyValueDelimiterState}"

definition IsIterativeParsingCompleteState :: "IterativeParsingState \<Rightarrow> bool" where
  "IsIterativeParsingCompleteState s \<longleftrightarrow> s \<in> {IterativeParsingFinishState, IterativeParsingErrorState}"

lemma Transit_shrinks:
  assumes "Transit pf h cur token dst stk st = Inr (d, stk', st')" and "d \<noteq> IterativeParsingErrorState"
    and "Peek (fst st) \<noteq> CHR 0x00"
  shows "left st' < left st"
proof -
  have "length (src (Take (fst st))) < left st" using assms(3) by (rule Take_shrinks)
  with assms(1,2) show ?thesis
    by (cases st; cases dst)
       (auto simp: transit_scalar_def transit_finish_def pbind_Inr_iff split: if_splits list.splits
         dest: parts_shrink values_shrink simp del: split_paired_Ex)
qed

section \<open>The loops\<close>

function iterative_loop ::
  "parse_flags \<Rightarrow> 'h handler \<Rightarrow> IterativeParsingState \<Rightarrow> frames \<Rightarrow> istream \<times> 'h \<Rightarrow> (istream \<times> 'h) parse" where
  "iterative_loop pf h state stk st =
     (if Peek (fst st) \<noteq> CHR 0x00 then
        (let t = Tokenize (Peek (fst st)) in
         case Transit pf h state t (Predict state t) stk st of
           Inl e \<Rightarrow> Inl e
         | Inr (d, stk', st') \<Rightarrow>
             if d = IterativeParsingErrorState then Inl (HandleError state (fst st'))
             else if kParseStopWhenDoneFlag \<in> set pf \<and> d = IterativeParsingFinishState then Inr st'
             else case skip pf st' of Inl e \<Rightarrow> Inl e | Inr st'' \<Rightarrow> iterative_loop pf h d stk' st'')
      else if state \<noteq> IterativeParsingFinishState then Inl (HandleError state (fst st))
      else Inr st)"
  by auto
termination
proof (relation "measure (\<lambda>(pf, h, state, stk, st). left st)")
  fix pf :: parse_flags and h :: "'h handler" and state stk st t b d y stk' st' st''
  assume "Peek (fst st) \<noteq> CHR 0x00" "Transit pf h state t (Predict state t) stk st = Inr b"
    "(d, y) = b" "(stk', st') = y" "d \<noteq> IterativeParsingErrorState" "skip pf st' = Inr st''"
  then show "((pf, h, d, stk', st''), pf, h, state, stk, st) \<in> measure (\<lambda>(pf, h, state, stk, st). left st)"
    using Transit_shrinks [of pf h state t "Predict state t" stk st d stk' st'] parts_shrink(4) [of pf st' st'']
    by auto
qed simp

declare iterative_loop.simps [simp del]

definition IterativeParse :: "parse_flags \<Rightarrow> 'h handler \<Rightarrow> istream \<Rightarrow> 'h \<Rightarrow> (istream \<times> 'h) parse" where
  "IterativeParse pf h is s =
     pbind (skip pf (is, s)) (\<lambda>st. iterative_loop pf h IterativeParsingStartState [] st)"

definition Reader_Parse :: "parse_flags \<Rightarrow> 'h handler \<Rightarrow> istream \<Rightarrow> 'h \<Rightarrow> (istream \<times> 'h) parse" where
  "Reader_Parse pf h is s =
     (if kParseIterativeFlag \<in> set pf then IterativeParse pf h is s else RecursiveParse pf h is s)"

section \<open>The table of tokens\<close>

lemma tokenMap_eq:
  "\<forall>n \<in> set [0..<256]. tokenMap ! n =
     (if n = 0x22 then StringToken else if n = 0x2C then CommaToken else if n = 0x3A then ColonToken
      else if n = 0x5B then LeftBracketToken else if n = 0x5D then RightBracketToken
      else if n = 0x66 then FalseToken else if n = 0x6E then NullToken else if n = 0x74 then TrueToken
      else if n = 0x7B then LeftCurlyBracketToken else if n = 0x7D then RightCurlyBracketToken
      else NumberToken)"
  by code_simp

lemma char_eq_iff_code: "c = d \<longleftrightarrow> of_char c = (of_char d :: nat)"
  by simp

lemma Tokenize_eq:
  "Tokenize c =
     (if c = CHR 0x22 then StringToken else if c = CHR '','' then CommaToken else if c = CHR '':'' then ColonToken
      else if c = CHR ''['' then LeftBracketToken else if c = CHR '']'' then RightBracketToken
      else if c = CHR ''f'' then FalseToken else if c = CHR ''n'' then NullToken else if c = CHR ''t'' then TrueToken
      else if c = CHR ''{'' then LeftCurlyBracketToken else if c = CHR ''}'' then RightCurlyBracketToken
      else NumberToken)"
proof -
  have "of_char c \<in> set [0..<256]" unfolding set_upt by simp
  from bspec [OF tokenMap_eq this] show ?thesis
    unfolding Tokenize_def char_eq_iff_code by simp
qed

section \<open>Enough fuel is enough\<close>

lemma pbind_cong: "r = r' \<Longrightarrow> (\<And>x. r' = Inr x \<Longrightarrow> f x = g x) \<Longrightarrow> pbind r f = pbind r' g"
  by (cases r') simp_all

lemma pbind_assoc: "pbind (pbind r f) g = pbind r (\<lambda>x. pbind (f x) g)"
  by (cases r) simp_all

lemma enough_fuel:
  "2 * left st < n \<Longrightarrow> n \<le> n' \<Longrightarrow> ParseValue n' pf h st = ParseValue n pf h st"
  "2 * left st < n \<Longrightarrow> n \<le> n' \<Longrightarrow> object_loop n' pf h m st = object_loop n pf h m st"
  "2 * left st + 1 < n \<Longrightarrow> n \<le> n' \<Longrightarrow> array_loop n' pf h m st = array_loop n pf h m st"
proof (induction n arbitrary: n' m st)
  case (Suc n)
  {
    case 1
    then obtain k where k: "n' = Suc k" "n \<le> k" by (cases n') auto
    have "open_bracket pf h c ev st = Inr st1 \<Longrightarrow> c \<noteq> CHR 0x00 \<Longrightarrow>
        object_loop k pf h 0 st1 = object_loop n pf h 0 st1 \<and> array_loop k pf h 0 st1 = array_loop n pf h 0 st1"
      for c ev st1
      using 1 k Suc.IH(2,3) [of st1 k 0] by (auto dest!: brackets_shrink)
    then show ?case
      unfolding k ParseValue.simps Let_def by (auto intro!: pbind_cong)
  next
    case 2
    then obtain k where k: "n' = Suc k" "n \<le> k" by (cases n') auto
    have v: "parse_name pf h st = Inr st1 \<Longrightarrow> ParseValue k pf h st1 = ParseValue n pf h st1" for st1
      using 2 k Suc.IH(1) [of st1 k] by (auto dest!: parts_shrink(3))
    have "parse_name pf h st = Inr st1 \<Longrightarrow> ParseValue n pf h st1 = Inr st2 \<Longrightarrow> skip pf st2 = Inr (is3, s3) \<Longrightarrow>
        skip pf (Take is3, s3) = Inr st4 \<Longrightarrow>
        object_loop k pf h (Suc m) st4 = object_loop n pf h (Suc m) st4" for st1 st2 is3 s3 st4
      using 2 k Suc.IH(2) [of st4 k "Suc m"]
      by (auto dest!: parts_shrink(3,4) comma_shrinks values_shrink(1))
    with v show ?case
      unfolding k object_loop.simps by (auto simp: Let_def intro!: pbind_cong)
  next
    case 3
    then obtain k where k: "n' = Suc k" "n \<le> k" by (cases n') auto
    have v: "ParseValue k pf h st = ParseValue n pf h st"
      using 3 k Suc.IH(1) [of st k] by simp
    have "ParseValue n pf h st = Inr st2 \<Longrightarrow> skip pf st2 = Inr (is3, s3) \<Longrightarrow> skip pf (Take is3, s3) = Inr st4 \<Longrightarrow>
          array_loop k pf h (Suc m) st4 = array_loop n pf h (Suc m) st4" for st2 is3 s3 st4
      using 3 k Suc.IH(3) [of st4 k "Suc m"]
      by (auto dest!: parts_shrink(4) comma_shrinks values_shrink(1))
    with v show ?case
      unfolding k array_loop.simps by (auto simp: Let_def intro!: pbind_cong)
  }
qed simp_all

section \<open>The iterative reader simulates the recursive one\<close>

text \<open>
  A handler that accepts every event. Where a handler stops the parsing, the two readers
  report offsets that differ by the bracket.
\<close>

definition accepting :: "'h handler \<Rightarrow> bool" where
  "accepting h \<longleftrightarrow> (\<forall>e s s'. h e s \<noteq> Inr (False, s'))"

lemma notify_offset: "accepting h \<Longrightarrow> notify h e n s = notify h e m s"
proof -
  assume "accepting h"
  then show ?thesis
    by (cases "h e s") (auto simp: notify_def of_result_def accepting_def)
qed

lemma notify_Suc: "accepting h \<Longrightarrow> notify h e (Suc n) s = notify h e n s"
  by (rule notify_offset)

text \<open>What the loop does after a transition.\<close>

definition resume ::
  "parse_flags \<Rightarrow> 'h handler \<Rightarrow> IterativeParsingState \<Rightarrow> frames \<Rightarrow> istream \<times> 'h \<Rightarrow> (istream \<times> 'h) parse" where
  "resume pf h d stk st =
     (if kParseStopWhenDoneFlag \<in> set pf \<and> d = IterativeParsingFinishState then Inr st
      else pbind (skip pf st) (iterative_loop pf h d stk))"

lemma loop_step:
  assumes "Peek (fst st) \<noteq> CHR 0x00"
  shows "iterative_loop pf h X stk st =
    (let t = Tokenize (Peek (fst st)) in
     pbind (Transit pf h X t (Predict X t) stk st) (\<lambda>(d, stk', st').
       if d = IterativeParsingErrorState then Inl (HandleError X (fst st')) else resume pf h d stk' st'))"
  using assms
  by (subst iterative_loop.simps)
     (auto simp: Let_def pbind_def resume_def fun_eq_iff split: sum.splits prod.splits)

lemma loop_end: "Peek (fst st) = CHR 0x00 \<Longrightarrow> X \<noteq> IterativeParsingFinishState \<Longrightarrow>
  iterative_loop pf h X stk st = Inl (HandleError X (fst st))"
  by (subst iterative_loop.simps) simp

lemmas predict_simps = Predict_def Tokenize_eq

definition value_state :: "IterativeParsingState \<Rightarrow> bool" where
  "value_state X \<longleftrightarrow>
     X \<in> {IterativeParsingStartState, IterativeParsingArrayInitialState, IterativeParsingElementDelimiterState,
          IterativeParsingKeyValueDelimiterState}"

definition next_state :: "IterativeParsingState \<Rightarrow> IterativeParsingState" where
  "next_state X = pop_state (push_state X)"

lemma ParseValue_invalid:
  assumes "Peek (fst st) \<in> {CHR 0x00, CHR ''}'', CHR '']'', CHR '','', CHR '':''}" and "0 < n"
  shows "ParseValue n pf h st = Inl (ParseError kParseErrorValueInvalid (tell (fst st)))"
proof -
  obtain "is" s where st: "st = (is, s)" by fastforce
  have "ns_Consume pf \<lparr>ns_is = is, pushed = []\<rparr> (CHR ''-'') = None"
    using assms(1) by (auto simp: st ns_Consume_def ns_Peek_def)
  then have "ScanNumber pf is = Inl (ParseError kParseErrorValueInvalid (tell is))"
    using assms(1) by (auto simp: st ScanNumber_def parse_minus_def parse_int_def ns_Peek_def is_digit_def ns_tell_def)
  then show ?thesis
    using assms by (cases n) (auto simp: st Let_def ParseNumber_def)
qed

lemma value_invalid:
  assumes X: "value_state X" "X \<noteq> IterativeParsingStartState" and n: "0 < n"
    and c: "Peek (fst st) \<in> {CHR 0x00, CHR ''}'', CHR '']'', CHR '','', CHR '':''}"
    and b: "Peek (fst st) = CHR '']'' \<Longrightarrow> X = IterativeParsingKeyValueDelimiterState"
  shows "iterative_loop pf h X stk st = pbind (ParseValue n pf h st) f"
proof (cases "Peek (fst st) = CHR 0x00")
  case True
  then show ?thesis
    using X by (auto simp: loop_end ParseValue_invalid [OF c n] value_state_def)
next
  case False
  then show ?thesis
    using X c b by (auto simp: loop_step ParseValue_invalid [OF c n] value_state_def predict_simps)
qed

lemma value_scalar:
  assumes X: "value_state X" and n: "2 * left st < n"
    and c: "Peek (fst st) \<notin> {CHR 0x00, CHR ''}'', CHR '']'', CHR '','', CHR '':'', CHR ''{'', CHR ''[''}"
  shows "iterative_loop pf h X stk st = pbind (ParseValue n pf h st) (resume pf h (next_state X) stk)"
proof -
  let ?t = "Tokenize (Peek (fst st))"
  have "2 * left st < fuel_for (fst st)" by (simp add: fuel_for_def)
  then have f: "ParseValue (fuel_for (fst st)) pf h st = ParseValue n pf h st"
    using n enough_fuel(1) [of st n "fuel_for (fst st)"] enough_fuel(1) [of st "fuel_for (fst st)" n]
    by (metis nat_le_linear)
  have "?t \<in> {StringToken, FalseToken, TrueToken, NullToken, NumberToken}"
    using c by (simp add: Tokenize_eq)
  then have "Transit pf h X ?t (Predict X ?t) stk st = transit_scalar pf h (next_state X) stk st"
    using X by (auto simp: value_state_def Predict_def next_state_def pop_state_def push_state_def)
  moreover have "next_state X \<noteq> IterativeParsingErrorState"
    using X by (auto simp: value_state_def next_state_def pop_state_def push_state_def)
  ultimately show ?thesis
    using c by (simp add: loop_step Let_def transit_scalar_def f pbind_assoc)
qed

text \<open>Objects: the states in which a member or the end of the object is expected.\<close>

lemma close_trailing_eq: "accepting h \<Longrightarrow> close_trailing h ev st = close_bracket h ev st"
  by (cases st)
     (simp add: close_trailing_def close_bracket_def Let_def notify_Suc)

lemma transit_finish_eq:
  "accepting h \<Longrightarrow> transit_finish h X counted ev ((q, m) # stk) st =
     pbind (close_bracket h (ev (if X = counted then m + 1 else m)) st) (\<lambda>st. Inr (pop_state q, stk, st))"
  by (cases st)
     (simp add: transit_finish_def close_bracket_def Let_def pbind_assoc notify_Suc)

lemma object_finish:
  assumes a: "accepting h" and c: "Peek (fst st) = CHR ''}''" and q: "pop_state q \<noteq> IterativeParsingErrorState"
    and X: "X \<in> {IterativeParsingObjectInitialState, IterativeParsingMemberValueState} \<or>
            X = IterativeParsingMemberDelimiterState \<and> kParseTrailingCommasFlag \<in> set pf"
  shows "iterative_loop pf h X ((q, m) # stk) st =
    pbind (close_bracket h (EEndObject (if X = IterativeParsingMemberValueState then m + 1 else m)) st)
      (resume pf h (pop_state q) stk)"
  using X q c by (auto simp: loop_step predict_simps transit_finish_eq [OF a] pbind_assoc)

lemma array_finish:
  assumes a: "accepting h" and c: "Peek (fst st) = CHR '']''" and q: "pop_state q \<noteq> IterativeParsingErrorState"
    and X: "X \<in> {IterativeParsingArrayInitialState, IterativeParsingElementState} \<or>
            X = IterativeParsingElementDelimiterState \<and> kParseTrailingCommasFlag \<in> set pf"
  shows "iterative_loop pf h X ((q, m) # stk) st =
    pbind (close_bracket h (EEndArray (if X = IterativeParsingElementState then m + 1 else m)) st)
      (resume pf h (pop_state q) stk)"
  using X q c by (auto simp: loop_step predict_simps transit_finish_eq [OF a] pbind_assoc)

lemma resume_skip: "d \<noteq> IterativeParsingFinishState \<Longrightarrow> resume pf h d stk st = pbind (skip pf st) (iterative_loop pf h d stk)"
  by (simp add: resume_def)

lemma member_name:
  assumes X: "X \<in> {IterativeParsingObjectInitialState, IterativeParsingMemberDelimiterState}"
    and c: "Peek (fst st) \<noteq> CHR ''}'' \<or> X = IterativeParsingMemberDelimiterState \<and> kParseTrailingCommasFlag \<notin> set pf"
  shows "iterative_loop pf h X stk st =
    pbind (parse_name pf h st) (iterative_loop pf h IterativeParsingKeyValueDelimiterState stk)"
proof (cases "Peek (fst st) = CHR 0x22")
  case True
  have colon: "iterative_loop pf h IterativeParsingMemberKeyState stk (is, s) =
      pbind (case Consume is (CHR '':'') of
               None \<Rightarrow> Inl (ParseError kParseErrorObjectMissColon (tell is)) | Some is \<Rightarrow> skip pf (is, s))
        (iterative_loop pf h IterativeParsingKeyValueDelimiterState stk)" for "is" s
    by (cases "Peek is = CHR 0x00")
       (auto simp: loop_end loop_step predict_simps Consume_def resume_skip)
  have "iterative_loop pf h X stk st =
      pbind (ParseString pf h True st) (\<lambda>st. pbind (skip pf st) (iterative_loop pf h IterativeParsingMemberKeyState stk))"
    using X True by (auto simp: loop_step predict_simps pbind_assoc resume_skip)
  then show ?thesis
    using True by (simp add: parse_name_def pbind_assoc colon case_prod_unfold flip: colon)
next
  case False
  then have "iterative_loop pf h X stk st = Inl (ParseError kParseErrorObjectMissName (tell (fst st)))"
    using X c by (cases "Peek (fst st) = CHR 0x00") (auto simp: loop_end loop_step predict_simps)
  then show ?thesis
    using False by (simp add: parse_name_def)
qed

lemma member_end:
  assumes a: "accepting h" and q: "pop_state q \<noteq> IterativeParsingErrorState"
    and loop: "\<And>st. skip pf (Take is, s) = Inr st \<Longrightarrow>
      \<not> (kParseTrailingCommasFlag \<in> set pf \<and> Peek (fst st) = CHR ''}'') \<Longrightarrow>
      iterative_loop pf h IterativeParsingMemberDelimiterState ((q, m + 1) # stk) st =
        pbind (object_loop n pf h (m + 1) st) (resume pf h (pop_state q) stk)"
  shows "iterative_loop pf h IterativeParsingMemberValueState ((q, m) # stk) (is, s) =
    pbind (if Peek is = CHR '','' then
             pbind (skip pf (Take is, s)) (\<lambda>st.
               if kParseTrailingCommasFlag \<in> set pf \<and> Peek (fst st) = CHR ''}''
               then close_trailing h (EEndObject (m + 1)) st
               else object_loop n pf h (m + 1) st)
           else if Peek is = CHR ''}'' then close_bracket h (EEndObject (m + 1)) (is, s)
           else Inl (ParseError kParseErrorObjectMissCommaOrCurlyBracket (tell is)))
      (resume pf h (pop_state q) stk)"
proof -
  consider "Peek is = CHR '',''" | "Peek is = CHR ''}''" | "Peek is \<noteq> CHR '',''" "Peek is \<noteq> CHR ''}''"
    by blast
  then show ?thesis
  proof cases
    case 1
    then have "iterative_loop pf h IterativeParsingMemberValueState ((q, m) # stk) (is, s) =
        pbind (skip pf (Take is, s)) (iterative_loop pf h IterativeParsingMemberDelimiterState ((q, m + 1) # stk))"
      by (simp add: loop_step predict_simps resume_skip)
    also have "\<dots> = pbind (skip pf (Take is, s)) (\<lambda>st.
        pbind (if kParseTrailingCommasFlag \<in> set pf \<and> Peek (fst st) = CHR ''}''
               then close_trailing h (EEndObject (m + 1)) st
               else object_loop n pf h (m + 1) st) (resume pf h (pop_state q) stk))"
      using loop by (intro pbind_cong [OF refl]) (auto simp: object_finish [OF a _ q] close_trailing_eq [OF a])
    finally show ?thesis using 1 by (simp add: pbind_assoc)
  next
    case 2
    then show ?thesis by (simp add: object_finish [OF a _ q])
  next
    case 3
    then show ?thesis
      by (cases "Peek is = CHR 0x00") (auto simp: loop_end loop_step predict_simps)
  qed
qed

lemma element_end:
  assumes a: "accepting h" and q: "pop_state q \<noteq> IterativeParsingErrorState"
    and loop: "\<And>st. skip pf (Take is, s) = Inr st \<Longrightarrow>
      \<not> (kParseTrailingCommasFlag \<in> set pf \<and> Peek (fst st) = CHR '']'') \<Longrightarrow>
      iterative_loop pf h IterativeParsingElementDelimiterState ((q, m + 1) # stk) st =
        pbind (array_loop n pf h (m + 1) st) (resume pf h (pop_state q) stk)"
  shows "iterative_loop pf h IterativeParsingElementState ((q, m) # stk) (is, s) =
    pbind (if Peek is = CHR '','' then
             pbind (skip pf (Take is, s)) (\<lambda>st.
               if kParseTrailingCommasFlag \<in> set pf \<and> Peek (fst st) = CHR '']''
               then close_trailing h (EEndArray (m + 1)) st
               else array_loop n pf h (m + 1) st)
           else if Peek is = CHR '']'' then close_bracket h (EEndArray (m + 1)) (is, s)
           else Inl (ParseError kParseErrorArrayMissCommaOrSquareBracket (tell is)))
      (resume pf h (pop_state q) stk)"
proof -
  consider "Peek is = CHR '',''" | "Peek is = CHR '']''" | "Peek is \<noteq> CHR '',''" "Peek is \<noteq> CHR '']''"
    by blast
  then show ?thesis
  proof cases
    case 1
    then have "iterative_loop pf h IterativeParsingElementState ((q, m) # stk) (is, s) =
        pbind (skip pf (Take is, s)) (iterative_loop pf h IterativeParsingElementDelimiterState ((q, m + 1) # stk))"
      by (simp add: loop_step predict_simps resume_skip)
    also have "\<dots> = pbind (skip pf (Take is, s)) (\<lambda>st.
        pbind (if kParseTrailingCommasFlag \<in> set pf \<and> Peek (fst st) = CHR '']''
               then close_trailing h (EEndArray (m + 1)) st
               else array_loop n pf h (m + 1) st) (resume pf h (pop_state q) stk))"
      using loop by (intro pbind_cong [OF refl]) (auto simp: array_finish [OF a _ q] close_trailing_eq [OF a])
    finally show ?thesis using 1 by (simp add: pbind_assoc)
  next
    case 2
    then show ?thesis by (simp add: array_finish [OF a _ q])
  next
    case 3
    then show ?thesis
      by (cases "Peek is = CHR 0x00") (auto simp: loop_end loop_step predict_simps)
  qed
qed

lemma value_open:
  assumes a: "accepting h" and X: "value_state X"
    and object: "\<And>st1. left st1 < left st \<Longrightarrow> Peek (fst st1) \<noteq> CHR ''}'' \<Longrightarrow>
      iterative_loop pf h IterativeParsingObjectInitialState ((push_state X, 0) # stk) st1 =
        pbind (object_loop n pf h 0 st1) (resume pf h (next_state X) stk)"
    and array: "\<And>st1. left st1 < left st \<Longrightarrow> Peek (fst st1) \<noteq> CHR '']'' \<Longrightarrow>
      iterative_loop pf h IterativeParsingArrayInitialState ((push_state X, 0) # stk) st1 =
        pbind (array_loop n pf h 0 st1) (resume pf h (next_state X) stk)"
    and c: "Peek (fst st) = CHR ''{'' \<or> Peek (fst st) = CHR ''[''"
  shows "iterative_loop pf h X stk st = pbind (ParseValue (Suc n) pf h st) (resume pf h (next_state X) stk)"
proof -
  obtain "is" s where st: "st = (is, s)" by fastforce
  have q: "pop_state (push_state X) \<noteq> IterativeParsingErrorState"
    using X by (auto simp: value_state_def push_state_def pop_state_def)
  from c show ?thesis
  proof
    assume c: "Peek (fst st) = CHR ''{''"
    have "iterative_loop pf h X stk st = pbind (open_bracket pf h (CHR ''{'') EStartObject st)
        (iterative_loop pf h IterativeParsingObjectInitialState ((push_state X, 0) # stk))"
      using X c by (auto simp: st value_state_def loop_step predict_simps open_bracket_def pbind_assoc resume_skip
          notify_Suc [OF a])
    also have "\<dots> = pbind (open_bracket pf h (CHR ''{'') EStartObject st) (\<lambda>st.
        pbind (if Peek (fst st) = CHR ''}'' then close_bracket h (EEndObject 0) st else object_loop n pf h 0 st)
          (resume pf h (next_state X) stk))"
      by (intro pbind_cong [OF refl]) (auto simp: object_finish [OF a _ q] next_state_def intro!: object
          dest!: brackets_shrink(1) simp flip: next_state_def)
    finally show ?thesis using c by (simp add: pbind_assoc)
  next
    assume c: "Peek (fst st) = CHR ''[''"
    have "iterative_loop pf h X stk st = pbind (open_bracket pf h (CHR ''['') EStartArray st)
        (iterative_loop pf h IterativeParsingArrayInitialState ((push_state X, 0) # stk))"
      using X c by (auto simp: st value_state_def loop_step predict_simps open_bracket_def pbind_assoc resume_skip
          notify_Suc [OF a])
    also have "\<dots> = pbind (open_bracket pf h (CHR ''['') EStartArray st) (\<lambda>st.
        pbind (if Peek (fst st) = CHR '']'' then close_bracket h (EEndArray 0) st else array_loop n pf h 0 st)
          (resume pf h (next_state X) stk))"
      by (intro pbind_cong [OF refl]) (auto simp: array_finish [OF a _ q] next_state_def intro!: array
          dest!: brackets_shrink(1) simp flip: next_state_def)
    finally show ?thesis using c by (simp add: pbind_assoc)
  qed
qed

lemma object_step:
  assumes a: "accepting h" and q: "pop_state q \<noteq> IterativeParsingErrorState"
    and X: "X \<in> {IterativeParsingObjectInitialState, IterativeParsingMemberDelimiterState}"
    and c: "Peek (fst st) \<noteq> CHR ''}'' \<or> X = IterativeParsingMemberDelimiterState \<and> kParseTrailingCommasFlag \<notin> set pf"
    and val: "\<And>st1. left st1 < left st \<Longrightarrow>
      iterative_loop pf h IterativeParsingKeyValueDelimiterState ((q, m) # stk) st1 =
        pbind (ParseValue n pf h st1) (resume pf h IterativeParsingMemberValueState ((q, m) # stk))"
    and loop: "\<And>st1. left st1 < left st \<Longrightarrow> \<not> (kParseTrailingCommasFlag \<in> set pf \<and> Peek (fst st1) = CHR ''}'') \<Longrightarrow>
      iterative_loop pf h IterativeParsingMemberDelimiterState ((q, m + 1) # stk) st1 =
        pbind (object_loop n pf h (m + 1) st1) (resume pf h (pop_state q) stk)"
  shows "iterative_loop pf h X ((q, m) # stk) st =
    pbind (object_loop (Suc n) pf h m st) (resume pf h (pop_state q) stk)"
proof -
  have "iterative_loop pf h IterativeParsingMemberDelimiterState ((q, m + 1) # stk) st1 =
      pbind (object_loop n pf h (m + 1) st1) (resume pf h (pop_state q) stk)"
    if "length (src is3) < left st" "skip pf (Take is3, s3) = Inr st1"
      "\<not> (kParseTrailingCommasFlag \<in> set pf \<and> Peek (fst st1) = CHR ''}'')" for is3 s3 st1
    using that comma_shrinks [OF that(2)] by (intro loop) simp_all
  note tail = member_end [OF a q this]
  have "iterative_loop pf h X ((q, m) # stk) st =
      pbind (parse_name pf h st) (\<lambda>st1. pbind (ParseValue n pf h st1) (\<lambda>st2. pbind (skip pf st2)
        (iterative_loop pf h IterativeParsingMemberValueState ((q, m) # stk))))"
    unfolding member_name [OF X c]
    by (intro pbind_cong [OF refl], subst val [OF parts_shrink(3)]) (auto simp: resume_skip intro!: pbind_cong)
  also have "\<dots> = pbind (object_loop (Suc n) pf h m st) (resume pf h (pop_state q) stk)"
    unfolding object_loop.simps pbind_assoc
  proof (intro pbind_cong refl)
    fix st1 st2 st3
    assume n: "parse_name pf h st = Inr st1" and v: "ParseValue n pf h st1 = Inr st2" and w: "skip pf st2 = Inr st3"
    have "left st3 < left st"
      using parts_shrink(3) [OF n] values_shrink(1) [OF v] parts_shrink(4) [OF w] by simp
    then show "iterative_loop pf h IterativeParsingMemberValueState ((q, m) # stk) st3 =
      pbind (case st3 of (is, s) \<Rightarrow>
         let memberCount = m + 1 in
         if Peek is = CHR '','' then
           pbind (skip pf (Take is, s)) (\<lambda>st.
             if kParseTrailingCommasFlag \<in> set pf \<and> Peek (fst st) = CHR ''}''
             then close_trailing h (EEndObject memberCount) st
             else object_loop n pf h memberCount st)
         else if Peek is = CHR ''}'' then close_bracket h (EEndObject memberCount) (is, s)
         else Inl (ParseError kParseErrorObjectMissCommaOrCurlyBracket (tell is)))
        (resume pf h (pop_state q) stk)"
      by (cases st3) (simp only: prod.case fst_conv Let_def, rule tail, simp)
  qed
  finally show ?thesis .
qed

lemma array_step:
  assumes a: "accepting h" and q: "pop_state q \<noteq> IterativeParsingErrorState"
    and val: "iterative_loop pf h X ((q, m) # stk) st =
        pbind (ParseValue n pf h st) (resume pf h IterativeParsingElementState ((q, m) # stk))"
    and loop: "\<And>st1. left st1 < left st \<Longrightarrow> \<not> (kParseTrailingCommasFlag \<in> set pf \<and> Peek (fst st1) = CHR '']'') \<Longrightarrow>
      iterative_loop pf h IterativeParsingElementDelimiterState ((q, m + 1) # stk) st1 =
        pbind (array_loop n pf h (m + 1) st1) (resume pf h (pop_state q) stk)"
  shows "iterative_loop pf h X ((q, m) # stk) st =
    pbind (array_loop (Suc n) pf h m st) (resume pf h (pop_state q) stk)"
proof -
  have "iterative_loop pf h IterativeParsingElementDelimiterState ((q, m + 1) # stk) st1 =
      pbind (array_loop n pf h (m + 1) st1) (resume pf h (pop_state q) stk)"
    if "length (src is3) < left st" "skip pf (Take is3, s3) = Inr st1"
      "\<not> (kParseTrailingCommasFlag \<in> set pf \<and> Peek (fst st1) = CHR '']'')" for is3 s3 st1
    using that comma_shrinks [OF that(2)] by (intro loop) simp_all
  note tail = element_end [OF a q this]
  have "iterative_loop pf h X ((q, m) # stk) st =
      pbind (ParseValue n pf h st) (\<lambda>st2. pbind (skip pf st2)
        (iterative_loop pf h IterativeParsingElementState ((q, m) # stk)))"
    using val by (auto simp: resume_skip intro!: pbind_cong)
  also have "\<dots> = pbind (array_loop (Suc n) pf h m st) (resume pf h (pop_state q) stk)"
    unfolding array_loop.simps pbind_assoc
  proof (intro pbind_cong refl)
    fix st2 st3
    assume v: "ParseValue n pf h st = Inr st2" and w: "skip pf st2 = Inr st3"
    have "left st3 < left st"
      using values_shrink(1) [OF v] parts_shrink(4) [OF w] by simp
    then show "iterative_loop pf h IterativeParsingElementState ((q, m) # stk) st3 =
      pbind (case st3 of (is, s) \<Rightarrow>
         let elementCount = m + 1 in
         if Peek is = CHR '','' then
           pbind (skip pf (Take is, s)) (\<lambda>st.
             if kParseTrailingCommasFlag \<in> set pf \<and> Peek (fst st) = CHR '']''
             then close_trailing h (EEndArray elementCount) st
             else array_loop n pf h elementCount st)
         else if Peek is = CHR '']'' then close_bracket h (EEndArray elementCount) (is, s)
         else Inl (ParseError kParseErrorArrayMissCommaOrSquareBracket (tell is)))
        (resume pf h (pop_state q) stk)"
      by (cases st3) (simp only: prod.case fst_conv Let_def, rule tail, simp)
  qed
  finally show ?thesis .
qed

text \<open>A closing bracket behind the comma of an array, without the flag for it.\<close>

lemma array_trailing:
  assumes "Peek (fst st) = CHR '']''" and "kParseTrailingCommasFlag \<notin> set pf" and "0 < n"
  shows "iterative_loop pf h IterativeParsingElementDelimiterState stk st = pbind (ParseValue n pf h st) f"
  using assms by (simp add: loop_step predict_simps ParseValue_invalid)

abbreviation closers :: "char set" where
  "closers \<equiv> {CHR 0x00, CHR ''}'', CHR '']'', CHR '','', CHR '':''}"

lemma simulation:
  assumes a: "accepting h"
  shows "value_state X \<Longrightarrow> 2 * left st < n \<Longrightarrow>
      (X = IterativeParsingStartState \<longrightarrow> Peek (fst st) \<notin> closers) \<Longrightarrow>
      (Peek (fst st) = CHR '']'' \<longrightarrow> X = IterativeParsingKeyValueDelimiterState) \<Longrightarrow>
      iterative_loop pf h X stk st = pbind (ParseValue n pf h st) (resume pf h (next_state X) stk)"
    and "X \<in> {IterativeParsingObjectInitialState, IterativeParsingMemberDelimiterState} \<Longrightarrow>
      2 * left st < n \<Longrightarrow> pop_state q \<noteq> IterativeParsingErrorState \<Longrightarrow>
      Peek (fst st) \<noteq> CHR ''}'' \<or> X = IterativeParsingMemberDelimiterState \<and> kParseTrailingCommasFlag \<notin> set pf \<Longrightarrow>
      iterative_loop pf h X ((q, m) # stk) st = pbind (object_loop n pf h m st) (resume pf h (pop_state q) stk)"
    and "X \<in> {IterativeParsingArrayInitialState, IterativeParsingElementDelimiterState} \<Longrightarrow>
      2 * left st + 1 < n \<Longrightarrow> pop_state q \<noteq> IterativeParsingErrorState \<Longrightarrow>
      Peek (fst st) \<noteq> CHR '']'' \<or> X = IterativeParsingElementDelimiterState \<and> kParseTrailingCommasFlag \<notin> set pf \<Longrightarrow>
      iterative_loop pf h X ((q, m) # stk) st = pbind (array_loop n pf h m st) (resume pf h (pop_state q) stk)"
proof (induction n arbitrary: X st q m stk)
  case (Suc n)
  {
    case 1
    have q: "next_state X \<noteq> IterativeParsingErrorState"
      using 1(1) by (auto simp: value_state_def next_state_def push_state_def pop_state_def)
    consider "Peek (fst st) \<in> closers" | "Peek (fst st) = CHR ''{'' \<or> Peek (fst st) = CHR ''[''"
      | "Peek (fst st) \<notin> closers \<union> {CHR ''{'', CHR ''[''}"
      by blast
    then show ?case
    proof cases
      case c: 1
      then show ?thesis using 1 by (intro value_invalid) auto
    next
      case c: 2
      show ?thesis
        using 1(2) q c
        by (intro value_open [OF a 1(1)] Suc.IH(2,3) [of _ _ "push_state X" 0 stk, folded next_state_def]) auto
    next
      case c: 3
      then show ?thesis using 1 by (intro value_scalar) auto
    qed
  next
    case 2
    have ns: "next_state IterativeParsingKeyValueDelimiterState = IterativeParsingMemberValueState"
      by (simp add: next_state_def push_state_def pop_state_def)
    show ?case
      using 2 by (intro object_step [OF a] Suc.IH(1) [of IterativeParsingKeyValueDelimiterState, unfolded ns] Suc.IH(2))
        (auto simp: value_state_def)
  next
    case 3
    have ns: "next_state X = IterativeParsingElementState"
      using 3(1) by (auto simp: next_state_def push_state_def pop_state_def)
    have "iterative_loop pf h X ((q, m) # stk) st =
        pbind (ParseValue n pf h st) (resume pf h (next_state X) ((q, m) # stk))"
    proof (cases "Peek (fst st) = CHR '']''")
      case True
      then show ?thesis using 3 by (auto intro!: array_trailing)
    next
      case False
      then show ?thesis using 3 by (intro Suc.IH(1)) (auto simp: value_state_def)
    qed
    then show ?case
      using 3 unfolding ns by (intro array_step [OF a] Suc.IH(3)) auto
  }
qed simp_all

text \<open>From the start state: the value, then what follows the root.\<close>

lemma iterative_start:
  assumes a: "accepting h" and c: "Peek (fst st) \<notin> {CHR ''}'', CHR '']'', CHR '','', CHR '':''}"
  shows "iterative_loop pf h IterativeParsingStartState [] st =
      (if Peek (fst st) = CHR 0x00 then Inl (ParseError kParseErrorDocumentEmpty (tell (fst st)))
       else pbind (ParseValue (fuel_for (fst st)) pf h st) (\<lambda>st.
              if kParseStopWhenDoneFlag \<in> set pf then Inr st
              else pbind (skip pf st) (\<lambda>st.
                     if Peek (fst st) \<noteq> CHR 0x00
                     then Inl (ParseError kParseErrorDocumentRootNotSingular (tell (fst st)))
                     else Inr st)))"
proof (cases "Peek (fst st) = CHR 0x00")
  case True
  then show ?thesis by (simp add: loop_end)
next
  case False
  have ns: "next_state IterativeParsingStartState = IterativeParsingFinishState"
    by (simp add: next_state_def push_state_def pop_state_def)
  have fin: "iterative_loop pf h IterativeParsingFinishState [] st1 =
      (if Peek (fst st1) \<noteq> CHR 0x00 then Inl (ParseError kParseErrorDocumentRootNotSingular (tell (fst st1)))
       else Inr st1)" for st1
    by (subst iterative_loop.simps) (simp add: predict_simps)
  have "iterative_loop pf h IterativeParsingStartState [] st =
      pbind (ParseValue (fuel_for (fst st)) pf h st) (resume pf h IterativeParsingFinishState [])"
    unfolding ns [symmetric] using False c
    by (intro simulation(1) [OF a]) (auto simp: value_state_def fuel_for_def)
  then show ?thesis
    using False by (auto simp: resume_def fin intro!: pbind_cong)
qed

lemma iterative_parse_cases:
  assumes "accepting h"
  shows "IterativeParse pf h is s =
    (case skip pf (is, s) of
       Inr (is', s') \<Rightarrow>
         if Peek is' \<in> {CHR ''}'', CHR '']'', CHR '','', CHR '':''}
         then Inl (ParseError kParseErrorDocumentEmpty (tell is')) else RecursiveParse pf h is s
     | Inl e \<Rightarrow> RecursiveParse pf h is s)"
proof (cases "skip pf (is, s)")
  case (Inl e)
  then show ?thesis by (simp add: IterativeParse_def RecursiveParse_def)
next
  case (Inr st)
  show ?thesis
  proof (cases "Peek (fst st) \<in> {CHR ''}'', CHR '']'', CHR '','', CHR '':''}")
    case True
    then show ?thesis
      by (auto simp: IterativeParse_def Inr loop_step predict_simps split: prod.splits)
  next
    case False
    then have "IterativeParse pf h is s = RecursiveParse pf h is s"
      unfolding IterativeParse_def RecursiveParse_def Inr pbind_Inr by (rule iterative_start [OF assms])
    with False show ?thesis
      by (cases st) (simp add: Inr)
  qed
qed

text \<open>
  C14. The iterative reader is equivalent to the recursive one: for every text, every combination of
  flags and every handler that accepts all events, it ends in the same state of the handler at the
  same position, or reports the same error at the same offset. The only exception is a
  document that starts with a closing bracket, a comma or a colon: there the iterative reader reports
  an empty document and the recursive one an invalid value.
\<close>

theorem IterativeParse_eq:
  assumes "accepting h"
  shows "IterativeParse pf h is s =
    (case skip pf (is, s) of
       Inr (is', s') \<Rightarrow>
         if Peek is' \<in> {CHR ''}'', CHR '']'', CHR '','', CHR '':''}
         then Inl (ParseError kParseErrorDocumentEmpty (tell is')) else RecursiveParse pf h is s
     | Inl e \<Rightarrow> RecursiveParse pf h is s)"
  using assms by (rule iterative_parse_cases)

theorem IterativeParse_eq_witness:
  "accepting (\<lambda>e s. Inr (True, s @ [e])) \<and>
   IterativeParse [] (\<lambda>e s. Inr (True, s @ [e])) (StringStream ''[[],{}]'') [] =
     RecursiveParse [] (\<lambda>e s. Inr (True, s @ [e])) (StringStream ''[[],{}]'') []"
proof -
  have "skip [] (StringStream ''[[],{}]'', [] :: event list) = Inr (StringStream ''[[],{}]'', [])"
    unfolding skip_def SkipWhitespaceAndComments_def
    by (subst SkipWhitespace.simps) (simp add: json_space_def StringStream_def)
  then show ?thesis
    using IterativeParse_eq [of "\<lambda>e s. Inr (True, s @ [e])" "[]" "StringStream ''[[],{}]''" "[]"]
    by (simp add: accepting_def) (simp add: StringStream_def)
qed

end
