(* ===== verification/Json_Document.thy ===== *)
theory Json_Document
  imports Json_Iterative
begin

text \<open>
  Documents (rapidjson/document.h, \<^verbatim>\<open>GenericDocument\<close>): the handler that builds values on a stack, and
  parsing from a string. The theory shows that the handler keeps the contract of the reader, so that
  parsing any text ends with one value or a parse error.
\<close>

section \<open>The stack of values\<close>

text \<open>
  The top is the head of the list. A member is two consecutive values, its name below its value; the name
  of a member is a string.
\<close>

fun pair_members :: "json_value list \<Rightarrow> (string \<times> json_value) list result" where
  "pair_members [] = Inr []"
| "pair_members (VString n # v # vs) = rbind (pair_members vs) (\<lambda>ms. Inr ((n, v) # ms))"
| "pair_members _ = Inl AssertionFailed"

definition doc_push :: "json_value \<Rightarrow> json_value list \<Rightarrow> (bool \<times> json_value list) result" where
  "doc_push v stk = Inr (True, v # stk)"

definition Document_EndObject :: "nat \<Rightarrow> json_value list \<Rightarrow> (bool \<times> json_value list) result" where
  "Document_EndObject memberCount stk =
     (if length stk \<le> 2 * memberCount then Inl AssertionFailed
      else rbind (pair_members (rev (take (2 * memberCount) stk))) (\<lambda>ms.
             Inr (True, VObject ms # drop (2 * memberCount + 1) stk)))"

definition Document_EndArray :: "nat \<Rightarrow> json_value list \<Rightarrow> (bool \<times> json_value list) result" where
  "Document_EndArray elementCount stk =
     (if length stk \<le> elementCount then Inl AssertionFailed
      else Inr (True, VArray (rev (take elementCount stk)) # drop (elementCount + 1) stk))"

fun Document_handler :: "json_value list handler" where
  "Document_handler ENull stk = doc_push VNull stk"
| "Document_handler (EBool b) stk = doc_push (Value_bool b) stk"
| "Document_handler (EInt i) stk = doc_push (Value_int i) stk"
| "Document_handler (EUint u) stk = doc_push (Value_unsigned u) stk"
| "Document_handler (EInt64 i) stk = doc_push (Value_int64 i) stk"
| "Document_handler (EUint64 u) stk = doc_push (Value_uint64 u) stk"
| "Document_handler (EDouble d) stk = doc_push (Value_double d) stk"
| "Document_handler (ERawNumber s) stk = doc_push (VString s) stk"
| "Document_handler (EString s) stk = doc_push (VString s) stk"
| "Document_handler EStartObject stk = doc_push (VObject []) stk"
| "Document_handler (EKey s) stk = doc_push (VString s) stk"
| "Document_handler (EEndObject n) stk = Document_EndObject n stk"
| "Document_handler EStartArray stk = doc_push (VArray []) stk"
| "Document_handler (EEndArray n) stk = Document_EndArray n stk"

section \<open>Documents\<close>

text \<open>The root value and the result of the last parsing: \<^const>\<open>None\<close> for no error.\<close>

record Document =
  root :: json_value
  parseResult :: "(ParseErrorCode \<times> nat) option"

definition Document_new :: Document where
  "Document_new = \<lparr>root = VNull, parseResult = None\<rparr>"

definition HasParseError :: "Document \<Rightarrow> bool" where
  "HasParseError d \<longleftrightarrow> parseResult d \<noteq> None"

text \<open>The stack of the document is empty before and after the parsing.\<close>

definition ParseStream :: "parse_flags \<Rightarrow> Document \<Rightarrow> istream \<Rightarrow> Document result" where
  "ParseStream pf d is =
     (case Reader_Parse pf Document_handler is [] of
        Inl (Fault f) \<Rightarrow> Inl f
      | Inl (ParseError code offset) \<Rightarrow> Inr (d\<lparr>parseResult := Some (code, offset)\<rparr>)
      | Inr (_, stk) \<Rightarrow>
          (case stk of [v] \<Rightarrow> Inr (d\<lparr>root := v, parseResult := None\<rparr>) | _ \<Rightarrow> Inl AssertionFailed))"

definition Document_Parse :: "Document \<Rightarrow> string \<Rightarrow> Document result" where
  "Document_Parse d str = ParseStream kParseDefaultFlags d (StringStream (c_str str))"

section \<open>The handler keeps its contract\<close>

definition doc_tags :: "bool list \<Rightarrow> json_value list \<Rightarrow> bool" where
  "doc_tags ts stk \<longleftrightarrow> list_all2 (\<lambda>t v. t \<longrightarrow> GetType v = kStringType) ts stk"

lemma pair_members_append:
  "pair_members xs = Inr ms \<Longrightarrow> pair_members (xs @ [VString n, v]) = Inr (ms @ [(n, v)])"
  by (induction xs arbitrary: ms rule: pair_members.induct) (auto simp: rbind_Inr_iff)

lemma pair_members_tags:
  "doc_tags (member_tags m @ ts) stk \<Longrightarrow> \<exists>ms. pair_members (rev (take (2 * m) stk)) = Inr ms"
proof (induction m arbitrary: stk)
  case (Suc m)
  then obtain v n stk' where stk: "stk = v # VString n # stk'" "doc_tags (member_tags m @ ts) stk'"
    by (auto simp: doc_tags_def list_all2_Cons1 elim!: GetType.elims)
  from Suc.IH [OF stk(2)] show ?case
    by (auto simp: stk(1) dest: pair_members_append)
qed simp

lemma doc_tags_drop: "doc_tags (xs @ ts) stk \<Longrightarrow> length xs = n \<Longrightarrow> n \<le> length stk \<and> doc_tags ts (drop n stk)"
  by (auto simp: doc_tags_def list_all2_append1)

lemma length_member_tags [simp]: "length (member_tags m) = 2 * m"
  by (induction m) simp_all

interpretation doc: handler_contract Document_handler doc_tags
proof
  show "\<exists>s'. Document_handler e s = Inr (True, s') \<and> doc_tags (is_key e # ts) s'"
    if "doc_tags ts s" "\<not> is_end e" for ts s e
    using that by (cases e) (auto simp: doc_push_def doc_tags_def)
next
  fix m ts s
  assume s: "doc_tags (member_tags m @ False # ts) s"
  then obtain ms where "pair_members (rev (take (2 * m) s)) = Inr ms" using pair_members_tags by blast
  moreover have "2 * m < length s" "doc_tags ts (drop (Suc (2 * m)) s)"
    using doc_tags_drop [of "member_tags m @ [False]" ts s] s by auto
  ultimately show "\<exists>s'. Document_handler (EEndObject m) s = Inr (True, s') \<and> doc_tags (False # ts) s'"
    by (simp add: Document_EndObject_def) (simp add: doc_tags_def)
next
  fix m ts s
  assume s: "doc_tags (replicate m False @ False # ts) s"
  have "m < length s" "doc_tags ts (drop (Suc m) s)"
    using doc_tags_drop [of "replicate m False @ [False]" ts s] s by auto
  then show "\<exists>s'. Document_handler (EEndArray m) s = Inr (True, s') \<and> doc_tags (False # ts) s'"
    by (simp add: Document_EndArray_def) (simp add: doc_tags_def)
qed

lemma accepting_doc: "accepting Document_handler"
proof -
  have "Document_handler e s \<noteq> Inr (False, s')" for e s s'
    by (cases e) (auto simp: doc_push_def Document_EndObject_def Document_EndArray_def rbind_Inr_iff)
  then show ?thesis by (simp add: accepting_def)
qed

lemma good_doc_parse:
  assumes "kParseFullPrecisionFlag \<notin> set pf"
  shows "good (\<lambda>st. length (snd st) = 1) (Reader_Parse pf Document_handler is [])"
proof -
  have r: "good (\<lambda>st. length (snd st) = 1) (RecursiveParse pf Document_handler is [])"
    by (rule good_mono [OF doc.good_parse [OF assms]]) (auto simp: doc_tags_def dest: list_all2_lengthD)
  then have "good (\<lambda>st. length (snd st) = 1) (IterativeParse pf Document_handler is [])"
    unfolding iterative_parse_cases [OF accepting_doc] by (auto split: sum.splits)
  with r show ?thesis by (simp add: Reader_Parse_def)
qed

text \<open>
  C17. Parsing a document is total: for every text it ends without a fault, no assertion of the reader
  or of the value stack fails. Either exactly one root value was built and replaces the root, or a parse error
  with its offset is recorded and the root keeps its value.
\<close>

theorem Document_Parse_total:
  "(\<exists>v. Document_Parse d str = Inr (d\<lparr>root := v, parseResult := None\<rparr>)) \<or>
   (\<exists>code offset. Document_Parse d str = Inr (d\<lparr>parseResult := Some (code, offset)\<rparr>))"
proof -
  have "kParseFullPrecisionFlag \<notin> set kParseDefaultFlags"
    by (simp add: kParseDefaultFlags_def)
  from good_doc_parse [OF this, of "StringStream (c_str str)"] show ?thesis
    unfolding Document_Parse_def ParseStream_def
    by (auto simp: good_def length_Suc_conv split: sum.splits parse_fail.splits)
qed

end
