(* ===== verification/Json_Text.thy ===== *)
theory Json_Text
  imports Json_Document
begin

text \<open>
  The text of a JSON value as a function of the value, and what the writer and the reader have to do
  with it: sending a value to the writer appends exactly its text, and parsing the text gives
  the value back.
\<close>

section \<open>The text of a value\<close>

definition char_text :: "char \<Rightarrow> string" where
  "char_text c = (if escape ! of_char c \<noteq> CHR 0x00 then escaped c else [c])"

definition quote :: "string \<Rightarrow> string" where
  "quote s = CHR 0x22 # concat (map char_text s) @ [CHR 0x22]"

fun number_text :: "event \<Rightarrow> string" where
  "number_text (EInt i) = int_to_dec (sint i)"
| "number_text (EUint u) = nat_to_dec (unat u)"
| "number_text (EInt64 i) = int_to_dec (sint i)"
| "number_text (EUint64 u) = nat_to_dec (unat u)"
| "number_text (EDouble d) = (case dtoa d kDefaultMaxDecimalPlaces of None \<Rightarrow> [] | Some t \<Rightarrow> t)"
| "number_text _ = []"

text \<open>The first argument of the lists says that no comma is due.\<close>

fun json_text :: "json_value \<Rightarrow> string"
  and members_text :: "bool \<Rightarrow> (string \<times> json_value) list \<Rightarrow> string"
  and elements_text :: "bool \<Rightarrow> json_value list \<Rightarrow> string" where
  "json_text VNull = ''null''"
| "json_text VFalse = ''false''"
| "json_text VTrue = ''true''"
| "json_text (VObject ms) = ''{'' @ members_text True ms @ ''}''"
| "json_text (VArray vs) = ''['' @ elements_text True vs @ '']''"
| "json_text (VString s) = quote s"
| "json_text (VNumber f d) = number_text (number_event (VNumber f d))"
| "members_text first [] = []"
| "members_text first ((n, v) # ms) =
     (if first then [] else '','') @ quote n @ '':'' @ json_text v @ members_text False ms"
| "elements_text first [] = []"
| "elements_text first (v # vs) = (if first then [] else '','') @ json_text v @ elements_text False vs"

text \<open>
  What can be written: strings whose reservation does not wrap around, and doubles that are finite and
  print in the 25 bytes that the writer pushes for them.
\<close>

definition writable_double :: "double \<Rightarrow> bool" where
  "writable_double d \<longleftrightarrow>
     \<not> IsNanOrInf (double_bits d) \<and>
     (case dtoa d kDefaultMaxDecimalPlaces of None \<Rightarrow> False | Some t \<Rightarrow> length t \<le> 25)"

definition writable_string :: "string \<Rightarrow> bool" where
  "writable_string s \<longleftrightarrow> 2 + 6 * length s < 2 ^ 32"

fun writable :: "json_value \<Rightarrow> bool"
  and writable_members :: "(string \<times> json_value) list \<Rightarrow> bool"
  and writable_elements :: "json_value list \<Rightarrow> bool" where
  "writable (VObject ms) = writable_members ms"
| "writable (VArray vs) = writable_elements vs"
| "writable (VString s) = writable_string s"
| "writable (VNumber f d) =
     (case number_event (VNumber f d) of EDouble x \<Rightarrow> writable_double x | _ \<Rightarrow> True)"
| "writable _ = True"
| "writable_members [] = True"
| "writable_members ((n, v) # ms) = (writable_string n \<and> writable v \<and> writable_members ms)"
| "writable_elements [] = True"
| "writable_elements (v # vs) = (writable v \<and> writable_elements vs)"

section \<open>Tokens of the writer\<close>

definition appends :: "Stack \<Rightarrow> string \<Rightarrow> Stack \<Rightarrow> bool" where
  "appends b cs b' \<longleftrightarrow> contents b' = contents b @ cs \<and> Stack_ok b'"

lemma Put_appends: "Stack_ok b \<Longrightarrow> \<exists>b'. Put b c = Inr b' \<and> appends b [c] b'"
  by (rule Put_ok [of b c]) (auto simp: appends_def)

lemma put_reserved_ok:
  assumes "Stack_ok b" and "length cs \<le> n"
  shows "\<exists>b'. put_reserved n cs b = Inr b' \<and> appends b cs b'"
proof -
  have "room (Reserve b n) (length cs + (n - length cs))"
    using room_Reserve [OF assms(1), of n] assms(2) by simp
  from PutsUnsafe_room [OF this] show ?thesis
    by (auto simp: put_reserved_def appends_def room_def)
qed

lemma write_pushed_ok:
  assumes "Stack_ok b" and "length cs \<le> n" and "0 < n"
  shows "\<exists>b'. write_pushed n cs b = Inr b' \<and> appends b cs b'"
proof -
  let ?b = "Reserve b n"
  have "room ?b n" by (rule room_Reserve [OF assms(1)])
  then have "allocated ?b" "length (contents b) + n \<le> capacity ?b" "Stack_ok ?b"
    using assms(3) by (auto simp: room_def)
  then show ?thesis
    using assms(2)
    by (auto simp: write_pushed_def Push_def PushUnsafe_def Pop_def appends_def Stack_ok_def)
qed

lemma escape_length: "length (escaped c) \<le> 6"
  by (simp add: escaped_def Let_def)

lemma char_text_length: "0 < length (char_text c)" "length (char_text c) \<le> 6"
  using escape_length [of c] by (auto simp: char_text_def escaped_def Let_def)

lemma chars_text_length: "length (concat (map char_text s)) \<le> 6 * length s"
  using char_text_length(2) by (induction s) (auto intro: order_trans add_mono)

lemma PutsUnsafe_single: "PutUnsafe b c = PutsUnsafe b [c]"
  by (cases "PutUnsafe b c") simp_all

lemma write_chars_ok:
  assumes "room b (length (concat (map char_text s)) + k)"
  shows "\<exists>b'. write_chars [] \<lparr>src = s, tell = p\<rparr> (p + length s) b = Inr (True, b') \<and>
    contents b' = contents b @ concat (map char_text s) \<and> room b' k"
  using assms
proof (induction s arbitrary: b p)
  case Nil
  then show ?case by (simp add: write_chars.simps ScanWriteUnescapedString_def)
next
  case (Cons c s)
  have "room b (length (char_text c) + (length (concat (map char_text s)) + k))"
    using Cons.prems by (simp add: add.assoc)
  from PutsUnsafe_room [OF this] obtain b1 where b1: "PutsUnsafe b (char_text c) = Inr b1"
      "contents b1 = contents b @ char_text c" "room b1 (length (concat (map char_text s)) + k)" by blast
  have step: "write_chars [] \<lparr>src = c # s, tell = p\<rparr> (p + length (c # s)) b =
      write_chars [] \<lparr>src = s, tell = p + 1\<rparr> (p + 1 + length s) b1"
    using b1(1)
    by (subst write_chars.simps)
       (simp add: ScanWriteUnescapedString_def Let_def char_text_def PutsUnsafe_single del: PutsUnsafe.simps split: if_splits)
  show ?case
    using Cons.IH [OF b1(3), of "p + 1"] b1(2) unfolding step by auto
qed

lemma WriteString_ok:
  assumes "Stack_ok b" and "writable_string s"
  shows "\<exists>b'. WriteString [] s b = Inr (True, b') \<and> appends b (quote s) b'"
proof -
  let ?t = "concat (map char_text s)"
  have m: "(2 + length s * 6) mod 2 ^ 32 = 2 + 6 * length s"
    using assms(2) by (simp add: writable_string_def mult.commute)
  have "room (Reserve b (2 + 6 * length s)) (Suc (length ?t + (1 + (6 * length s - length ?t))))"
    using room_Reserve [OF assms(1), of "2 + 6 * length s"] chars_text_length [of s] by (simp add: algebra_simps)
  then obtain b1 where b1: "PutUnsafe (Reserve b (2 + 6 * length s)) (CHR 0x22) = Inr b1"
      "contents b1 = contents b @ [CHR 0x22]" "room b1 (length ?t + (1 + (6 * length s - length ?t)))"
    by (rule PutUnsafe_room) simp
  from write_chars_ok [OF b1(3), of 0] obtain b2 where b2:
      "write_chars [] (StringStream s) (length s) b1 = Inr (True, b2)"
      "contents b2 = contents b1 @ ?t" "room b2 (Suc (6 * length s - length ?t))"
    by (auto simp: StringStream_def)
  from b2(3) obtain b3 where "PutUnsafe b2 (CHR 0x22) = Inr b3" "contents b3 = contents b2 @ [CHR 0x22]"
      "room b3 (6 * length s - length ?t)"
    by (rule PutUnsafe_room)
  then show ?thesis
    unfolding WriteString_def m using b1 b2 by (simp add: appends_def quote_def room_def)
qed

lemma int_text_length: "- (10 ^ k) < i \<Longrightarrow> i < 10 ^ k \<Longrightarrow> 0 < k \<Longrightarrow> length (int_to_dec i) \<le> Suc k"
proof -
  assume a: "- (10 ^ k) < i" "i < 10 ^ k" "0 < k"
  have "nat \<bar>i\<bar> < 10 ^ k" using a(1,2) by (simp add: nat_less_iff abs_less_iff)
  then have "length (nat_to_dec (nat \<bar>i\<bar>)) \<le> k" using a(3) by (rule length_nat_to_dec_le)
  then show ?thesis by (auto simp: int_to_dec_def)
qed

lemma i64toa_dec: "i64toa w = int_to_dec (sint w)"
  unfolding i64toa_def int_to_dec_def u64toa_dec not_plus_1
  using unat_minus_neg [of w] unat_sint_nonneg [of w] by (simp add: not_less)

lemma i32toa_dec: "i32toa w = int_to_dec (sint w)"
  unfolding i32toa_def int_to_dec_def u32toa_dec not_plus_1
  using unat_minus_neg [of w] unat_sint_nonneg [of w] by (simp add: not_less)


section \<open>Values on the writer\<close>

text \<open>What separates a value from what is before it, and the level behind the value.\<close>

fun separator :: "Level list \<Rightarrow> string" where
  "separator [] = []"
| "separator (l # ls) =
     (if valueCount l = 0 then [] else if inArray l \<or> even (valueCount l) then '','' else '':'')"

fun counted :: "Level list \<Rightarrow> Level list" where
  "counted [] = []"
| "counted (l # ls) = l\<lparr>valueCount := valueCount l + 1\<rparr> # ls"

text \<open>A writer that takes a value of the type: the only root, an element, a string as name, a member value.\<close>

definition takes :: "Type \<Rightarrow> Writer \<Rightarrow> bool" where
  "takes type w \<longleftrightarrow>
     Stack_ok (os w) \<and> maxDecimalPlaces w = kDefaultMaxDecimalPlaces \<and>
     (case level_stack w of
        [] \<Rightarrow> \<not> hasRoot w
      | l # _ \<Rightarrow> inArray l \<or> odd (valueCount l) \<or> type = kStringType)"

text \<open>The writer that has written one more value, as the given text.\<close>

definition wrote :: "Writer \<Rightarrow> string \<Rightarrow> Writer \<Rightarrow> bool" where
  "wrote w cs w' \<longleftrightarrow>
     appends (os w) cs (os w') \<and> level_stack w' = counted (level_stack w) \<and>
     hasRoot w' = (hasRoot w \<or> level_stack w = []) \<and> maxDecimalPlaces w' = maxDecimalPlaces w"

lemma Prefix_ok:
  assumes "takes type w"
  shows "\<exists>w'. Prefix type w = Inr w' \<and> wrote w (separator (level_stack w)) w'"
proof (cases "level_stack w")
  case Nil
  then show ?thesis using assms by (auto simp: Prefix_def takes_def wrote_def appends_def)
next
  case (Cons l ls)
  have ok: "Stack_ok (os w)" and t: "inArray l \<or> odd (valueCount l) \<or> type = kStringType"
    using assms Cons by (auto simp: takes_def)
  show ?thesis
    using t Cons Put_appends [OF ok, of "CHR '',''"] Put_appends [OF ok, of "CHR '':''"] ok
    by (auto simp: Prefix_def wrote_def appends_def even_iff_mod_2_eq_zero)
qed

lemma write_value_ok:
  assumes "takes type w"
    and f: "\<And>w. Stack_ok (os w) \<Longrightarrow> maxDecimalPlaces w = kDefaultMaxDecimalPlaces \<Longrightarrow>
      \<exists>b. f w = Inr (True, b) \<and> appends (os w) cs b"
  shows "\<exists>w'. write_value type f w = Inr (True, w') \<and> wrote w (separator (level_stack w) @ cs) w'"
proof -
  obtain w1 where w1: "Prefix type w = Inr w1" "wrote w (separator (level_stack w)) w1"
    using Prefix_ok [OF assms(1)] by blast
  then have "Stack_ok (os w1)" "maxDecimalPlaces w1 = kDefaultMaxDecimalPlaces"
    using assms(1) by (auto simp: wrote_def appends_def takes_def)
  from f [OF this] w1 show ?thesis
    by (auto simp: write_value_def wrote_def appends_def)
qed

lemma always_ok: "\<exists>b'. g (os w) = Inr b' \<and> appends (os w) cs b' \<Longrightarrow> \<exists>b. always g w = Inr (True, b) \<and> appends (os w) cs b"
  by (auto simp: always_def)

lemma word_text_lengths:
  fixes v :: "32 word" and u :: u64
  shows "length (int_to_dec (sint v)) \<le> 11" "length (nat_to_dec (unat v)) \<le> 10"
    "length (int_to_dec (sint u)) \<le> 21" "length (nat_to_dec (unat u)) \<le> 20"
proof -
  show "length (int_to_dec (sint v)) \<le> 11"
    using int_text_length [of 10 "sint v"] sint_range_size [of v] by (simp add: word_size)
  show "length (int_to_dec (sint u)) \<le> 21"
    using int_text_length [of 20 "sint u"] sint_range_size [of u] by (simp add: word_size)
  show "length (nat_to_dec (unat v)) \<le> 10"
    using unsigned_less [of v, where ?'a = nat] by (intro length_nat_to_dec_le) simp_all
  show "length (nat_to_dec (unat u)) \<le> 20"
    using unat_u64_less [of u] by (intro length_nat_to_dec_le) simp_all
qed

lemma pushed_written:
  assumes "takes type w" and "length cs \<le> n" and "0 < n"
  shows "\<exists>w'. write_value type (always (write_pushed n cs)) w = Inr (True, w') \<and>
    wrote w (separator (level_stack w) @ cs) w'"
  by (rule write_value_ok [OF assms(1)], rule always_ok) (simp add: write_pushed_ok assms(2,3))

fun number_event_of :: "event \<Rightarrow> bool" where
  "number_event_of (EInt _) = True"
| "number_event_of (EUint _) = True"
| "number_event_of (EInt64 _) = True"
| "number_event_of (EUint64 _) = True"
| "number_event_of (EDouble d) = writable_double d"
| "number_event_of _ = False"

lemma number_written:
  assumes "takes kNumberType w" and "number_event_of e"
  shows "\<exists>w'. Writer_handler [] e w = Inr (True, w') \<and>
    wrote w (separator (level_stack w) @ number_text e) w'"
proof (cases e)
  case (EDouble d)
  then obtain t where t: "dtoa d kDefaultMaxDecimalPlaces = Some t" "length t \<le> 25" "\<not> IsNanOrInf (double_bits d)"
    using assms(2) by (auto simp: writable_double_def split: option.splits)
  show ?thesis
    unfolding EDouble Writer_handler.simps Writer_Double_def
  proof (rule write_value_ok [OF assms(1)])
    fix w :: Writer
    assume "Stack_ok (os w)" "maxDecimalPlaces w = kDefaultMaxDecimalPlaces"
    with write_pushed_ok [of "os w" t 25] t
    show "\<exists>b. WriteDouble [] (maxDecimalPlaces w) d (os w) = Inr (True, b) \<and> appends (os w) (number_text (EDouble d)) b"
      by (auto simp: WriteDouble_def Let_def)
  qed
qed (use assms(2) in \<open>simp_all add: Writer_Int_def Writer_Uint_def Writer_Int64_def Writer_Uint64_def
       WriteInt_def WriteUint_def WriteInt64_def WriteUint64_def i32toa_dec u32toa_dec i64toa_dec u64toa_dec
       pushed_written [OF assms(1)] word_text_lengths\<close>)

lemma string_written:
  assumes "takes kStringType w" and "writable_string s"
  shows "\<exists>w'. Writer_String [] s w = Inr (True, w') \<and> wrote w (separator (level_stack w) @ quote s) w'"
  unfolding Writer_String_def by (rule write_value_ok [OF assms(1)]) (rule WriteString_ok [OF _ assms(2)])

lemma literal_written:
  assumes "takes type w" and "length cs \<le> n" and f: "f = put_reserved n cs"
  shows "\<exists>w'. write_value type (always f) w = Inr (True, w') \<and> wrote w (separator (level_stack w) @ cs) w'"
  by (rule write_value_ok [OF assms(1)], rule always_ok) (simp add: f put_reserved_ok assms(2))

text \<open>The brackets of an object or array around what is written between them.\<close>

lemma bracket_ok:
  assumes "Stack_ok (os w)"
  shows "\<exists>b. put_bracket c w = Inr (True, w\<lparr>os := b\<rparr>) \<and> appends (os w) [c] b"
  using Put_appends [OF assms, of c] by (auto simp: put_bracket_def)

lemma open_written:
  assumes "takes type w"
  shows "\<exists>w'. rbind (Prefix type w) (\<lambda>w. put_bracket c (w\<lparr>level_stack := Level_new a # level_stack w\<rparr>)) = Inr (True, w') \<and>
    appends (os w) (separator (level_stack w) @ [c]) (os w') \<and>
    level_stack w' = Level_new a # counted (level_stack w) \<and>
    hasRoot w' = (hasRoot w \<or> level_stack w = []) \<and> maxDecimalPlaces w' = kDefaultMaxDecimalPlaces"
proof -
  obtain w1 where w1: "Prefix type w = Inr w1" "wrote w (separator (level_stack w)) w1"
    using Prefix_ok [OF assms] by blast
  let ?w = "w1\<lparr>level_stack := Level_new a # level_stack w1\<rparr>"
  have "Stack_ok (os ?w)" using w1(2) by (simp add: wrote_def appends_def)
  from bracket_ok [OF this, of c] obtain b where
    "put_bracket c ?w = Inr (True, ?w\<lparr>os := b\<rparr>)" "appends (os w1) [c] b" by auto
  then show ?thesis
    using w1 assms by (auto simp: wrote_def appends_def takes_def)
qed

text \<open>The writer inside an object or array: what was written since the level was opened.\<close>

definition inside :: "Writer \<Rightarrow> bool \<Rightarrow> nat \<Rightarrow> Level list \<Rightarrow> bool" where
  "inside w a n ls \<longleftrightarrow>
     Stack_ok (os w) \<and> maxDecimalPlaces w = kDefaultMaxDecimalPlaces \<and>
     level_stack w = \<lparr>valueCount = n, inArray = a\<rparr> # ls"

text \<open>Several values were written on a level.\<close>

definition wrote_items :: "Writer \<Rightarrow> string \<Rightarrow> nat \<Rightarrow> Writer \<Rightarrow> bool" where
  "wrote_items w cs k w' \<longleftrightarrow>
     appends (os w) cs (os w') \<and> hasRoot w' = hasRoot w \<and> maxDecimalPlaces w' = maxDecimalPlaces w \<and>
     (case level_stack w of [] \<Rightarrow> level_stack w' = []
      | l # ls \<Rightarrow> level_stack w' = l\<lparr>valueCount := valueCount l + k\<rparr> # ls)"

lemma wrote_inside:
  "wrote w cs w' \<Longrightarrow> inside w a n ls \<Longrightarrow> wrote_items w cs 1 w' \<and> inside w' a (n + 1) ls"
  by (auto simp: wrote_def inside_def wrote_items_def appends_def)

lemma wrote_items_trans:
  "wrote_items w cs k w1 \<Longrightarrow> wrote_items w1 cs' k' w2 \<Longrightarrow> wrote_items w (cs @ cs') (k + k') w2"
  by (auto simp: wrote_items_def appends_def add.assoc split: list.splits)

lemma inside_takes: "inside w a n ls \<Longrightarrow> a \<or> odd n \<or> type = kStringType \<Longrightarrow> takes type w"
  by (auto simp: inside_def takes_def)

lemma inside_separator:
  "inside w a n ls \<Longrightarrow> separator (level_stack w) = (if n = 0 then [] else if a \<or> even n then '','' else '':'')"
  by (simp add: inside_def)

text \<open>An object or array around its items.\<close>

lemma brackets_written:
  assumes w: "takes type w"
    and items: "\<And>w1. inside w1 a 0 (counted (level_stack w)) \<Longrightarrow>
      \<exists>w2. f w1 = Inr (True, w2) \<and> wrote_items w1 cs k w2"
    and k: "a \<or> even k"
    and close: "\<And>w2 l ls. level_stack w2 = l # ls \<Longrightarrow> inArray l = a \<Longrightarrow> a \<or> even (valueCount l) \<Longrightarrow>
      g w2 = put_bracket c' (w2\<lparr>level_stack := ls\<rparr>)"
  shows "\<exists>w'. proceed (rbind (Prefix type w) (\<lambda>w. put_bracket c (w\<lparr>level_stack := Level_new a # level_stack w\<rparr>)))
      (\<lambda>w. proceed (f w) g) = Inr (True, w') \<and> wrote w (separator (level_stack w) @ [c] @ cs @ [c']) w'"
proof -
  obtain w1 where w1: "rbind (Prefix type w) (\<lambda>w. put_bracket c (w\<lparr>level_stack := Level_new a # level_stack w\<rparr>)) = Inr (True, w1)"
      "appends (os w) (separator (level_stack w) @ [c]) (os w1)"
      "level_stack w1 = Level_new a # counted (level_stack w)" "hasRoot w1 = (hasRoot w \<or> level_stack w = [])"
      "maxDecimalPlaces w1 = kDefaultMaxDecimalPlaces"
    using open_written [OF w, of c a] by blast
  then have "inside w1 a 0 (counted (level_stack w))" by (simp add: inside_def appends_def Level_new_def)
  from items [OF this] obtain w2 where w2: "f w1 = Inr (True, w2)" "wrote_items w1 cs k w2" by blast
  let ?w = "w2\<lparr>level_stack := counted (level_stack w)\<rparr>"
  have lev: "level_stack w2 = \<lparr>valueCount = k, inArray = a\<rparr> # counted (level_stack w)"
    using w1(3) w2(2) by (simp add: wrote_items_def Level_new_def)
  have "Stack_ok (os ?w)" using w2(2) by (simp add: wrote_items_def appends_def)
  from bracket_ok [OF this, of c'] obtain b where
    "put_bracket c' ?w = Inr (True, ?w\<lparr>os := b\<rparr>)" "appends (os w2) [c'] b" by auto
  then show ?thesis
    using w w1 w2 close [OF lev] k by (auto simp: proceed_def wrote_def wrote_items_def appends_def takes_def split: list.splits)
qed

lemma proceed_True [simp]: "proceed (Inr (True, s)) f = f s"
  by (simp add: proceed_def)

lemma number_event_writable: "writable (VNumber f d) \<Longrightarrow> number_event_of (number_event (VNumber f d))"
  by (simp add: number_event_def split: if_splits)

lemma Accept_writes:
  "takes (GetType v) w \<Longrightarrow> writable v \<Longrightarrow>
     \<exists>w'. Accept (Writer_handler []) v w = Inr (True, w') \<and> wrote w (separator (level_stack w) @ json_text v) w'"
  "inside wm False n ls \<Longrightarrow> even n \<Longrightarrow> writable_members ms \<Longrightarrow>
     \<exists>w'. Accept_members (Writer_handler []) ms wm = Inr (True, w') \<and>
       wrote_items wm (members_text (n = 0) ms) (2 * length ms) w'"
  "inside we True m ls' \<Longrightarrow> writable_elements vs \<Longrightarrow>
     \<exists>w'. Accept_elements (Writer_handler []) vs we = Inr (True, w') \<and>
       wrote_items we (elements_text (m = 0) vs) (length vs) w'"
proof (induction v and ms and vs arbitrary: w and wm n ls and we m ls'
    rule: writable_writable_members_writable_elements.induct)
  case (1 ms)
  show ?case
    unfolding Accept.simps Writer_handler.simps Writer_StartObject_def json_text.simps
    by (rule brackets_written [where k = "2 * length ms"])
       (use 1 in \<open>auto simp: Writer_EndObject_def even_iff_mod_2_eq_zero dest: "1.IH"\<close>)
next
  case (2 vs)
  show ?case
    unfolding Accept.simps Writer_handler.simps Writer_StartArray_def json_text.simps
    by (rule brackets_written [where k = "length vs"])
       (use 2 in \<open>auto simp: Writer_EndArray_def dest: "2.IH"\<close>)
next
  case (4 f d)
  then show ?case using number_written [OF _ number_event_writable] by simp
next
  case (7 s v ms)
  obtain w1 where w1: "Writer_String [] s wm = Inr (True, w1)" "wrote wm (separator (level_stack wm) @ quote s) w1"
    using string_written [of wm s] inside_takes [OF "7.prems"(1)] "7.prems"(3) by auto
  note in1 = wrote_inside [OF w1(2) "7.prems"(1)]
  obtain w2 where w2: "Accept (Writer_handler []) v w1 = Inr (True, w2)"
      "wrote w1 (separator (level_stack w1) @ json_text v) w2"
    using "7.IH"(1) [of w1] inside_takes [OF in1 [THEN conjunct2]] "7.prems"(2,3) by auto
  note in2 = wrote_inside [OF w2(2) in1 [THEN conjunct2]]
  obtain w3 where w3: "Accept_members (Writer_handler []) ms w2 = Inr (True, w3)"
      "wrote_items w2 (members_text False ms) (2 * length ms) w3"
    using "7.IH"(2) [OF in2 [THEN conjunct2]] "7.prems"(2,3) by auto
  have sep: "separator (level_stack wm) = (if n = 0 then [] else '','')" "separator (level_stack w1) = '':''"
    using inside_separator [OF "7.prems"(1)] inside_separator [OF in1 [THEN conjunct2]] "7.prems"(2) by auto
  from wrote_items_trans [OF wrote_items_trans [OF in1 [THEN conjunct1] in2 [THEN conjunct1]] w3(2)]
  have "wrote_items wm (members_text (n = 0) ((s, v) # ms)) (2 * length ((s, v) # ms)) w3"
    by (simp add: sep)
  then show ?case using w1(1) w2(1) w3(1) by (simp add: Writer_Key_def)
next
  case (9 v vs)
  obtain w1 where w1: "Accept (Writer_handler []) v we = Inr (True, w1)"
      "wrote we (separator (level_stack we) @ json_text v) w1"
    using "9.IH"(1) [of we] inside_takes [OF "9.prems"(1)] "9.prems"(2) by auto
  note in1 = wrote_inside [OF w1(2) "9.prems"(1)]
  obtain w2 where w2: "Accept_elements (Writer_handler []) vs w1 = Inr (True, w2)"
      "wrote_items w1 (elements_text False vs) (length vs) w2"
    using "9.IH"(2) [OF in1 [THEN conjunct2]] "9.prems"(2) by auto
  from wrote_items_trans [OF in1 [THEN conjunct1] w2(2)]
  have "wrote_items we (elements_text (m = 0) (v # vs)) (length (v # vs)) w2"
    by (cases "m = 0") (simp_all add: inside_separator [OF "9.prems"(1)])
  then show ?case using w1(1) w2(1) by simp
qed (auto simp: Writer_Null_def Writer_Bool_def WriteNull_def WriteBool_def wrote_items_def appends_def inside_def
      fun_eq_iff numeral_eq_Suc string_written intro!: literal_written)

lemma fresh_takes: "takes type (Writer_new StringBuffer)"
  by (simp add: takes_def Writer_new_def StringBuffer_def Stack_ok_new)

lemma fresh_simps [simp]:
  "level_stack (Writer_new b) = []" "hasRoot (Writer_new b) = False" "os (Writer_new b) = b"
  "contents StringBuffer = []"
  by (simp_all add: Writer_new_def StringBuffer_def Stack_new_def)



end
