(* ===== verification/Json_Number_Text.thy ===== *)
theory Json_Number_Text
  imports Json_Text
begin

text \<open>
  How the reader scans decimal texts: integers of 32 and 64 bits with and without a sign, and
  decimals with a fraction whose digits fit into 53 bits.
\<close>

abbreviation text_at :: "string \<Rightarrow> nat \<Rightarrow> istream" where
  "text_at s p \<equiv> \<lparr>src = s, tell = p\<rparr>"

abbreviation num_at :: "string \<Rightarrow> nat \<Rightarrow> number_stream" where
  "num_at s p \<equiv> \<lparr>ns_is = text_at s p, pushed = []\<rparr>"

section \<open>Loops over digits\<close>

lemma num_at_simps [simp]:
  "ns_Peek (num_at (c # r) p) = c" "ns_Peek (num_at [] p) = CHR 0x00"
  "ns_TakePush [] (num_at (c # r) p) = num_at r (p + 1)" "ns_Take [] (num_at (c # r) p) = num_at r (p + 1)"
  by (simp_all add: ns_Peek_def ns_TakePush_def ns_Take_def backup_def pushOnTake_def)

text \<open>What may follow a number: neither a digit nor a point nor the mark of an exponent.\<close>

definition no_digit :: "string \<Rightarrow> bool" where
  "no_digit r \<longleftrightarrow> r = [] \<or> \<not> is_digit (hd r)"

definition delimited :: "string \<Rightarrow> bool" where
  "delimited r \<longleftrightarrow> no_digit r \<and> (r = [] \<or> hd r \<notin> {CHR ''.'', CHR ''e'', CHR ''E''})"

lemma no_digit_Peek: "no_digit r \<Longrightarrow> \<not> is_digit (ns_Peek (num_at r p))"
  by (cases r) (auto simp: no_digit_def is_digit_def)

definition scanned :: "nat \<Rightarrow> string \<Rightarrow> nat" where
  "scanned i ds = i * 10 ^ length ds + dec_to_nat ds"

lemma scanned_Nil [simp]: "scanned i [] = i"
  by (simp add: scanned_def dec_to_nat_def)

lemma scanned_Cons [simp]: "scanned i (c # ds) = scanned (i * 10 + digit_val c) ds"
  by (simp add: scanned_def dec_to_nat_Cons algebra_simps)

lemma scanned_append: "scanned i (ds @ es) = scanned (scanned i ds) es"
  by (induction ds arbitrary: i) simp_all

lemma scanned_ge: "i \<le> scanned i ds"
  by (simp add: scanned_def trans_le_add1)

lemma scanned_0: "scanned 0 ds = dec_to_nat ds"
  by (simp add: scanned_def)

lemma int_loop_scan:
  assumes "\<forall>c\<in>set ds. is_digit c" and "no_digit r" and "t < 10"
  shows "\<exists>ds1 ds2. ds = ds1 @ ds2 \<and>
    int_loop [] l t i sd (num_at (ds @ r) p) =
      (scanned i ds1, ds2 \<noteq> [], sd + length ds1, num_at (ds2 @ r) (p + length ds1)) \<and>
    (ds2 = [] \<longleftrightarrow> ds = [] \<or> scanned i ds \<le> l * 10 + t)"
  using assms(1)
proof (induction ds arbitrary: i sd p)
  case Nil
  then show ?case using no_digit_Peek [OF assms(2)] by (subst int_loop.simps) simp
next
  case (Cons c ds)
  let ?i = "i * 10 + digit_val c"
  have c: "is_digit c" and dv: "digit_val c < 10" using Cons.prems by (auto simp: is_digit_def digit_val_def)
  show ?case
  proof (cases "i \<ge> l \<and> (i \<noteq> l \<or> digit_val c > t)")
    case True
    then have "l * 10 + t < ?i" using assms(3) by auto
    then have "\<not> scanned i (c # ds) \<le> l * 10 + t" using scanned_ge [of ?i ds] by simp
    moreover have "int_loop [] l t i sd (num_at ((c # ds) @ r) p) = (i, True, sd, num_at ((c # ds) @ r) p)"
      using c True by (subst int_loop.simps) simp
    ultimately show ?thesis by (intro exI [of _ "[]"] exI [of _ "c # ds"]) simp
  next
    case False
    then have le: "?i \<le> l * 10 + t" using dv by auto
    have step: "int_loop [] l t i sd (num_at ((c # ds) @ r) p) = int_loop [] l t ?i (sd + 1) (num_at (ds @ r) (p + 1))"
      using c False by (subst int_loop.simps) auto
    have "\<forall>c\<in>set ds. is_digit c" using Cons.prems by simp
    from Cons.IH [OF this, of ?i "sd + 1" "p + 1"] obtain ds1 ds2 where
      IH: "ds = ds1 @ ds2"
      "int_loop [] l t ?i (sd + 1) (num_at (ds @ r) (p + 1)) =
        (scanned ?i ds1, ds2 \<noteq> [], sd + 1 + length ds1, num_at (ds2 @ r) (p + 1 + length ds1))"
      "ds2 = [] \<longleftrightarrow> ds = [] \<or> scanned ?i ds \<le> l * 10 + t" by (elim exE conjE)
    have "ds2 = [] \<longleftrightarrow> scanned i (c # ds) \<le> l * 10 + t"
      using IH(3) le by (cases "ds = []") simp_all
    then show ?thesis
      unfolding step IH(2) by (intro exI [of _ "c # ds1"] exI [of _ ds2]) (simp add: IH(1))
  qed
qed

lemma frac_loop_scan:
  assumes "\<forall>c\<in>set ds. is_digit c" and "no_digit r" and "scanned i ds < 2 ^ 53"
  shows "\<exists>sd'. frac_loop [] i ef sd (num_at (ds @ r) p) =
    (scanned i ds, ef - int (length ds), sd', num_at r (p + length ds))"
  using assms(1,3)
proof (induction ds arbitrary: i ef sd p)
  case Nil
  then show ?case using no_digit_Peek [OF assms(2)] by (subst frac_loop.simps) simp
next
  case (Cons c ds)
  have "i \<le> 0x1FFFFFFFFFFFFF" using Cons.prems(2) scanned_ge [of "i * 10 + digit_val c" ds] by simp
  then have "\<exists>sd'. frac_loop [] i ef sd (num_at ((c # ds) @ r) p) =
      frac_loop [] (i * 10 + digit_val c) (ef - 1) sd' (num_at (ds @ r) (p + 1))"
    using Cons.prems(1) by (subst frac_loop.simps) (auto simp: Let_def)
  then obtain sd' where "frac_loop [] i ef sd (num_at ((c # ds) @ r) p) =
      frac_loop [] (i * 10 + digit_val c) (ef - 1) sd' (num_at (ds @ r) (p + 1))" by blast
  then show ?case
    using Cons.prems Cons.IH [of "i * 10 + digit_val c" "ef - 1" sd' "p + 1"] by (simp add: algebra_simps)
qed

lemma frac_double_loop_stop: "no_digit r \<Longrightarrow> frac_double_loop [] d ef sd (num_at r p) = (d, ef, sd, num_at r p)"
  using no_digit_Peek by (subst frac_double_loop.simps) simp

section \<open>The integer part\<close>

definition int_text :: "string \<Rightarrow> bool" where
  "int_text ip \<longleftrightarrow> ip \<noteq> [] \<and> (\<forall>c\<in>set ip. is_digit c) \<and> (ip = ''0'' \<or> hd ip \<noteq> CHR ''0'')"

text \<open>The largest magnitudes of 32 and 64 bits.\<close>

definition max32 :: "bool \<Rightarrow> nat" where "max32 neg = (if neg then 2 ^ 31 else 2 ^ 32 - 1)"
definition max64 :: "bool \<Rightarrow> nat" where "max64 neg = (if neg then 2 ^ 63 else 2 ^ 64 - 1)"

definition int_scanned :: "bool \<Rightarrow> nat \<Rightarrow> number_scan \<Rightarrow> bool" where
  "int_scanned neg n m \<longleftrightarrow>
     minus m = neg \<and> \<not> useDouble m \<and> \<not> useNanOrInf m \<and> expFrac m = 0 \<and> num_exp m = 0 \<and>
     use64bit m = (n > max32 neg) \<and> (if use64bit m then num_i64 m else num_i m) = n"

lemma int64_scan:
  assumes "\<forall>c\<in>set ds. is_digit c" and "no_digit r" and "ds \<noteq> []" and "scanned i ds \<le> max64 neg"
    and m: "use64bit m" "minus m = neg" "num_i64 m = i"
  shows "\<exists>sd. parse_int64 [] m (num_at (ds @ r) p) =
    (m\<lparr>num_i64 := scanned i ds, significandDigit := sd, useDouble := False\<rparr>, num_at r (p + length ds))"
proof -
  let ?l = "if neg then 0x0CCCCCCCCCCCCCCC else 0x1999999999999999" and ?t = "if neg then 8 else 5"
  have "scanned i ds \<le> ?l * 10 + ?t" using assms(4) by (cases neg) (simp_all add: max64_def)
  then have "int_loop [] ?l ?t i (significandDigit m) (num_at (ds @ r) p) =
      (scanned i ds, False, significandDigit m + length ds, num_at r (p + length ds))"
    using int_loop_scan [OF assms(1,2), of ?t ?l i "significandDigit m" p] by auto
  then show ?thesis
    using m by (cases neg) (auto simp: parse_int64_def)
qed

lemma int_scan:
  assumes ip: "int_text ip" and r: "no_digit r" and le: "dec_to_nat ip \<le> max64 neg"
  shows "\<exists>m1 s1 m2. parse_int [] (num_init\<lparr>minus := neg\<rparr>) (num_at (ip @ r) p) = Inr (m1, s1) \<and>
    parse_int64 [] m1 s1 = (m2, num_at r (p + length ip)) \<and> int_scanned neg (dec_to_nat ip) m2"
proof (cases "ip = ''0''")
  case True
  then show ?thesis
    by (simp add: parse_int_def parse_int64_def int_scanned_def num_init_def dec_to_nat_def digit_val_def)
next
  case False
  then obtain c ds where cd: "ip = c # ds" "is_digit c" "c \<noteq> CHR ''0''" "\<forall>c\<in>set ds. is_digit c"
    using ip by (cases ip) (auto simp: int_text_def)
  have n: "dec_to_nat ip = scanned (digit_val c) ds"
    using scanned_0 [of ip] cd(1) by simp
  let ?l = "if neg then 214748364 else 429496729" and ?t = "if neg then 8 else 5"
  have t: "?t < (10 :: nat)" by simp
  obtain ds1 ds2 where d: "ds = ds1 @ ds2"
    "int_loop [] ?l ?t (digit_val c) 0 (num_at (ds @ r) (p + 1)) =
      (scanned (digit_val c) ds1, ds2 \<noteq> [], length ds1, num_at (ds2 @ r) (p + 1 + length ds1))"
    "ds2 = [] \<longleftrightarrow> ds = [] \<or> scanned (digit_val c) ds \<le> ?l * 10 + ?t"
    using int_loop_scan [OF cd(4) r t, of ?l "digit_val c" 0 "p + 1"] by (elim exE conjE) (simp only: add_0)
  have max: "?l * 10 + ?t = max32 neg" by (simp add: max32_def)
  have d3: "ds2 = [] \<longleftrightarrow> ds = [] \<or> dec_to_nat ip \<le> max32 neg" using d(3) unfolding max n .
  have "digit_val c < 10" using cd(2) by (auto simp: is_digit_def digit_val_def)
  then have small: "digit_val c \<le> max32 neg" by (simp add: max32_def)
  let ?m = "num_init\<lparr>minus := neg, num_i := scanned (digit_val c) ds1,
      num_i64 := (if ds2 \<noteq> [] then scanned (digit_val c) ds1 else 0), use64bit := ds2 \<noteq> [], significandDigit := length ds1\<rparr>"
  have 1: "parse_int [] (num_init\<lparr>minus := neg\<rparr>) (num_at (ip @ r) p) = Inr (?m, num_at (ds2 @ r) (p + 1 + length ds1))"
    using cd d(2) by (cases neg) (simp_all add: parse_int_def)
  show ?thesis
  proof (cases "ds2 = []")
    case True
    then have "scanned (digit_val c) ds \<le> max32 neg" using d3 small n by (cases "ds = []") simp_all
    then have "int_scanned neg (dec_to_nat ip) ?m" using True d(1) n by (simp add: int_scanned_def num_init_def)
    moreover have "parse_int64 [] ?m (num_at (ds2 @ r) (p + 1 + length ds1)) = (?m, num_at r (p + length ip))"
      using True d(1) cd(1) by (simp add: parse_int64_def num_init_def)
    ultimately show ?thesis using 1 by (intro exI conjI)
  next
    case over: False
    have dg: "\<forall>c\<in>set ds2. is_digit c" using cd(4) d(1) by simp
    have tot: "scanned (scanned (digit_val c) ds1) ds2 = dec_to_nat ip" using n d(1) by (simp add: scanned_append)
    have len: "p + 1 + length ds1 + length ds2 = p + length ip" using cd(1) d(1) by simp
    have m: "use64bit ?m" "minus ?m = neg" "num_i64 ?m = scanned (digit_val c) ds1"
      using over by (simp_all add: num_init_def)
    obtain sd where
      2: "parse_int64 [] ?m (num_at (ds2 @ r) (p + 1 + length ds1)) =
        (?m\<lparr>num_i64 := dec_to_nat ip, significandDigit := sd, useDouble := False\<rparr>, num_at r (p + length ip))"
      by (rule exE [OF int64_scan [OF dg r over le [folded tot] m, of "p + 1 + length ds1", unfolded tot len]])
    have "ds \<noteq> []" using over d(1) by simp
    with over d3 have "max32 neg < dec_to_nat ip" unfolding not_le [symmetric] by blast
    then have "int_scanned neg (dec_to_nat ip)
        (?m\<lparr>num_i64 := dec_to_nat ip, significandDigit := sd, useDouble := False\<rparr>)"
      using over by (simp add: int_scanned_def num_init_def)
    with 1 2 show ?thesis by (intro exI conjI)
  qed
qed

section \<open>Whole numbers and decimals\<close>

text \<open>The reader scans the text as a number with the given event, whatever delimiter follows it.\<close>

definition reads :: "string \<Rightarrow> event \<Rightarrow> bool" where
  "reads t ev \<longleftrightarrow>
     (\<forall>r p. delimited r \<longrightarrow>
        (\<exists>m s. ScanNumber [] (text_at (t @ r) p) = Inr (m, s) \<and> ns_is s = text_at r (p + length t) \<and>
               number_token [] p m s = Inr ev))"

definition sign_text :: "bool \<Rightarrow> string" where
  "sign_text neg = (if neg then ''-'' else [])"

definition int_event :: "bool \<Rightarrow> nat \<Rightarrow> event" where
  "int_event neg n =
     (if neg then (if n \<le> max32 neg then EInt (- of_nat n) else EInt64 (- of_nat n))
      else (if n \<le> max32 neg then EUint (of_nat n) else EUint64 (of_nat n)))"

lemma minus_scan:
  assumes "int_text ip"
  shows "parse_minus [] (num_at (sign_text neg @ ip @ r) p) =
    (num_init\<lparr>minus := neg\<rparr>, num_at (ip @ r) (p + length (sign_text neg)))"
proof -
  obtain c ds where "ip = c # ds" "is_digit c" using assms by (cases ip) (auto simp: int_text_def)
  then show ?thesis
    using digit_not_sign [of c] by (cases neg) (auto simp: parse_minus_def ns_Consume_def sign_text_def num_init_def)
qed

lemma no_exponent:
  assumes "delimited r"
  shows "parse_exp [] q m (num_at r p) = Inr (m, num_at r p)"
  using assms by (cases r) (auto simp: parse_exp_def exp_mark_def ns_Consume_def delimited_def)

lemma no_fraction:
  assumes "delimited r"
  shows "parse_frac [] m (num_at r p) = Inr (m\<lparr>decimalPosition := 0\<rparr>, num_at r p)"
  using assms by (cases r) (auto simp: parse_frac_def ns_Consume_def delimited_def)

lemma reads_int:
  assumes ip: "int_text ip" and le: "dec_to_nat ip \<le> max64 neg"
  shows "reads (sign_text neg @ ip) (int_event neg (dec_to_nat ip))"
  unfolding reads_def
proof (intro allI impI)
  fix r p
  assume r: "delimited r"
  then have nd: "no_digit r" by (simp add: delimited_def)
  obtain m1 s1 m where m: "parse_int [] (num_init\<lparr>minus := neg\<rparr>) (num_at (ip @ r) (p + length (sign_text neg))) = Inr (m1, s1)"
    "parse_int64 [] m1 s1 = (m, num_at r (p + length (sign_text neg) + length ip))" "int_scanned neg (dec_to_nat ip) m"
    using int_scan [OF ip nd le] by blast
  let ?s = "num_at r (p + length (sign_text neg @ ip))"
  have "ScanNumber [] (text_at ((sign_text neg @ ip) @ r) p) = Inr (m\<lparr>decimalPosition := 0\<rparr>, ?s)"
    using m minus_scan [OF ip, of neg r p]
    by (simp add: ScanNumber_def Let_def parse_big_def int_scanned_def no_fraction [OF r] no_exponent [OF r] add.assoc)
  moreover have "number_token [] p (m\<lparr>decimalPosition := 0\<rparr>) ?s = Inr (int_event neg (dec_to_nat ip))"
    using m(3) by (auto simp: number_token_def int_scanned_def int_event_def split: if_splits)
  ultimately show "\<exists>m s. ScanNumber [] (text_at ((sign_text neg @ ip) @ r) p) = Inr (m, s) \<and>
      ns_is s = text_at r (p + length (sign_text neg @ ip)) \<and> number_token [] p m s = Inr (int_event neg (dec_to_nat ip))"
    by (intro exI conjI) simp_all
qed

lemma round_ratio_small:
  assumes "p < 2 ^ 53" and "0 < q"
  obtains k e where "round_ratio False p q = Fin False k e" "valid_double (Fin False k e)"
proof -
  have "finite_double (round_ratio False p q)"
  proof (cases "p = 0")
    case False
    then have "(2 :: rat) powi ilog2 p q \<le> of_nat p / of_nat q" using assms(2) by (simp add: ilog2_bounds)
    also have "\<dots> \<le> of_nat p / 1" using assms(2) by (intro divide_left_mono) simp_all
    also have "\<dots> = of_nat p" by simp
    also have "\<dots> < of_nat (2 ^ 53)" using assms(1) by (simp only: of_nat_less_iff)
    finally have "(2 :: rat) powi ilog2 p q < 2 powi 53" by (simp add: power_int_def)
    then have "ilog2 p q < 53" by (simp only: powi_less_iff)
    then have "quantum p q \<le> 0" by (simp add: quantum_def)
    then show ?thesis using False by (simp add: round_ratio_eq)
  qed (simp add: round_ratio_def)
  then obtain k e where "round_ratio False p q = Fin False k e" by (rule round_ratio_Fin)
  then show ?thesis using that valid_round_ratio [OF assms(2), of False p] by simp
qed

lemma below_max:
  assumes "valid_double (Fin False k e)"
  shows "\<not> dlt double_max (Fin False k e)"
proof -
  have "of_nat k * 2 powi e \<le> (of_nat (2 ^ 53 - 1) :: rat) * 2 powi 971"
  proof (rule mult_mono)
    show "of_nat k \<le> (of_nat (2 ^ 53 - 1) :: rat)" using assms by (subst of_nat_le_iff) simp
    show "(2 :: rat) powi e \<le> 2 powi 971" using assms by (intro power_int_increasing) simp_all
  qed simp_all
  then have "dge double_max (Fin False k e)" by (simp add: double_max_def dge_Fin dval_def signed_def)
  then show ?thesis by (auto simp: dge_def dlt_def)
qed

lemma dneg_round_ratio: "dneg (round_ratio False p q) = round_ratio True p q"
  by (cases "p = 0") (simp_all add: round_ratio_eq round_ratio_def [of _ 0])

lemma reads_decimal:
  assumes ip: "int_text ip" and fp: "fp \<noteq> []" "\<forall>c\<in>set fp. is_digit c" "length fp \<le> 22"
    and le: "dec_to_nat (ip @ fp) < 2 ^ 53"
  shows "reads (sign_text neg @ ip @ CHR ''.'' # fp)
    (EDouble (round_ratio neg (dec_to_nat (ip @ fp)) (10 ^ length fp)))"
  unfolding reads_def
proof (intro allI impI)
  fix r p
  let ?t = "sign_text neg @ ip @ CHR ''.'' # fp" and ?n = "dec_to_nat (ip @ fp)"
  assume r: "delimited r"
  then have nd: "no_digit r" by (simp add: delimited_def)
  have pt: "no_digit (CHR ''.'' # fp @ r)" by (simp add: no_digit_def is_digit_def)
  have sc: "scanned (dec_to_nat ip) fp = ?n" by (simp add: scanned_def dec_to_nat_append)
  have "dec_to_nat ip \<le> ?n" using scanned_ge [of "dec_to_nat ip" fp] sc by simp
  then have "dec_to_nat ip \<le> max64 neg" using le by (simp add: max64_def)
  from int_scan [OF ip pt this, of "p + length (sign_text neg)"] obtain m1 s1 m where
    m: "parse_int [] (num_init\<lparr>minus := neg\<rparr>) (num_at (ip @ CHR ''.'' # fp @ r) (p + length (sign_text neg))) = Inr (m1, s1)"
    "parse_int64 [] m1 s1 = (m, num_at (CHR ''.'' # fp @ r) (p + length (sign_text neg) + length ip))"
    "int_scanned neg (dec_to_nat ip) m" by blast
  let ?q = "p + length (sign_text neg) + length ip + 1"
  obtain sd where fl: "frac_loop [] (dec_to_nat ip) 0 (significandDigit m) (num_at (fp @ r) ?q) =
      (?n, - int (length fp), sd, num_at r (?q + length fp))"
    using frac_loop_scan [OF fp(2) nd, of "dec_to_nat ip" 0 "significandDigit m" ?q] le sc by auto
  have dg: "is_digit (ns_Peek (num_at (fp @ r) ?q))" using fp by (cases fp) auto
  have k: "(if use64bit m then num_i64 m else num_i m) = dec_to_nat ip" "\<not> useDouble m" "\<not> useNanOrInf m"
    using m(3) unfolding int_scanned_def by blast+
  let ?m = "m\<lparr>decimalPosition := 0, num_i64 := ?n, expFrac := - int (length fp), significandDigit := sd,
      num_d := int_to_double (int ?n), useDouble := True\<rparr>"
  have "parse_frac [] m (num_at (CHR ''.'' # fp @ r) (?q - 1)) = Inr (?m, num_at r (?q + length fp))"
    using fl dg k frac_double_loop_stop [OF nd]
    by (cases "use64bit m") (simp_all add: parse_frac_def ns_Consume_def Let_def)
  then have "ScanNumber [] (text_at (?t @ r) p) = Inr (?m, num_at r (p + length ?t))"
    using m minus_scan [OF ip, of neg "CHR ''.'' # fp @ r" p]
    by (simp add: ScanNumber_def Let_def parse_big_def int_scanned_def no_exponent [OF r] add.assoc)
  moreover have "number_token [] p ?m (num_at r (p + length ?t)) = Inr (EDouble (round_ratio neg ?n (10 ^ length fp)))"
  proof -
    obtain k e where "round_ratio False ?n (10 ^ length fp) = Fin False k e" "valid_double (Fin False k e)"
      using round_ratio_small [OF le, of "10 ^ length fp"] by auto
    then have "\<not> dlt double_max (round_ratio False ?n (10 ^ length fp))" by (simp add: below_max del: valid_double.simps)
    moreover have "StrtodNormalPrecision (int_to_double (int ?n)) (- int (length fp)) = Inr (round_ratio False ?n (10 ^ length fp))"
      using FastPath_exact [OF le, of "- int (length fp)"] fp(3) by (simp add: StrtodNormalPrecision_def)
    ultimately show ?thesis
      using m(3) by (cases neg) (simp_all add: number_token_def of_result_def int_scanned_def dneg_round_ratio)
  qed
  ultimately show "\<exists>m s. ScanNumber [] (text_at (?t @ r) p) = Inr (m, s) \<and>
      ns_is s = text_at r (p + length ?t) \<and> number_token [] p m s = Inr (EDouble (round_ratio neg ?n (10 ^ length fp)))"
    by (intro exI conjI) simp_all
qed

section \<open>The flags of integers\<close>

unbundle bit_operations_syntax

lemma clear_high: "(w :: 'a::len word) AND NOT (mask n) = 0 \<longleftrightarrow> n \<ge> LENGTH('a) \<or> unat w < 2 ^ n"
proof -
  have "w AND NOT (mask n) = 0 \<longleftrightarrow> take_bit n w = w"
    by (auto simp: bit_eq_iff bit_simps)
  also have "\<dots> \<longleftrightarrow> n \<ge> LENGTH('a) \<or> unat w < 2 ^ n"
    unfolding word_unat_eq_iff unsigned_take_bit_eq by (cases "n \<ge> LENGTH('a)")
      (auto simp: take_bit_nat_eq_self_iff intro: less_le_trans [OF unsigned_less])
  finally show ?thesis .
qed

lemma flag_masks:
  "0xFFFFFFFF00000000 = NOT (mask 32 :: u64)" "0xFFFFFFFF80000000 = NOT (mask 31 :: u64)"
  "0x8000000000000000 = NOT (mask 63 :: u64)" "0x80000000 = NOT (mask 31 :: 32 word)"
  by (simp_all add: mask_eq_exp_minus_1)

lemma flag_tests:
  "(u :: u64) AND 0xFFFFFFFF00000000 = 0 \<longleftrightarrow> unat u < 2 ^ 32"
  "u AND 0xFFFFFFFF80000000 = 0 \<longleftrightarrow> unat u < 2 ^ 31"
  "u AND 0x8000000000000000 = 0 \<longleftrightarrow> unat u < 2 ^ 63"
  "(v :: 32 word) AND 0x80000000 = 0 \<longleftrightarrow> unat v < 2 ^ 31"
  unfolding flag_masks clear_high by simp_all

text \<open>The flags of an unsigned value by its range.\<close>

definition uint_flags :: "nat \<Rightarrow> nat" where
  "uint_flags n = (if n < 2 ^ 31 then 0x1F6 else if n < 2 ^ 32 then 0x1D6 else if n < 2 ^ 63 then 0x196 else 0x116)"

lemma Value_uint64_flags: "Value_uint64 u = VNumber (uint_flags (unat u)) (NBits u)"
  by (simp add: Value_uint64_def flag_tests uint_flags_def number_flags)

lemma unat_ucast_32: "unat (ucast (v :: 32 word) :: u64) = unat v"
  by (simp add: unsigned_ucast_eq take_bit_nat_eq_self order.strict_trans2 [OF unsigned_less])

lemma Value_unsigned_eq: "Value_unsigned v = Value_uint64 (ucast v)"
  using unsigned_less [of v, where ?'a = nat]
  by (simp add: Value_uint64_flags Value_unsigned_def flag_tests uint_flags_def number_flags unat_ucast_32)

lemma sint_of_int_small:
  "- (2 ^ (LENGTH('a) - 1)) \<le> k \<Longrightarrow> k < 2 ^ (LENGTH('a) - 1) \<Longrightarrow> sint (word_of_int k :: 'a::len word) = k"
  by (simp add: sint_sbintrunc' signed_take_bit_int_eq_self)

lemma sint_nonneg_iff: "0 \<le> sint (w :: 'a::len word) \<longleftrightarrow> unat w < 2 ^ (LENGTH('a) - 1)"
proof
  assume "0 \<le> sint w"
  then show "unat w < 2 ^ (LENGTH('a) - 1)"
    using unat_sint_nonneg [of w] sint_lt [of w] by (simp add: nat_less_iff)
next
  assume "unat w < 2 ^ (LENGTH('a) - 1)"
  then have "int (unat w) < int (2 ^ (LENGTH('a) - 1))" by (simp only: of_nat_less_iff)
  then have "uint w < 2 ^ (LENGTH('a) - 1)" by simp
  moreover have "- (2 ^ (LENGTH('a) - 1)) \<le> uint w" by (rule order.trans [of _ 0]) simp_all
  ultimately have "sint w = uint w" using sint_of_int_small [of "uint w", where ?'a = 'a] by simp
  then show "0 \<le> sint w" by simp
qed

lemma Value_int64_nonneg: "0 \<le> sint i \<Longrightarrow> Value_int64 i = Value_uint64 i"
  by (auto simp: Value_uint64_flags Value_int64_def flag_tests uint_flags_def number_flags sint_nonneg_iff)

lemma Value_int64_neg:
  "sint i < 0 \<Longrightarrow> Value_int64 i = VNumber (if - (2 ^ 31) \<le> sint i then 0xB6 else 0x96) (NBits i)"
  by (simp add: Value_int64_def number_flags)

lemma Value_int_neg: "sint i < 0 \<Longrightarrow> Value_int i = Value_int64 (scast i)"
proof -
  assume a: "sint i < 0"
  have "sint (scast i :: u64) = sint i" by (simp add: signed_scast_eq signed_take_bit_int_eq_self sint_ge sint_lt order.trans [OF _ sint_ge] order.strict_trans2 [OF sint_lt])
  then show ?thesis
    using a sint_ge [of i] by (simp add: Value_int64_neg) (simp add: Value_int_def number_flags)
qed

section \<open>The texts of integers\<close>

lemma uint_text: "number_text (number_event (Value_uint64 u)) = nat_to_dec (unat u)"
proof -
  have c: "unat (ucast u :: 32 word) = unat u" if "unat u < 2 ^ 32"
    using that by (simp add: unsigned_ucast_eq take_bit_nat_eq_self)
  moreover have "int_to_dec (sint (ucast u :: 32 word)) = nat_to_dec (unat u)" if "unat u < 2 ^ 31"
    using that c sint_nonneg_iff [of "ucast u :: 32 word"] unat_sint_nonneg [of "ucast u :: 32 word"]
    by (simp add: int_to_dec_def)
  moreover have "int_to_dec (sint u) = nat_to_dec (unat u)" if "unat u < 2 ^ 63"
    using that sint_nonneg_iff [of u] unat_sint_nonneg [of u] by (simp add: int_to_dec_def)
  ultimately show ?thesis
    by (simp add: Value_uint64_flags uint_flags_def number_event_def IsDouble_def IsInt_def IsUint_def IsInt64_def
        number_flags)
qed

lemma sint_ucast_32: "- (2 ^ 31) \<le> sint (i :: u64) \<Longrightarrow> sint i < 2 ^ 31 \<Longrightarrow> sint (ucast i :: 32 word) = sint i"
proof -
  assume a: "- (2 ^ 31) \<le> sint i" "sint i < 2 ^ 31"
  have "(ucast i :: 32 word) = word_of_int (sint i)"
    unfolding scast_eq [symmetric] by (rule bit_word_eqI) (simp add: bit_simps)
  with a show ?thesis using sint_of_int_small [of "sint i", where ?'a = 32] by (simp only:) simp
qed

lemma int_neg_text: "sint i < 0 \<Longrightarrow> number_text (number_event (Value_int64 i)) = int_to_dec (sint i)"
  by (auto simp: Value_int64_neg number_event_def IsDouble_def IsInt_def IsUint_def IsInt64_def number_flags
      sint_ucast_32)

lemma doc_uint:
  assumes "n \<le> max64 False"
  shows "Document_handler (int_event False n) stk = Inr (True, Value_uint64 (of_nat n) # stk)"
proof -
  have "(ucast (of_nat n :: 32 word) :: u64) = of_nat n" if "n < 2 ^ 32"
    using that by (simp add: word_unat_eq_iff unat_ucast_32 unat_of_nat)
  then show ?thesis by (simp add: int_event_def max32_def doc_push_def Value_unsigned_eq)
qed

lemma doc_neg:
  assumes "0 < n" and "n \<le> max64 True"
  shows "Document_handler (int_event True n) stk = Inr (True, Value_int64 (- of_nat n) # stk)"
proof (cases "n \<le> max32 True")
  case True
  then have "sint (word_of_int (- int n) :: 32 word) = - int n"
    by (intro sint_of_int_small) (simp_all add: max32_def)
  moreover have "(- of_nat n :: 32 word) = word_of_int (- int n)" by simp
  ultimately have s: "sint (- of_nat n :: 32 word) = - int n" by (simp only:)
  then have "(scast (- of_nat n :: 32 word) :: u64) = - of_nat n" by (simp add: scast_eq)
  then show ?thesis using True s assms(1) by (simp add: int_event_def doc_push_def Value_int_neg)
qed (simp add: int_event_def doc_push_def)

end
