(* ===== verification/Json_Round_Trip.thy ===== *)
theory Json_Round_Trip
  imports Json_Number_Text
begin

text \<open>
  Reading the text of a value gives the value back: strings with their escapes, integers of every
  width with the flags they were built with, nested objects and arrays, and doubles that are
  printed without an exponent, which come back as the double nearest to the printed decimal.
\<close>

section \<open>Strings\<close>

text \<open>The characters that are copied, and the two forms of escape sequences for the others.\<close>

lemma escape_none: "\<forall>n\<in>set [0..<256]. escape ! n = CHR 0x00 \<longleftrightarrow> 32 \<le> n \<and> n \<noteq> 34 \<and> n \<noteq> 92"
  by code_simp

definition escape_form :: "nat \<Rightarrow> bool" where
  "escape_form n =
     (if escape ! n = CHR ''u''
      then hex4_digit (hexDigits ! drop_bit 4 n) = Some (n div 16) \<and> hex4_digit (hexDigits ! (n AND 0xF)) = Some (n mod 16)
      else unescape ! of_char (escape ! n) = char_of n)"

lemma escape_forms: "\<forall>n\<in>set ([0..<32] @ [34, 92]). escape_form n"
  by code_simp

lemma escape_null: "escape ! 0 = CHR ''u''"
  by code_simp

lemma escape_none_char:
  "escape ! of_char c = CHR 0x00 \<longleftrightarrow> 32 \<le> (of_char c :: nat) \<and> c \<noteq> CHR 0x22 \<and> c \<noteq> CHR 0x5C"
proof -
  have "of_char c \<in> set [0..<256]" unfolding set_upt by simp
  with escape_none have "escape ! of_char c = CHR 0x00 \<longleftrightarrow> 32 \<le> (of_char c :: nat) \<and> of_char c \<noteq> (34 :: nat) \<and> of_char c \<noteq> (92 :: nat)"
    by (rule bspec)
  moreover have "of_char c = (34 :: nat) \<longleftrightarrow> c = CHR 0x22" "of_char c = (92 :: nat) \<longleftrightarrow> c = CHR 0x5C"
    using of_char_eq_iff [where ?'a = nat, of c "CHR 0x22"] of_char_eq_iff [where ?'a = nat, of c "CHR 0x5C"] by simp_all
  ultimately show ?thesis by blast
qed

lemma escape_form_char: "escape ! of_char c \<noteq> CHR 0x00 \<Longrightarrow> escape_form (of_char c)"
proof -
  assume "escape ! of_char c \<noteq> CHR 0x00"
  then have "of_char c \<in> set ([0..<32] @ [34, 92 :: nat])" unfolding set_append set_upt by (auto simp: escape_none_char)
  with escape_forms show ?thesis by (rule bspec)
qed

lemma unescape_u: "unescape ! 117 = CHR 0x00"
  by code_simp

lemma hex4_zero: "hex4_digit (CHR ''0'') = Some 0"
  by (simp add: hex4_digit_def)

lemma Encode_ascii: "n < 128 \<Longrightarrow> Encode n = [char_of n]"
  by (simp add: Encode_def ch_def and_255)

lemma ParseUnicode_byte:
  assumes "hex4_digit h = Some (n div 16)" and "hex4_digit l = Some (n mod 16)" and "n < 128"
  shows "ParseUnicode (text_at (CHR ''0'' # CHR ''0'' # h # l # r) p) off = Inr (n, text_at r (p + 4))"
proof -
  have "push_bit 4 (n div 16) + n mod 16 = n" by (simp add: push_bit_eq_mult)
  then have "hex4_loop (Suc (Suc (Suc (Suc 0)))) off 0 (text_at (CHR ''0'' # CHR ''0'' # h # l # r) p) =
      Inr (n, text_at r (p + 4))"
    using assms(1,2) by (simp add: hex4_zero)
  then have "ParseHex4 (text_at (CHR ''0'' # CHR ''0'' # h # l # r) p) off = Inr (n, text_at r (p + 4))"
    unfolding ParseHex4_def by (simp only: numeral_eq_Suc pred_numeral_simps numeral_One BitM.simps One_nat_def)
  then show ?thesis using assms(3) by (simp add: ParseUnicode_def)
qed

lemma escape_read:
  assumes "escape ! of_char c \<noteq> CHR 0x00"
  shows "ParseEscape [] (text_at (escaped c @ r) p) = Inr ([c], text_at r (p + length (escaped c)))"
proof (cases "escape ! of_char c = CHR ''u''")
  case True
  let ?h = "hexDigits ! drop_bit 4 (of_char c)" and ?l = "hexDigits ! (of_char c AND 15)"
  have f: "hex4_digit ?h = Some (of_char c div 16)" "hex4_digit ?l = Some (of_char c mod 16)"
    using escape_form_char [OF assms] True by (simp_all add: escape_form_def)
  have "of_char c < (128 :: nat)" using assms by (auto simp: escape_none_char)
  then have u: "ParseUnicode (text_at (CHR ''0'' # CHR ''0'' # ?h # ?l # r) (p + 2)) p = Inr (of_char c, text_at r (p + 2 + 4))"
      "Encode (of_char c) = [c]"
    using ParseUnicode_byte [OF f] by (auto simp: Encode_ascii)
  have "escaped c = [CHR 0x5C, CHR ''u'', CHR ''0'', CHR ''0'', ?h, ?l]"
    using True by (simp add: escaped_def Let_def)
  then show ?thesis using u by (simp add: ParseEscape_def Let_def unescape_u)
next
  case False
  then have "unescape ! of_char (escape ! of_char c) = c"
    using escape_form_char [OF assms] by (simp add: escape_form_def)
  moreover have "c \<noteq> CHR 0x00" using False escape_null by auto
  ultimately show ?thesis using False by (simp add: escaped_def ParseEscape_def Let_def)
qed

lemma string_read:
  "ParseStringToStream [] (text_at (concat (map char_text s) @ CHR 0x22 # r) p) out =
     Inr (out @ s @ [CHR 0x00], text_at r (p + length (concat (map char_text s)) + 1))"
proof (induction s arbitrary: p out)
  case Nil
  then show ?case by (simp add: ParseStringToStream.simps Let_def)
next
  case (Cons c s)
  show ?case
  proof (cases "escape ! of_char c = CHR 0x00")
    case True
    then have "c \<noteq> CHR 0x22" "c \<noteq> CHR 0x5C" "\<not> of_char c < (32 :: nat)" and "char_text c = [c]"
      by (auto simp: escape_none_char char_text_def)
    then show ?thesis
      using True Cons [of "p + 1" "out @ [c]"]
      by (subst ParseStringToStream.simps) (simp add: Let_def)
  next
    case False
    then have t: "char_text c = escaped c" "hd (escaped c) = CHR 0x5C" "escaped c \<noteq> []"
      by (simp_all add: char_text_def escaped_def Let_def)
    then have "Peek (text_at (escaped c @ x) p) = CHR 0x5C" for x
      by (cases "escaped c") simp_all
    then show ?thesis
      using escape_read [OF False, of _ p] Cons [of "p + length (escaped c)" "out @ [c]"]
      by (subst ParseStringToStream.simps) (simp add: Let_def t(1) add.assoc)
  qed
qed

lemma quote_read:
  "ParseString [] h k (text_at (quote s @ r) p, st) =
     pbind (notify h (if k then EKey s else EString s) (p + length (quote s)) st)
       (\<lambda>st. Inr (text_at r (p + length (quote s)), st))"
  using string_read [of s r "p + 1" "[]"] by (simp add: ParseString_def quote_def add.assoc)

section \<open>Values that read back\<close>

text \<open>
  A decimal without an exponent, whose digits fit into 53 bits, with at most 22 digits behind the point;
  and the double that it stands for.
\<close>

definition decimal_parts :: "string \<Rightarrow> bool \<times> string \<times> string" where
  "decimal_parts t =
     (let neg = (take 1 t = ''-''); r = (if neg then tl t else t)
      in (neg, takeWhile is_digit r, tl (dropWhile is_digit r)))"

definition plain_decimal :: "string \<Rightarrow> bool" where
  "plain_decimal t =
     (case decimal_parts t of (neg, ip, fp) \<Rightarrow>
        t = sign_text neg @ ip @ CHR ''.'' # fp \<and> int_text ip \<and> fp \<noteq> [] \<and> list_all is_digit fp \<and>
        length fp \<le> 22 \<and> dec_to_nat (ip @ fp) < 2 ^ 53)"

definition decimal_value :: "string \<Rightarrow> double" where
  "decimal_value t =
     (case decimal_parts t of (neg, ip, fp) \<Rightarrow> round_ratio neg (dec_to_nat (ip @ fp)) (10 ^ length fp))"

text \<open>Integers carry the flags their constructors give them, doubles print as plain decimals.\<close>

fun readable_number :: "nat \<Rightarrow> number_data \<Rightarrow> bool" where
  "readable_number f (NBits b) =
     (VNumber f (NBits b) = Value_uint64 b \<or> sint b < 0 \<and> VNumber f (NBits b) = Value_int64 b)"
| "readable_number f (NDouble d) = (f = kNumberDoubleFlag \<and> plain_decimal (number_text (EDouble d)))"

fun readable :: "json_value \<Rightarrow> bool"
  and readable_members :: "(string \<times> json_value) list \<Rightarrow> bool"
  and readable_elements :: "json_value list \<Rightarrow> bool" where
  "readable (VObject ms) = readable_members ms"
| "readable (VArray vs) = readable_elements vs"
| "readable (VNumber f d) = readable_number f d"
| "readable (VString s) = True"
| "readable _ = True"
| "readable_members [] = True"
| "readable_members ((n, v) # ms) = (readable v \<and> readable_members ms)"
| "readable_elements [] = True"
| "readable_elements (v # vs) = (readable v \<and> readable_elements vs)"

text \<open>The value that is read: each double is the one nearest to its text.\<close>

fun reread :: "json_value \<Rightarrow> json_value"
  and reread_members :: "(string \<times> json_value) list \<Rightarrow> (string \<times> json_value) list"
  and reread_elements :: "json_value list \<Rightarrow> json_value list" where
  "reread (VObject ms) = VObject (reread_members ms)"
| "reread (VArray vs) = VArray (reread_elements vs)"
| "reread (VNumber f (NDouble d)) = VNumber f (NDouble (decimal_value (number_text (EDouble d))))"
| "reread v = v"
| "reread_members [] = []"
| "reread_members ((n, v) # ms) = (n, reread v) # reread_members ms"
| "reread_elements [] = []"
| "reread_elements (v # vs) = reread v # reread_elements vs"

lemma int_text_nat_to_dec: "int_text (nat_to_dec n)"
proof -
  have "nat_to_dec n = ''0'' \<or> hd (nat_to_dec n) \<noteq> CHR ''0''"
  proof (induction n rule: nat_to_dec.induct)
    case (1 n)
    show ?case
    proof (cases "n < 10")
      case True
      then have "nat_to_dec n = [digit_char n]" by (rule small_dec)
      moreover have "n \<noteq> 0 \<Longrightarrow> digit_char n \<noteq> CHR ''0''"
        using digit_val_char [OF True] by (auto simp: digit_val_def)
      ultimately show ?thesis by (cases "n = 0") (simp_all add: digit_char_def)
    next
      case False
      then have "nat_to_dec (n div 10) \<noteq> ''0''"
        using dec_to_nat_nat_to_dec [of "n div 10"] by (auto simp: dec_to_nat_def digit_val_def)
      then show ?thesis using 1 False by (subst nat_to_dec.simps) auto
    qed
  qed
  then show ?thesis by (simp add: int_text_def digits_nat_to_dec)
qed

text \<open>The text of a number is scanned with an event that pushes the number.\<close>

lemma number_reads:
  assumes "readable_number f d"
  shows "\<exists>ev. reads (json_text (VNumber f d)) ev \<and>
    (\<forall>stk. Document_handler ev stk = Inr (True, reread (VNumber f d) # stk))"
proof (cases d)
  case (NDouble x)
  obtain neg ip fp where p: "decimal_parts (number_text (EDouble x)) = (neg, ip, fp)" by (metis prod_cases3)
  let ?t = "sign_text neg @ ip @ CHR ''.'' # fp"
  have t: "number_text (EDouble x) = ?t" and ok: "int_text ip" "fp \<noteq> []" "\<forall>c\<in>set fp. is_digit c"
      "length fp \<le> 22" "dec_to_nat (ip @ fp) < 2 ^ 53"
    using assms NDouble p by (auto simp: plain_decimal_def list_all_iff)
  have "json_text (VNumber f d) = ?t"
    using assms NDouble t by (simp add: number_event_def IsDouble_def number_flags del: number_text.simps)
  moreover have "reread (VNumber f d) = Value_double (round_ratio neg (dec_to_nat (ip @ fp)) (10 ^ length fp))"
    using assms NDouble p by (simp add: decimal_value_def Value_double_def del: number_text.simps)
  ultimately show ?thesis
    using reads_decimal [OF ok(1-5), of neg]
    by (intro exI [of _ "EDouble (round_ratio neg (dec_to_nat (ip @ fp)) (10 ^ length fp))"]) (simp add: doc_push_def)
next
  case (NBits b)
  show ?thesis
  proof (cases "VNumber f d = Value_uint64 b")
    case True
    have "unat b \<le> max64 False" using unat_u64_less [of b] by (simp add: max64_def)
    then have "reads (nat_to_dec (unat b)) (int_event False (unat b))"
      "Document_handler (int_event False (unat b)) stk = Inr (True, Value_uint64 b # stk)" for stk
      using reads_int [OF int_text_nat_to_dec, of "unat b" False] doc_uint by (simp_all add: sign_text_def)
    moreover have "json_text (VNumber f d) = nat_to_dec (unat b)" "reread (VNumber f d) = Value_uint64 b"
      using True NBits uint_text [of b] by (simp_all add: Value_uint64_def)
    ultimately show ?thesis by auto
  next
    case False
    then have v: "sint b < 0" "VNumber f d = Value_int64 b" using assms NBits by auto
    let ?n = "nat (- sint b)"
    have n: "0 < ?n" "?n \<le> max64 True" using v(1) sint_ge [of b] by (simp_all add: max64_def nat_le_iff)
    have b: "- of_nat ?n = b" using v(1) by simp
    have "reads (sign_text True @ nat_to_dec ?n) (int_event True ?n)"
      using reads_int [OF int_text_nat_to_dec, of ?n True] n(2) by simp
    moreover have "json_text (VNumber f d) = sign_text True @ nat_to_dec ?n"
      using v int_neg_text [OF v(1)] NBits by (simp add: Value_int64_neg int_to_dec_def sign_text_def)
    moreover have "reread (VNumber f d) = Value_int64 b" using v(2) NBits by (simp add: Value_int64_def)
    ultimately show ?thesis using doc_neg [OF n] unfolding b by auto
  qed
qed

section \<open>The first character of a text\<close>

definition starts :: "char \<Rightarrow> bool" where
  "starts c \<longleftrightarrow> c \<in> {CHR ''n'', CHR ''t'', CHR ''f'', CHR 0x22, CHR ''{'', CHR ''['', CHR ''-''} \<or> is_digit c"

lemma starts_simps:
  assumes "starts c"
  shows "\<not> json_space c" "c \<noteq> CHR ''}''" "c \<noteq> CHR '']''" "c \<noteq> CHR '',''" "c \<noteq> CHR 0x00"
  using assms by (auto simp: starts_def json_space_def is_digit_def)

lemma number_head:
  assumes "readable_number f d"
  obtains c t where "json_text (VNumber f d) = c # t" "c = CHR ''-'' \<or> is_digit c"
proof -
  have nat: "\<exists>c t. nat_to_dec n = c # t \<and> is_digit c" for n
    using digits_nat_to_dec [of n] by (cases "nat_to_dec n") simp_all
  have "\<exists>c t. json_text (VNumber f d) = c # t \<and> (c = CHR ''-'' \<or> is_digit c)"
  proof (cases d)
    case (NDouble x)
    obtain neg ip fp where "decimal_parts (number_text (EDouble x)) = (neg, ip, fp)" by (metis prod_cases3)
    then have "number_text (EDouble x) = sign_text neg @ ip @ CHR ''.'' # fp" "int_text ip"
      using assms NDouble by (auto simp: plain_decimal_def)
    moreover have "number_event (VNumber f d) = EDouble x"
      using assms NDouble by (simp add: number_event_def IsDouble_def number_flags)
    ultimately show ?thesis
      by (cases ip) (auto simp: sign_text_def int_text_def simp del: number_text.simps)
  next
    case (NBits b)
    then show ?thesis
      using assms uint_text [of b] int_neg_text [of b] nat [of "unat b"]
      by (auto simp: Value_uint64_def Value_int64_def int_to_dec_def simp del: number_text.simps)
  qed
  then show ?thesis using that by blast
qed

lemma json_head:
  assumes "readable v"
  obtains c t where "json_text v = c # t" "starts c"
proof -
  have "\<exists>c t. json_text v = c # t \<and> starts c"
  proof (cases v)
    case (VNumber f d)
    with assms show ?thesis by (auto simp: starts_def simp del: json_text.simps elim: number_head)
  qed (auto simp: starts_def quote_def)
  then show ?thesis using that by blast
qed

section \<open>Objects, arrays and documents\<close>

lemma skip_none: "\<not> json_space (Peek is) \<Longrightarrow> skip [] (is, s) = Inr (is, s)"
  by (simp add: skip_def SkipWhitespaceAndComments_def SkipWhitespace.simps)

lemma not_space [simp]:
  "\<not> json_space (CHR '','')" "\<not> json_space (CHR ''}'')" "\<not> json_space (CHR '']'')" "\<not> json_space (CHR '':'')"
  "\<not> json_space (CHR 0x22)" "\<not> json_space (CHR 0x00)"
  by (simp_all add: json_space_def)

lemma notify_doc: "Document_handler ev stk = Inr (True, stk') \<Longrightarrow> notify Document_handler ev p stk = Inr stk'"
  by (simp add: notify_def of_result_def)

lemma delimited_simps [simp]:
  "delimited []" "delimited (CHR '','' # r)" "delimited (CHR ''}'' # r)" "delimited (CHR '']'' # r)"
  by (simp_all add: delimited_def no_digit_def is_digit_def)

definition member_values :: "(string \<times> json_value) list \<Rightarrow> json_value list" where
  "member_values ms = concat (map (\<lambda>(n, v). [VString n, v]) ms)"

lemma member_values_simps [simp]:
  "member_values [] = []" "member_values ((n, v) # ms) = VString n # v # member_values ms"
  "length (member_values ms) = 2 * length ms"
  by (induction ms) (auto simp: member_values_def)

lemma pair_member_values [simp]: "pair_members (member_values ms) = Inr ms"
  by (induction ms) auto

lemma end_object:
  "Document_handler (EEndObject (length ms)) (rev (member_values ms) @ VObject [] # stk) = Inr (True, VObject ms # stk)"
  by (simp add: Document_EndObject_def)

lemma end_array:
  "Document_handler (EEndArray (length vs)) (rev vs @ VArray [] # stk) = Inr (True, VArray vs # stk)"
  by (simp add: Document_EndArray_def)

lemma length_reread_members [simp]: "length (reread_members ms) = length ms"
  by (induction ms) auto

lemma length_reread_elements [simp]: "length (reread_elements vs) = length vs"
  by (induction vs) auto

lemma notify_end_object:
  "notify Document_handler (EEndObject (length ms)) p (rev (member_values (reread_members ms)) @ VObject [] # stk) =
     Inr (VObject (reread_members ms) # stk)"
  using end_object [of "reread_members ms"] by (intro notify_doc) (simp only: length_reread_members)

lemma notify_end_array:
  "notify Document_handler (EEndArray (length vs)) p (rev (reread_elements vs) @ VArray [] # stk) =
     Inr (VArray (reread_elements vs) # stk)"
  using end_array [of "reread_elements vs"] by (intro notify_doc) (simp only: length_reread_elements)

lemma number_parsed:
  assumes "readable_number f d" and "delimited r"
  shows "ParseValue (Suc n) [] Document_handler (text_at (json_text (VNumber f d) @ r) p, stk) =
    Inr (text_at r (p + length (json_text (VNumber f d))), reread (VNumber f d) # stk)"
proof -
  let ?t = "json_text (VNumber f d)"
  obtain c t where c: "?t = c # t" "c = CHR ''-'' \<or> is_digit c" using assms(1) by (rule number_head)
  have ne: "c \<notin> {CHR ''n'', CHR ''t'', CHR ''f'', CHR 0x22, CHR ''{'', CHR ''[''}"
    using c(2) by (auto simp: is_digit_def)
  obtain ev where ev: "reads ?t ev" "\<forall>stk. Document_handler ev stk = Inr (True, reread (VNumber f d) # stk)"
    using number_reads [OF assms(1)] by blast
  then obtain m s where s: "ScanNumber [] (text_at (?t @ r) p) = Inr (m, s)" "ns_is s = text_at r (p + length ?t)"
      "number_token [] p m s = Inr ev"
    using assms(2) unfolding reads_def by blast
  have "ParseValue (Suc n) [] Document_handler (text_at (?t @ r) p, stk) = ParseNumber [] Document_handler (text_at (?t @ r) p, stk)"
    using ne by (simp add: c(1) Let_def del: json_text.simps)
  also have "\<dots> = Inr (text_at r (p + length ?t), reread (VNumber f d) # stk)"
    using s ev(2) by (simp add: ParseNumber_def notify_doc del: json_text.simps)
  finally show ?thesis .
qed

lemma name_parsed:
  assumes "\<not> json_space (Peek (text_at r 0))"
  shows "parse_name [] Document_handler (text_at (quote s @ CHR '':'' # r) p, stk) =
    Inr (text_at r (p + length (quote s) + 1), VString s # stk)"
proof -
  have "Peek (text_at (quote s @ CHR '':'' # r) p) = CHR 0x22" by (simp add: quote_def)
  moreover have "\<not> json_space (Peek (text_at r q))" for q using assms by (simp add: Peek_def)
  ultimately show ?thesis
    by (simp add: parse_name_def quote_read notify_doc doc_push_def skip_none Consume_def)
qed

lemma members_text_False: "members_text False ms = (if ms = [] then [] else CHR '','' # members_text True ms)"
  by (cases ms) auto

lemma elements_text_False: "elements_text False vs = (if vs = [] then [] else CHR '','' # elements_text True vs)"
  by (cases vs) auto

lemma members_head: "ms \<noteq> [] \<Longrightarrow> \<exists>t. members_text True ms = CHR 0x22 # t"
  by (cases ms) (auto simp: quote_def)

lemma elements_head:
  assumes "readable_elements vs" and "vs \<noteq> []"
  obtains c t where "elements_text True vs = c # t" "starts c"
proof -
  obtain v vs' where v: "vs = v # vs'" "readable v" using assms by (cases vs) auto
  then show ?thesis using that by (auto elim: json_head)
qed

text \<open>The brackets around items that the loops read.\<close>

lemma object_parsed:
  assumes "ms \<noteq> [] \<Longrightarrow> object_loop n [] Document_handler 0 (text_at (members_text True ms @ CHR ''}'' # r) (p + 1), VObject [] # stk) =
      Inr (text_at r (p + length (json_text (VObject ms))), x # stk)"
    and "ms = [] \<Longrightarrow> x = VObject []"
  shows "ParseValue (Suc n) [] Document_handler (text_at (json_text (VObject ms) @ r) p, stk) =
    Inr (text_at r (p + length (json_text (VObject ms))), x # stk)"
proof (cases "ms = []")
  case True
  then show ?thesis
    using assms(2) by (simp add: open_bracket_def close_bracket_def notify_doc doc_push_def skip_none Document_EndObject_def)
next
  case False
  then obtain t where t: "members_text True ms = CHR 0x22 # t" using members_head by blast
  then show ?thesis
    using assms(1) False by (simp add: open_bracket_def notify_doc doc_push_def skip_none)
qed

lemma array_parsed:
  assumes "readable_elements vs"
    and "vs \<noteq> [] \<Longrightarrow> array_loop n [] Document_handler 0 (text_at (elements_text True vs @ CHR '']'' # r) (p + 1), VArray [] # stk) =
      Inr (text_at r (p + length (json_text (VArray vs))), x # stk)"
    and "vs = [] \<Longrightarrow> x = VArray []"
  shows "ParseValue (Suc n) [] Document_handler (text_at (json_text (VArray vs) @ r) p, stk) =
    Inr (text_at r (p + length (json_text (VArray vs))), x # stk)"
proof (cases "vs = []")
  case True
  then show ?thesis
    using assms(3) by (simp add: open_bracket_def close_bracket_def notify_doc doc_push_def skip_none Document_EndArray_def)
next
  case False
  obtain c t where t: "elements_text True vs = c # t" "starts c" using assms(1) False by (rule elements_head)
  then show ?thesis
    using assms(2) False starts_simps [OF t(2)] by (simp add: open_bracket_def notify_doc doc_push_def skip_none)
qed

lemma values_parsed:
  "readable v \<Longrightarrow> delimited r \<Longrightarrow> length (json_text v) \<le> n \<Longrightarrow>
     ParseValue n [] Document_handler (text_at (json_text v @ r) p, stk) =
       Inr (text_at r (p + length (json_text v)), reread v # stk)"
  "readable_members ms \<Longrightarrow> ms \<noteq> [] \<Longrightarrow> length (members_text True ms) < n' \<Longrightarrow>
     object_loop n' [] Document_handler k (text_at (members_text True ms @ CHR ''}'' # r') p', stk') =
       pbind (notify Document_handler (EEndObject (k + length ms)) (p' + length (members_text True ms) + 1)
                (rev (member_values (reread_members ms)) @ stk'))
         (\<lambda>s. Inr (text_at r' (p' + length (members_text True ms) + 1), s))"
  "readable_elements vs \<Longrightarrow> vs \<noteq> [] \<Longrightarrow> length (elements_text True vs) < m' \<Longrightarrow>
     array_loop m' [] Document_handler j (text_at (elements_text True vs @ CHR '']'' # s') q', stk'') =
       pbind (notify Document_handler (EEndArray (j + length vs)) (q' + length (elements_text True vs) + 1)
                (rev (reread_elements vs) @ stk''))
         (\<lambda>s. Inr (text_at s' (q' + length (elements_text True vs) + 1), s))"
proof (induction v and ms and vs arbitrary: r n p stk and n' k r' p' stk' and m' j s' q' stk''
    rule: readable_readable_members_readable_elements.induct)
  case (1 ms)
  then obtain n' where n: "n = Suc n'" "length (members_text True ms) < n'" by (cases n) auto
  show ?case
    unfolding n(1)
    by (rule object_parsed) (use 1 n in \<open>auto simp: notify_end_object simp del: Document_handler.simps\<close>)
next
  case (2 vs)
  then obtain n' where n: "n = Suc n'" "length (elements_text True vs) < n'" by (cases n) auto
  show ?case
    unfolding n(1)
    by (rule array_parsed) (use 2 n in \<open>auto simp: notify_end_array simp del: Document_handler.simps\<close>)
next
  case (3 f d)
  then obtain n' where "n = Suc n'" by (cases n) (auto elim: number_head)
  then show ?case using 3 number_parsed by simp
next
  case (7 s v ms)
  obtain n where n: "n' = Suc n" using "7.prems"(3) by (cases n') auto
  obtain c t where c: "json_text v = c # t" "starts c" using "7.prems"(1) json_head by auto
  define R where "R = (if ms = [] then [] else CHR '','' # members_text True ms) @ CHR ''}'' # r'"
  have whole: "members_text True ((s, v) # ms) @ CHR ''}'' # r' = quote s @ CHR '':'' # json_text v @ R"
    by (simp add: members_text_False R_def)
  have name: "parse_name [] Document_handler (text_at (quote s @ CHR '':'' # json_text v @ R) p', stk') =
      Inr (text_at (json_text v @ R) (p' + length (quote s) + 1), VString s # stk')"
    by (rule name_parsed) (use c starts_simps in simp)
  have "delimited R" by (simp add: R_def)
  moreover have "length (json_text v) \<le> n" using "7.prems"(3) n by simp
  ultimately have val: "ParseValue n [] Document_handler (text_at (json_text v @ R) q, VString s # stk') =
      Inr (text_at R (q + length (json_text v)), reread v # VString s # stk')" for q
    using "7.IH"(1) "7.prems"(1) by simp
  show ?case
  proof (cases "ms = []")
    case True
    then have "R = CHR ''}'' # r'" by (simp add: R_def)
    then show ?thesis
      unfolding n whole using True name val by (simp add: skip_none close_bracket_def add.assoc)
  next
    case False
    then obtain t where t: "members_text True ms = CHR 0x22 # t" using members_head by blast
    have "length (members_text True ms) < n" using "7.prems"(3) n False by (simp add: members_text_False)
    note IH = "7.IH"(2) [OF _ False this]
    have "R = CHR '','' # members_text True ms @ CHR ''}'' # r'" using False by (simp add: R_def)
    then show ?thesis
      unfolding n whole using False t name val IH "7.prems"(1) by (simp add: skip_none members_text_False add.assoc)
  qed
next
  case (9 v vs)
  obtain n where n: "m' = Suc n" using "9.prems"(3) by (cases m') auto
  define R where "R = (if vs = [] then [] else CHR '','' # elements_text True vs) @ CHR '']'' # s'"
  have whole: "elements_text True (v # vs) @ CHR '']'' # s' = json_text v @ R"
    by (simp add: elements_text_False R_def)
  have "delimited R" by (simp add: R_def)
  moreover have "length (json_text v) \<le> n" using "9.prems"(3) n by simp
  ultimately have val: "ParseValue n [] Document_handler (text_at (json_text v @ R) q, stk'') =
      Inr (text_at R (q + length (json_text v)), reread v # stk'')" for q
    using "9.IH"(1) "9.prems"(1) by simp
  show ?case
  proof (cases "vs = []")
    case True
    then have "R = CHR '']'' # s'" by (simp add: R_def)
    then show ?thesis
      unfolding n whole using True val by (simp add: skip_none close_bracket_def add.assoc)
  next
    case False
    then obtain c t where t: "elements_text True vs = c # t" "starts c" using "9.prems"(1) elements_head by auto
    obtain c' t' where "json_text v = c' # t'" "starts c'" using "9.prems"(1) json_head by auto
    then have "length (elements_text True vs) < n" using "9.prems"(3) n False by (simp add: elements_text_False)
    note IH = "9.IH"(2) [OF _ False this]
    have "R = CHR '','' # elements_text True vs @ CHR '']'' # s'" using False by (simp add: R_def)
    then show ?thesis
      unfolding n whole using False t val IH "9.prems"(1) starts_simps [OF t(2)]
      by (simp add: skip_none elements_text_False add.assoc)
  qed
next
  case (4 s)
  then obtain n' where "n = Suc n'" by (cases n) (auto simp: quote_def)
  moreover have "Peek (text_at (quote s @ r) p) = CHR 0x22" by (simp add: quote_def)
  ultimately show ?case by (simp add: quote_read notify_doc doc_push_def)
qed (auto simp: numeral_eq_Suc parse_literal_def ParseNull_def ParseTrue_def ParseFalse_def Consume_def notify_doc doc_push_def
      Value_bool_def dest!: Suc_le_D)

section \<open>Round trip\<close>

lemma char_text_no_nul: "CHR 0x00 \<notin> set (char_text c)"
proof (cases "escape ! of_char c = CHR 0x00")
  case True
  then show ?thesis by (auto simp: char_text_def escape_none_char)
next
  case False
  have "CHR 0x00 \<notin> set hexDigits" by (simp add: hexDigits_def)
  moreover have "(of_char c AND 15 :: nat) = of_char c mod 16"
    using take_bit_eq_mask [of 4 "of_char c :: nat"] by (simp add: mask_eq_exp_minus_1 take_bit_eq_mod)
  then have "drop_bit 4 (of_char c) < length hexDigits" "(of_char c AND 15 :: nat) < length hexDigits"
    by (simp_all add: hexDigits_def drop_bit_eq_div less_mult_imp_div_less)
  ultimately have "hexDigits ! drop_bit 4 (of_char c) \<noteq> CHR 0x00" "hexDigits ! (of_char c AND 15) \<noteq> CHR 0x00"
    by (metis nth_mem)+
  then show ?thesis using False by (auto simp: char_text_def escaped_def Let_def)
qed

lemma quote_no_nul: "CHR 0x00 \<notin> set (quote s)"
  using char_text_no_nul by (auto simp: quote_def)

lemma number_no_nul: "readable_number f d \<Longrightarrow> CHR 0x00 \<notin> set (json_text (VNumber f d))"
proof (cases d)
  case (NDouble x)
  assume a: "readable_number f d"
  obtain neg ip fp where "decimal_parts (number_text (EDouble x)) = (neg, ip, fp)" by (metis prod_cases3)
  then have "number_text (EDouble x) = sign_text neg @ ip @ CHR ''.'' # fp" "\<forall>c\<in>set (ip @ fp). is_digit c"
    using a NDouble by (auto simp: plain_decimal_def int_text_def list_all_iff)
  moreover have "number_event (VNumber f d) = EDouble x"
    using a NDouble by (simp add: number_event_def IsDouble_def number_flags)
  moreover have "CHR 0x00 \<notin> set (ip @ fp)" using calculation(2) digit_not_nul by blast
  ultimately show ?thesis
    by (auto simp: sign_text_def simp del: number_text.simps)
next
  case (NBits b)
  assume "readable_number f d"
  with NBits show ?thesis
    using uint_text [of b] int_neg_text [of b] nat_to_dec_no_nul [of "unat b"] int_to_dec_no_nul [of "sint b"]
    by (auto simp: Value_uint64_def Value_int64_def simp del: number_text.simps)
qed

lemma json_text_no_nul:
  "readable v \<Longrightarrow> CHR 0x00 \<notin> set (json_text v)"
  "readable_members ms \<Longrightarrow> CHR 0x00 \<notin> set (members_text b ms)"
  "readable_elements vs \<Longrightarrow> CHR 0x00 \<notin> set (elements_text b' vs)"
proof (induction v and ms and vs arbitrary: and b and b' rule: readable_readable_members_readable_elements.induct)
  case (3 f d)
  then show ?case using number_no_nul by simp
qed (auto simp: quote_no_nul)

lemma text_parsed:
  assumes "readable v"
  shows "Document_Parse d (json_text v) = Inr (d\<lparr>root := reread v, parseResult := None\<rparr>)"
proof -
  obtain c t where c: "json_text v = c # t" "starts c" using assms by (rule json_head)
  have nul: "c_str (json_text v) = json_text v" using json_text_no_nul(1) [OF assms] by (rule c_str_no_nul)
  have "skip [] (text_at (json_text v) 0, [] :: json_value list) = Inr (text_at (json_text v) 0, [])"
    and "Peek (text_at (json_text v) 0) \<noteq> CHR 0x00"
    using c starts_simps [OF c(2)] by (simp_all add: skip_none)
  moreover have "ParseValue (fuel_for (text_at (json_text v) 0)) [] Document_handler (text_at (json_text v) 0, []) =
      Inr (text_at [] (length (json_text v)), [reread v])"
    using values_parsed(1) [OF assms, of "[]" "fuel_for (text_at (json_text v) 0)" 0 "[]"] by (simp add: fuel_for_def)
  ultimately have "RecursiveParse [] Document_handler (text_at (json_text v) 0) [] =
      Inr (text_at [] (length (json_text v)), [reread v])"
    by (simp add: RecursiveParse_def skip_none)
  then show ?thesis
    by (simp add: Document_Parse_def ParseStream_def Reader_Parse_def kParseDefaultFlags_def nul StringStream_def)
qed


lemma zero_prints: "dtoa dzero k = Some ''0.0''" "\<not> IsNanOrInf (double_bits dzero)"
proof -
  have "double_bits dzero = 0" by (simp add: dzero_def)
  then show "dtoa dzero k = Some ''0.0''" "\<not> IsNanOrInf (double_bits dzero)"
    by (simp_all add: dtoa_def IsZero_def Sign_def IsNanOrInf_def kExponentMask_def kSignMask_def kSignificandMask_def)
qed

lemma zero_reads: "plain_decimal ''0.0''" "decimal_value ''0.0'' = dzero"
  by (simp_all add: plain_decimal_def decimal_value_def decimal_parts_def Let_def is_digit_def sign_text_def int_text_def
      dec_to_nat_def digit_val_def round_ratio_def dzero_def)


end
