(* ===== verification/Json_Typing.thy ===== *)
theory Json_Typing
  imports Json_Round_Trip
begin

text \<open>
  The type invariant of JSON numbers: the flags of a number say exactly which integer types hold its value,
  so that each getter whose test succeeds returns the value itself. The constructors establish it, and it is carried
  through parsing by the contract of the reader with its handler.
\<close>

unbundle bit_operations_syntax

section \<open>The invariant\<close>

text \<open>The integer that the eight bytes of a number stand for.\<close>

definition number_value :: "nat \<Rightarrow> u64 \<Rightarrow> int" where
  "number_value f b = (if f AND kUint64Flag \<noteq> 0 then uint b else sint b)"

fun typed_number :: "nat \<Rightarrow> number_data \<Rightarrow> bool" where
  "typed_number f (NBits b) =
     (let v = VNumber f (NBits b); n = number_value f b in
      IsNumber v \<and> \<not> IsDouble v \<and>
      (IsInt v \<longleftrightarrow> - (2 ^ 31) \<le> n \<and> n < 2 ^ 31) \<and> (IsUint v \<longleftrightarrow> 0 \<le> n \<and> n < 2 ^ 32) \<and>
      (IsInt64 v \<longleftrightarrow> n < 2 ^ 63) \<and> (IsUint64 v \<longleftrightarrow> 0 \<le> n))"
| "typed_number f (NDouble d) =
     (let v = VNumber f (NDouble d) in
      IsNumber v \<and> IsDouble v \<and> \<not> IsInt v \<and> \<not> IsUint v \<and> \<not> IsInt64 v \<and> \<not> IsUint64 v)"

fun well_typed :: "json_value \<Rightarrow> bool"
  and well_typed_members :: "(string \<times> json_value) list \<Rightarrow> bool"
  and well_typed_elements :: "json_value list \<Rightarrow> bool" where
  "well_typed (VObject ms) = well_typed_members ms"
| "well_typed (VArray vs) = well_typed_elements vs"
| "well_typed (VNumber f d) = typed_number f d"
| "well_typed _ = True"
| "well_typed_members [] = True"
| "well_typed_members ((n, v) # ms) = (well_typed v \<and> well_typed_members ms)"
| "well_typed_elements [] = True"
| "well_typed_elements (v # vs) = (well_typed v \<and> well_typed_elements vs)"

lemma well_typed_elements_iff: "well_typed_elements vs \<longleftrightarrow> (\<forall>v\<in>set vs. well_typed v)"
  by (induction vs) auto

lemma well_typed_take_drop:
  "well_typed_elements vs \<Longrightarrow> well_typed_elements (take n vs)"
  "well_typed_elements vs \<Longrightarrow> well_typed_elements (drop n vs)"
  "well_typed_elements (rev vs) = well_typed_elements vs"
  by (auto simp: well_typed_elements_iff dest: in_set_takeD in_set_dropD)

section \<open>Constructors and getters\<close>

lemmas number_tests = IsNumber_def IsDouble_def IsInt_def IsUint_def IsInt64_def IsUint64_def number_flags

lemma typed_uint64: "well_typed (Value_uint64 u)"
proof -
  obtain n where n: "unat u = n" "uint u = int n" by simp
  then show ?thesis
    by (auto simp: Value_uint64_flags uint_flags_def number_value_def number_tests Let_def)
qed

lemma typed_int64: "well_typed (Value_int64 i)"
proof (cases "0 \<le> sint i")
  case True
  then show ?thesis by (simp only: Value_int64_nonneg typed_uint64)
next
  case False
  then show ?thesis
    by (simp add: Value_int64_neg number_value_def number_tests Let_def)
qed

lemma typed_unsigned: "well_typed (Value_unsigned v)"
  by (simp only: Value_unsigned_eq typed_uint64)

lemma sint_scast_64: "sint (scast (i :: 32 word) :: u64) = sint i"
  by (simp add: signed_scast_eq signed_take_bit_int_eq_self sint_ge sint_lt order.trans [OF _ sint_ge]
      order.strict_trans2 [OF sint_lt])

lemma Value_int_eq: "Value_int i = Value_int64 (scast i)"
proof (cases "sint i < 0")
  case True
  then show ?thesis by (rule Value_int_neg)
next
  case False
  then have nn: "0 \<le> sint (scast i :: u64)" by (simp add: sint_scast_64)
  have "unat (scast i :: u64) < 2 ^ 31"
    using unat_sint_nonneg [OF nn] sint_lt [of i] nn by (simp add: sint_scast_64 nat_less_iff)
  then show ?thesis
    using False by (simp add: Value_int64_nonneg [OF nn] Value_uint64_flags uint_flags_def) (simp add: Value_int_def number_flags)
qed

lemma typed_int: "well_typed (Value_int i)"
  by (simp only: Value_int_eq typed_int64)

lemma typed_double: "well_typed (Value_double d)"
  by (simp add: Value_double_def number_tests Let_def)

text \<open>What the invariant is for: a getter whose test succeeds gives the value.\<close>

lemma typed_getters:
  assumes "typed_number f (NBits b)"
  defines "v \<equiv> VNumber f (NBits b)" and "n \<equiv> number_value f b"
  shows "IsInt64 v \<Longrightarrow> \<exists>i. GetInt64 v = Inr i \<and> sint i = n"
    and "IsUint64 v \<Longrightarrow> \<exists>u. GetUint64 v = Inr u \<and> uint u = n"
proof -
  show "\<exists>u. GetUint64 v = Inr u \<and> uint u = n" if "IsUint64 v"
    using that by (simp add: v_def n_def GetUint64_def number_value_def IsUint64_def)
  assume i: "IsInt64 v"
  have "sint b = n"
  proof (cases "f AND kUint64Flag = 0")
    case False
    then have "uint b < 2 ^ 63" using assms(1) i by (simp add: v_def n_def number_value_def Let_def)
    moreover have "- (2 ^ 63) \<le> uint b" by (rule order.trans [of _ 0]) simp_all
    ultimately show ?thesis
      using False sint_of_int_small [of "uint b", where ?'a = 64] by (simp add: n_def number_value_def)
  qed (simp add: n_def number_value_def)
  then show "\<exists>i. GetInt64 v = Inr i \<and> sint i = n" using i by (simp add: v_def GetInt64_def)
qed

section \<open>Parsing\<close>

definition typed_tags :: "bool list \<Rightarrow> json_value list \<Rightarrow> bool" where
  "typed_tags ts stk \<longleftrightarrow> doc_tags ts stk \<and> well_typed_elements stk"

lemma pair_members_typed: "pair_members vs = Inr ms \<Longrightarrow> well_typed_elements vs \<Longrightarrow> well_typed_members ms"
  by (induction vs arbitrary: ms rule: pair_members.induct) (auto simp: rbind_Inr_iff)

interpretation typed: handler_contract Document_handler typed_tags
proof
  show "\<exists>s'. Document_handler e s = Inr (True, s') \<and> typed_tags (is_key e # ts) s'"
    if "typed_tags ts s" "\<not> is_end e" for ts s e
    using that doc.event_ok [of ts s e]
    by (cases e) (auto simp: typed_tags_def doc_push_def Value_bool_def typed_int typed_unsigned typed_int64 typed_uint64 typed_double)
next
  fix m ts s
  assume s: "typed_tags (member_tags m @ False # ts) s"
  then obtain s' where s': "Document_handler (EEndObject m) s = Inr (True, s')" "doc_tags (False # ts) s'"
    using doc.end_object [of m ts s] by (auto simp: typed_tags_def)
  have "well_typed_elements s'"
    using s s'(1) pair_members_typed [of "rev (take (2 * m) s)"]
    by (auto simp: typed_tags_def Document_EndObject_def rbind_Inr_iff well_typed_take_drop split: if_splits)
  with s' show "\<exists>s'. Document_handler (EEndObject m) s = Inr (True, s') \<and> typed_tags (False # ts) s'"
    by (simp add: typed_tags_def)
next
  fix m ts s
  assume s: "typed_tags (replicate m False @ False # ts) s"
  then obtain s' where s': "Document_handler (EEndArray m) s = Inr (True, s')" "doc_tags (False # ts) s'"
    using doc.end_array [of m ts s] by (auto simp: typed_tags_def)
  have "well_typed_elements s'"
    using s s'(1) by (auto simp: typed_tags_def Document_EndArray_def well_typed_take_drop split: if_splits)
  with s' show "\<exists>s'. Document_handler (EEndArray m) s = Inr (True, s') \<and> typed_tags (False # ts) s'"
    by (simp add: typed_tags_def)
qed

text \<open>
  C18. What a document parses to is well typed. Whenever parsing a text reports no error, every number of the
  root value, at any depth, carries exactly the flags of the integer types that hold its value, or
  those of a double, whatever the text is.
\<close>

theorem Document_Parse_well_typed:
  assumes "Document_Parse d str = Inr d'" and "\<not> HasParseError d'"
  shows "well_typed (root d')"
proof -
  have "good (typed.held [False]) (RecursiveParse kParseDefaultFlags Document_handler (StringStream (c_str str)) [])"
    by (rule typed.good_parse) (simp_all add: kParseDefaultFlags_def typed_tags_def doc_tags_def)
  then show ?thesis
    using assms
    by (auto simp: Document_Parse_def ParseStream_def Reader_Parse_def kParseDefaultFlags_def HasParseError_def typed_tags_def
        split: sum.splits parse_fail.splits list.splits)
qed

theorem Document_Parse_well_typed_witness:
  "\<exists>d'. Document_Parse Document_new (json_text (VArray [VTrue, Value_uint64 7])) = Inr d' \<and> \<not> HasParseError d' \<and>
     root d' = VArray [VTrue, Value_uint64 7] \<and> well_typed (root d')"
proof -
  let ?v = "VArray [VTrue, Value_uint64 7]" and ?d = "Document_new\<lparr>root := VArray [VTrue, Value_uint64 7], parseResult := None\<rparr>"
  have "readable ?v" "reread ?v = ?v" by (simp_all add: Value_uint64_flags uint_flags_def)
  then have "Document_Parse Document_new (json_text ?v) = Inr ?d" using text_parsed [of ?v Document_new] by simp
  moreover have "\<not> HasParseError ?d" by (simp add: HasParseError_def)
  ultimately show ?thesis using Document_Parse_well_typed [of Document_new "json_text ?v" ?d] by (intro exI [of _ ?d]) simp
qed

end
