(* ===== verification/Handlers.thy ===== *)
theory Handlers
  imports Processor Json_Round_Trip
begin

text \<open>
  The HTTP handlers of the service (main.cpp): accepting payments, the summary of payments with the share of
  the other instance, the health query and the purge endpoint. A handler is a function from the request's
  parameters and the service's state to its reply on the session. Restbed, the environment and libcurl are
  arguments.
\<close>

section \<open>Replies\<close>

type_synonym headers = "(string \<times> string) list"

text \<open>\<^verbatim>\<open>session->yield\<close> keeps the connection for the next request, \<^verbatim>\<open>session->close\<close> ends it.\<close>

datatype session_reply = Session_yield int bytes headers | Session_close int bytes headers

section \<open>Accepting payments\<close>

text \<open>
  The two function-local static variables of \<^verbatim>\<open>post_payment_handler\<close>; the second one is initialised by the first
  request.
\<close>

record post_statics =
  queue_index :: u64
  queue_size :: "u64 option"

definition post_statics_init :: post_statics where
  "post_statics_init = \<lparr>queue_index = 0, queue_size = None\<rparr>"

text \<open>
  \<^verbatim>\<open>memcpy\<close> into the 70 bytes of \<^verbatim>\<open>data\<close> has no bounds check. \<open>body\<close> is what \<^verbatim>\<open>fetch\<close> delivers for the
  announced content length.
\<close>

definition raw_of_body :: "bytes \<Rightarrow> raw_payment result" where
  "raw_of_body body =
     (if RAW_CAPACITY < length body then Inl BufferOverflow
      else Inr \<lparr>rp_data = body @ drop (length body) (rp_data raw_payment_init), rp_size = of_nat (length body)\<rparr>)"

definition post_payment_handler ::
  "bytes \<Rightarrow> post_statics \<Rightarrow> worker_queue list \<Rightarrow> (session_reply \<times> post_statics \<times> worker_queue list) result" where
  "post_payment_handler body ps queues =
     (let size = (case queue_size ps of None \<Rightarrow> queue_count queues | Some n \<Rightarrow> n) in
      rbind (raw_of_body body) (\<lambda>r.
        if size = 0 then Inl DivisionByZero
        else let idx = queue_index ps mod size;
                 ps = \<lparr>queue_index = queue_index ps + 1, queue_size = Some size\<rparr>
             in rbind (enqueue queues (unat idx) r) (\<lambda>queues.
                  Inr (Session_yield 202 [] [(''Content-Length'', ''0'')], ps, queues))))"

definition purger_handler :: session_reply where
  "purger_handler = Session_yield 200 [] [(''Content-Length'', ''0'')]"

section \<open>The summary\<close>

text \<open>
  A transfer with a new easy handle: \<^const>\<open>None\<close> when \<^verbatim>\<open>curl_easy_init\<close> fails, else the reply to a request of
  the URL, whose chunks \<^verbatim>\<open>write_callback\<close> appends to the body.
\<close>

type_synonym transfer = "string \<Rightarrow> reply option"

definition reply_body :: "reply \<Rightarrow> string" where
  "reply_body r = foldl (\<lambda>buf c. fst (run_write_fn write_callback buf c)) [] (chunks r)"

definition read_summary :: "json_value \<Rightarrow> string \<Rightarrow> summary \<Rightarrow> summary result" where
  "read_summary d name s =
     rbind (HasMember d name) (\<lambda>has.
       if \<not> has then Inr s
       else rbind (member_at d name) (\<lambda>m.
            rbind (member_at m ''totalRequests'') (\<lambda>n. rbind (GetUint64 n) (\<lambda>n.
            rbind (member_at m ''totalAmount'') (\<lambda>a. rbind (GetDouble a) (\<lambda>a.
              Inr \<lparr>totalRequests = n, totalAmount = a\<rparr>))))))"

definition call_other_instance :: "transfer \<Rightarrow> string \<Rightarrow> string \<Rightarrow> string \<Rightarrow> summary_pair result" where
  "call_other_instance perform other from to =
     (let url = other @ ''/payments-summary?from='' @ from @ ''&to='' @ to @ ''&internal=true'' in
      case perform (c_str url) of
        None \<Rightarrow> Inr summary_pair_init
      | Some rep \<Rightarrow>
          if curle_ok rep \<and> response_code rep = 200 then
            rbind (Document_Parse Document_new (c_str (reply_body rep))) (\<lambda>d.
            rbind (read_summary (root d) ''default'' summary_init) (\<lambda>def.
            rbind (read_summary (root d) ''fallback'' summary_init) (\<lambda>fb.
              Inr \<lparr>sp_def = def, sp_fb = fb\<rparr>)))
          else Inr summary_pair_init)"

text \<open>The JSON of the summary, built member by member.\<close>

definition summary_value :: "summary \<Rightarrow> json_value result" where
  "summary_value s =
     rbind (AddMember (VObject []) ''totalRequests'' (Value_uint64 (totalRequests s))) (\<lambda>v.
       AddMember v ''totalAmount'' (Value_double (totalAmount s)))"

definition summary_document :: "summary_pair \<Rightarrow> json_value result" where
  "summary_document res =
     rbind (summary_value (sp_def res)) (\<lambda>def.
     rbind (summary_value (sp_fb res)) (\<lambda>fb.
     rbind (AddMember SetObject ''default'' def) (\<lambda>d. AddMember d ''fallback'' fb)))"

text \<open>
  Serialisation into the thread's buffer, which keeps its memory between requests. The result of
  \<^verbatim>\<open>Accept\<close> is ignored.
\<close>

definition serialize :: "json_value \<Rightarrow> Stack \<Rightarrow> (session_reply \<times> Stack) result" where
  "serialize d sb =
     rbind (Accept (Writer_handler kWriteDefaultFlags) d (Writer_new (Stack_Clear sb))) (\<lambda>(_, w).
     rbind (GetString (os w)) (\<lambda>(body, sb).
       Inr (Session_close 200 body
              [(''Content-Type'', ''application/json''), (''Content-Length'', nat_to_dec (length (contents sb)))], sb)))"

definition add_pair :: "summary_pair \<Rightarrow> summary_pair \<Rightarrow> summary_pair" where
  "add_pair res otherRes =
     \<lparr>sp_def = add_summary (sp_def res) (sp_def otherRes), sp_fb = add_summary (sp_fb res) (sp_fb otherRes)\<rparr>"

text \<open>The three query parameters, with the default of the third; \<open>sb\<close> is the thread's buffer.\<close>

definition payments_summary_handler ::
  "(string \<Rightarrow> string option) \<Rightarrow> transfer \<Rightarrow> store \<Rightarrow> string \<Rightarrow> string \<Rightarrow> string option \<Rightarrow> Stack \<Rightarrow>
     (session_reply \<times> Stack) result" where
  "payments_summary_handler getenv perform st from to internal sb =
     (let internal = (case internal of None \<Rightarrow> ''false'' | Some s \<Rightarrow> s);
          other_url = (if internal \<noteq> ''true'' then getenv ''OTHER_INSTANCE_URL'' else None)
      in rbind (query st from to) (\<lambda>res.
         rbind (case other_url of
                  None \<Rightarrow> Inr res
                | Some url \<Rightarrow> rbind (call_other_instance perform url from to) (\<lambda>otherRes. Inr (add_pair res otherRes)))
           (\<lambda>res. rbind (summary_document res) (\<lambda>d. serialize d sb))))"

section \<open>Health\<close>

definition service_health :: "transfer \<Rightarrow> string \<Rightarrow> Document result" where
  "service_health perform base_url =
     (let result = Document_new\<lparr>root := SetObject\<rparr>; url = base_url @ ''/payments/service-health'' in
      case perform (c_str url) of
        None \<Rightarrow> Inr result
      | Some rep \<Rightarrow> if curle_ok rep then Document_Parse result (c_str (reply_body rep)) else Inr result)"

section \<open>Lemmas on accepting payments\<close>

definition body_raw :: "bytes \<Rightarrow> raw_payment" where
  "body_raw body = \<lparr>rp_data = body @ drop (length body) (rp_data raw_payment_init), rp_size = of_nat (length body)\<rparr>"

lemma raw_of_body_ok: "length body \<le> RAW_CAPACITY \<Longrightarrow> raw_of_body body = Inr (body_raw body)"
  by (simp add: raw_of_body_def body_raw_def)

text \<open>The worker reads from the buffer the very bytes that were posted.\<close>

lemma raw_text_body_raw: "length body \<le> RAW_CAPACITY \<Longrightarrow> raw_text (body_raw body) = Inr body"
  by (simp add: raw_text_def body_raw_def raw_payment_init_def RAW_CAPACITY_def u64_of_nat_unat)

text \<open>A body of more than 70 bytes is copied over the end of the array.\<close>

lemma post_payment_overflow:
  "RAW_CAPACITY < length body \<Longrightarrow> post_payment_handler body ps queues = Inl BufferOverflow"
  by (simp add: post_payment_handler_def raw_of_body_def)

text \<open>The statics fit the vector of queues.\<close>

definition statics_ok :: "post_statics \<Rightarrow> worker_queue list \<Rightarrow> bool" where
  "statics_ok ps queues \<longleftrightarrow>
     queues \<noteq> [] \<and> length queues < 2 ^ 64 \<and>
     (case queue_size ps of None \<Rightarrow> True | Some n \<Rightarrow> n = queue_count queues)"

definition next_queue :: "post_statics \<Rightarrow> worker_queue list \<Rightarrow> nat" where
  "next_queue ps queues = unat (queue_index ps) mod length queues"

definition accepted_reply :: session_reply where
  "accepted_reply = Session_yield 202 [] [(''Content-Length'', ''0'')]"

lemma post_payment_step:
  assumes "statics_ok ps qs" and "length body \<le> RAW_CAPACITY"
    and "wq_wf (qs ! next_queue ps qs)" and "0 < wq_room (qs ! next_queue ps qs)"
  obtains qs' where
    "post_payment_handler body ps qs =
       Inr (accepted_reply, \<lparr>queue_index = queue_index ps + 1, queue_size = Some (queue_count qs)\<rparr>, qs')"
    "length qs' = length qs"
    "wq_wf (qs' ! next_queue ps qs)"
    "wq_contents (qs' ! next_queue ps qs) = wq_contents (qs ! next_queue ps qs) @ [body_raw body]"
    "wq_room (qs ! next_queue ps qs) \<le> Suc (wq_room (qs' ! next_queue ps qs))"
    "\<And>j. j \<noteq> next_queue ps qs \<Longrightarrow> qs' ! j = qs ! j"
proof -
  let ?i = "next_queue ps qs"
  have n: "0 < length qs" "length qs < 2 ^ 64" using assms(1) by (auto simp: statics_ok_def)
  then have i: "?i < length qs" by (simp add: next_queue_def)
  have size: "(case queue_size ps of None \<Rightarrow> queue_count qs | Some n \<Rightarrow> n) = queue_count qs"
    using assms(1) by (auto simp: statics_ok_def split: option.splits)
  have u: "unat (queue_count qs) = length qs" using n(2) by (simp add: queue_count_def u64_of_nat_unat)
  then have nz: "queue_count qs \<noteq> 0" using n(1) by auto
  have idx: "unat (queue_index ps mod queue_count qs) = ?i" by (simp add: next_queue_def unat_mod u)
  obtain qs' where qs': "enqueue qs ?i (body_raw body) = Inr qs'" "?i < length qs' \<and> wq_wf (qs' ! ?i)"
      "wq_contents (qs' ! ?i) = wq_contents (qs ! ?i) @ [body_raw body]" "wq_room (qs ! ?i) \<le> Suc (wq_room (qs' ! ?i))"
    using service_ring.push_room [where i = ?i and q = qs and x = "body_raw body"] i assms(3,4) by blast
  have "post_payment_handler body ps qs =
      Inr (accepted_reply, \<lparr>queue_index = queue_index ps + 1, queue_size = Some (queue_count qs)\<rparr>, qs')"
    using nz qs'(1) by (simp add: post_payment_handler_def Let_def size raw_of_body_ok [OF assms(2)] idx accepted_reply_def)
  then show ?thesis using that qs' enqueue_frame [OF qs'(1)] by blast
qed

fun post_all :: "bytes list \<Rightarrow> post_statics \<Rightarrow> worker_queue list \<Rightarrow>
    (session_reply list \<times> post_statics \<times> worker_queue list) result" where
  "post_all [] ps queues = Inr ([], ps, queues)"
| "post_all (b # bs) ps queues =
     rbind (post_payment_handler b ps queues) (\<lambda>(r, ps, queues).
     rbind (post_all bs ps queues) (\<lambda>(rs, ps, queues). Inr (r # rs, ps, queues)))"

text \<open>The bodies that go to queue \<open>k\<close> of \<open>n\<close> when the first one goes to number \<open>i\<close> modulo \<open>n\<close>.\<close>

definition dealt :: "nat \<Rightarrow> nat \<Rightarrow> nat \<Rightarrow> bytes list \<Rightarrow> bytes list" where
  "dealt n i k bs = nths bs {j. (i + j) mod n = k}"

lemma dealt_Nil [simp]: "dealt n i k [] = []"
  by (simp add: dealt_def)

lemma dealt_Cons: "dealt n i k (b # bs) = (if i mod n = k then [b] else []) @ dealt n (Suc i) k bs"
  by (simp add: dealt_def nths_Cons)

lemma post_all_deals:
  assumes "statics_ok ps qs" and "\<forall>b\<in>set bs. length b \<le> RAW_CAPACITY"
    and "\<forall>k<length qs. wq_wf (qs ! k) \<and> length bs \<le> wq_room (qs ! k)"
    and "unat (queue_index ps) + length bs < 2 ^ 64"
  shows "\<exists>ps' qs'. post_all bs ps qs = Inr (replicate (length bs) accepted_reply, ps', qs') \<and> length qs' = length qs \<and>
    (\<forall>k<length qs. wq_contents (qs' ! k) =
       wq_contents (qs ! k) @ map body_raw (dealt (length qs) (unat (queue_index ps)) k bs))"
  using assms
proof (induction bs arbitrary: ps qs)
  case Nil
  then show ?case by simp
next
  case (Cons b bs)
  let ?i = "next_queue ps qs" and ?ps = "\<lparr>queue_index = queue_index ps + 1, queue_size = Some (queue_count qs)\<rparr>"
  have "?i < length qs" using Cons.prems(1) by (auto simp: next_queue_def statics_ok_def)
  then have "wq_wf (qs ! ?i)" "0 < wq_room (qs ! ?i)" using Cons.prems(3) by (auto simp: Suc_le_eq)
  then obtain qs1 where qs1: "post_payment_handler b ps qs = Inr (accepted_reply, ?ps, qs1)" "length qs1 = length qs"
      "wq_wf (qs1 ! ?i)" "wq_contents (qs1 ! ?i) = wq_contents (qs ! ?i) @ [body_raw b]"
      "wq_room (qs ! ?i) \<le> Suc (wq_room (qs1 ! ?i))" "\<And>j. j \<noteq> ?i \<Longrightarrow> qs1 ! j = qs ! j"
    using Cons.prems(1,2) by (elim post_payment_step [of ps qs b]) auto
  have idx: "unat (queue_index ps + 1) = Suc (unat (queue_index ps))"
    using Cons.prems(4) unat_add_no_wrap [of "queue_index ps" 1] by simp
  have ok: "statics_ok ?ps qs1" using Cons.prems(1) qs1(2) by (auto simp: statics_ok_def queue_count_def)
  have rooms: "\<forall>k<length qs1. wq_wf (qs1 ! k) \<and> length bs \<le> wq_room (qs1 ! k)"
  proof (intro allI impI)
    fix k
    assume "k < length qs1"
    then have "wq_wf (qs ! k)" "Suc (length bs) \<le> wq_room (qs ! k)" using Cons.prems(3) qs1(2) by auto
    then show "wq_wf (qs1 ! k) \<and> length bs \<le> wq_room (qs1 ! k)" using qs1(3,5) qs1(6) [of k] by (cases "k = ?i") auto
  qed
  from Cons.IH [OF ok _ rooms] Cons.prems(2,4) idx obtain ps' qs' where
    IH: "post_all bs ?ps qs1 = Inr (replicate (length bs) accepted_reply, ps', qs')" "length qs' = length qs1"
      "\<forall>k<length qs1. wq_contents (qs' ! k) = wq_contents (qs1 ! k) @ map body_raw (dealt (length qs1) (Suc (unat (queue_index ps))) k bs)"
    by auto
  have "wq_contents (qs' ! k) = wq_contents (qs ! k) @ map body_raw (dealt (length qs) (unat (queue_index ps)) k (b # bs))"
    if "k < length qs" for k
    using IH(3) that qs1(2,4,6) by (cases "k = ?i") (auto simp: dealt_Cons next_queue_def)
  then show ?case using qs1(1,2) IH(1,2) by auto
qed

section \<open>Lemmas on the summary\<close>

definition summary_json :: "summary \<Rightarrow> json_value" where
  "summary_json s =
     VObject [(''totalRequests'', Value_uint64 (totalRequests s)), (''totalAmount'', Value_double (totalAmount s))]"

definition pair_json :: "summary_pair \<Rightarrow> json_value" where
  "pair_json p = VObject [(''default'', summary_json (sp_def p)), (''fallback'', summary_json (sp_fb p))]"

lemma summary_document_json: "summary_document p = Inr (pair_json p)"
  by (simp add: summary_document_def summary_value_def AddMember_def SetObject_def pair_json_def summary_json_def)

text \<open>An amount that prints in the writer's buffer as a plain decimal, and what its text stands for.\<close>

definition amount_ok :: "double \<Rightarrow> bool" where
  "amount_ok a \<longleftrightarrow> writable_double a \<and> plain_decimal (number_text (EDouble a))"

definition amounts_ok :: "summary_pair \<Rightarrow> bool" where
  "amounts_ok p \<longleftrightarrow> amount_ok (totalAmount (sp_def p)) \<and> amount_ok (totalAmount (sp_fb p))"

definition printed_summary :: "summary \<Rightarrow> summary" where
  "printed_summary s = s\<lparr>totalAmount := decimal_value (number_text (EDouble (totalAmount s)))\<rparr>"

definition printed :: "summary_pair \<Rightarrow> summary_pair" where
  "printed p = \<lparr>sp_def = printed_summary (sp_def p), sp_fb = printed_summary (sp_fb p)\<rparr>"

lemma uint_value_writable: "writable (Value_uint64 u)" "readable (Value_uint64 u)" "reread (Value_uint64 u) = Value_uint64 u"
  by (simp_all add: Value_uint64_flags number_event_def IsDouble_def IsInt_def IsUint_def IsInt64_def uint_flags_def
      number_flags del: readable_number.simps)
     (simp add: Value_uint64_flags uint_flags_def)

lemma double_value_writable:
  "amount_ok a \<Longrightarrow> writable (Value_double a) \<and> readable (Value_double a) \<and>
     reread (Value_double a) = Value_double (decimal_value (number_text (EDouble a)))"
  by (simp add: amount_ok_def Value_double_def number_event_def IsDouble_def number_flags del: number_text.simps)

lemma pair_json_ok:
  assumes "amounts_ok p"
  shows "writable (pair_json p)" "readable (pair_json p)" "reread (pair_json p) = pair_json (printed p)"
  using assms double_value_writable [of "totalAmount (sp_def p)"] double_value_writable [of "totalAmount (sp_fb p)"]
  by (simp_all add: amounts_ok_def pair_json_def summary_json_def uint_value_writable writable_string_def printed_def
      printed_summary_def del: number_text.simps)

lemma serialize_ok:
  assumes "Stack_ok sb" and "writable d" and "readable d"
  shows "\<exists>sb'. serialize d sb = Inr (Session_close 200 (json_text d)
      [(''Content-Type'', ''application/json''), (''Content-Length'', nat_to_dec (length (json_text d)))], sb') \<and> Stack_ok sb'"
proof -
  have "takes (GetType d) (Writer_new (Stack_Clear sb))"
    using assms(1) by (simp add: takes_def Writer_new_def Stack_Clear_def Stack_ok_def)
  from Accept_writes(1) [OF this assms(2)] obtain w where w: "Accept (Writer_handler []) d (Writer_new (Stack_Clear sb)) = Inr (True, w)"
      "contents (os w) = json_text d" "Stack_ok (os w)"
    by (auto simp: wrote_def appends_def Stack_Clear_def)
  from GetString_ok [OF w(3)] json_text_no_nul(1) [OF assms(3)] w(2) obtain b where
    "GetString (os w) = Inr (json_text d, b)" "contents b = json_text d" "Stack_ok b" by auto
  with w(1) show ?thesis by (simp add: serialize_def kWriteDefaultFlags_def)
qed

lemma read_summary_pair:
  "read_summary (pair_json p) ''default'' s = Inr (sp_def p)" "read_summary (pair_json p) ''fallback'' s = Inr (sp_fb p)"
proof -
  have n: "GetUint64 (Value_uint64 u) = Inr u" for u
    by (simp add: GetUint64_def IsUint64_def Value_uint64_flags uint_flags_def number_flags)
  have d: "GetDouble (Value_double a) = Inr a" for a
    by (simp add: GetDouble_def IsNumber_def IsDouble_def Value_double_def number_flags)
  show "read_summary (pair_json p) ''default'' s = Inr (sp_def p)" "read_summary (pair_json p) ''fallback'' s = Inr (sp_fb p)"
    by (simp_all add: read_summary_def pair_json_def summary_json_def HasMember_def FindMember_def member_at_def StringEqual_def n d)
qed

text \<open>What an instance reads from a reply with a summary in it.\<close>

lemma call_reads_summary:
  assumes "amounts_ok p"
    and "perform (c_str (other @ ''/payments-summary?from='' @ from @ ''&to='' @ to @ ''&internal=true'')) = Some rep"
    and "curle_ok rep" "response_code rep = 200" "reply_body rep = json_text (pair_json p)"
  shows "call_other_instance perform other from to = Inr (printed p)"
proof -
  have "c_str (json_text (pair_json p)) = json_text (pair_json p)"
    using json_text_no_nul(1) [OF pair_json_ok(2) [OF assms(1)]] by (rule c_str_no_nul)
  then show ?thesis
    using assms(2-5) text_parsed [OF pair_json_ok(2) [OF assms(1)], of Document_new]
    by (simp add: call_other_instance_def Let_def pair_json_ok(3) [OF assms(1)] read_summary_pair)
qed

lemma summary_handler_alone:
  assumes "query st from to = Inr res" and "amounts_ok res" and "Stack_ok sb"
  shows "\<exists>hs sb'. payments_summary_handler getenv perform st from to (Some ''true'') sb =
    Inr (Session_close 200 (json_text (pair_json res)) hs, sb')"
  using serialize_ok [OF assms(3) pair_json_ok(1,2) [OF assms(2)]] assms(1)
  by (auto simp: payments_summary_handler_def summary_document_json)

section \<open>Properties\<close>




section \<open>Witnesses\<close>




end
