(* ===== verification/Spec2Isabelle.thy ===== *)
theory Spec2Isabelle
  imports Prelude Cstd Calendar Worker_Queue Timestamps Double Summary_Store Switching Processor
    Payment_System Itoa Dtoa Unicode Big_Integer Strtod String_Buffer Json_Writer Json_Value Json_Reader
    Json_Number Json_Parser Json_Iterative Json_Document Json_Text Json_Number_Text
    Json_Round_Trip Json_Typing Handlers
begin

text \<open>
  \<^bold>\<open>The program.\<close> The repository holds a payment service, src/src/main.cpp, with the libraries it is built
  from: RapidJSON (src/include/rapidjson) for JSON, and Restbed (src/restbed-docker) for HTTP. A client posts
  payments; the handler copies the body into a 70-byte record and puts it into the ring of one worker, in turn.
  Each worker thread takes payments from its own ring, adds a requestedAt member, sends the body to one of two
  payment processors with libcurl, and records an accepted payment in a table with one slot per second. A payment
  that no processor took goes back into the ring. Response codes and response times decide which processor is
  tried first. A summary request adds up the slots of a time window, asks the other instance of the service for its
  share over HTTP, parses that JSON, adds the two and writes JSON.

  \<^bold>\<open>Conventions.\<close> \<open>Prelude\<close> fixes the machine types (\<^verbatim>\<open>uint64_t\<close> is a 64-bit word, text is a list of bytes),
  the type \<open>fault\<close> of what a C++ operation can do wrong (an index out of range, an exception, a failed assertion)
  and results that are a fault or a value. Code outside the repository (libcurl, the clocks, the environment, the
  thread scheduler) is an argument of the definitions that use it. The C and C++ library is modelled where the
  sources use it: \<open>Cstd\<close> (strings, \<^verbatim>\<open>printf\<close>, \<^verbatim>\<open>sscanf\<close>, \<^verbatim>\<open>strtol\<close>), \<open>Calendar\<close> (\<^verbatim>\<open>timegm\<close>, \<^verbatim>\<open>gmtime_r\<close>), \<open>Double\<close> (IEEE 754
  binary64 with rounding to nearest even, \<^verbatim>\<open>strtod\<close>).

  \<^bold>\<open>The service\<close> (src/src/main.cpp).
  \<^item> \<open>Worker_Queue\<close>: the ring of raw payments of a worker, \<^verbatim>\<open>enqueue\<close> and \<^verbatim>\<open>fetch_next\<close>. It refines a FIFO queue as
    long as it is not full; a full ring loses its oldest payment.
  \<^item> \<open>Timestamps\<close>: \<^verbatim>\<open>parse_timestamp_ms\<close>, \<^verbatim>\<open>create_processor_payload\<close> with its thread-local cache, \<^verbatim>\<open>get_local_time\<close>.
    Written time stamps are parsed back, and the payload is right for every state of the cache.
  \<^item> \<open>Summary_Store\<close>: \<^verbatim>\<open>extract_amount\<close>, \<^verbatim>\<open>store_processed\<close>, \<^verbatim>\<open>query\<close>. What a query counts, the rounding error of its amounts,
    the bounds of the slot table, and three deviations of the code from an inclusive window.
  \<^item> \<open>Switching\<close>: \<^verbatim>\<open>handle_response\<close>, \<^verbatim>\<open>trigger_switch\<close>, \<^verbatim>\<open>update_time\<close>, \<^verbatim>\<open>evaluate_switch\<close>. The invariant of labels, addresses and
    down flags, and what each response code does to them.
  \<^item> \<open>Processor\<close>: \<^verbatim>\<open>CurlHandle\<close>, \<^verbatim>\<open>send_to_processor\<close>, \<^verbatim>\<open>process_payment\<close>, \<^verbatim>\<open>process\<close>. Which requests an attempt makes and when
    a payment is recorded, dropped or put back.
  \<^item> \<open>Payment_System\<close>: the constructor, \<^verbatim>\<open>worker_loop\<close>, the detached probe threads, and a step relation for their
    interleaving with posts. Payments are conserved in every interleaving without a full ring; the stages of a
    thread compose to \<^verbatim>\<open>process\<close>; a race on a libcurl handle is reachable.
  \<^item> \<open>Handlers\<close>: \<^verbatim>\<open>post_payment_handler\<close>, \<^verbatim>\<open>payments_summary_handler\<close>, \<^verbatim>\<open>call_other_instance\<close>, \<^verbatim>\<open>service_health\<close>,
    \<^verbatim>\<open>purger_handler\<close>. Posts are dealt to the rings in turn and fetched by their worker; the summary of two
    instances is the sum of both.

  \<^bold>\<open>RapidJSON\<close> (src/include/rapidjson).
  \<^item> \<open>Itoa\<close>, \<open>Dtoa\<close>: internal/itoa.h, diyfp.h, dtoa.h. The integer output is the decimal numeral for every
    value; digit generation ends, and the layout fits the buffer and reads back.
  \<^item> \<open>Big_Integer\<close>, \<open>Strtod\<close>: internal/biginteger.h, strtod.h, pow10.h, ieee754.h. Exactness of the fast path and
    of building big integers, and a lost borrow in \<^verbatim>\<open>Difference\<close>.
  \<^item> \<open>Unicode\<close>, \<open>String_Buffer\<close>: stream.h, encodings.h (UTF-8), internal/stack.h, stringbuffer.h. The decoder accepts
    exactly the encodings of Unicode scalar values.
  \<^item> \<open>Json_Writer\<close>, \<open>Json_Value\<close>, \<open>Json_Text\<close>: writer.h and document.h. \<open>Json_Text\<close> gives the text of a value as a
    specification, which the writer refines.
  \<^item> \<open>Json_Reader\<close>, \<open>Json_Number\<close>, \<open>Json_Parser\<close>, \<open>Json_Document\<close>: the recursive reader of reader.h with any handler, and the
    handler that builds documents. The locale \<open>handler_contract\<close> is the interface between the two: a handler that keeps
    its invariant on every event gives a reader that keeps it; it is interpreted for the document handler (to show
    that parsing never faults) and for its typing invariant (\<open>Json_Typing\<close>).
  \<^item> \<open>Json_Iterative\<close>: the table-driven reader, equal to the recursive one up to one error code.
  \<^item> \<open>Json_Number_Text\<close>, \<open>Json_Round_Trip\<close>: how the reader scans decimal texts, and that reading a written value
    gives the value back.

  \<^bold>\<open>Bounds and fuel.\<close> The recursive reader is defined with fuel \<open>fuel_for\<close>, twice the number of bytes left
  plus two: each value and each separator consumes a byte and costs at most two calls, and running out is the
  fault \<open>NonTermination\<close>, which the totality theorems exclude for every text. The two loops of
  Grisu2 are partial functions into an option, and a theorem states that they return. All other loops are
  recursion with a termination proof. Words have their
  C++ width; the indices of the rings and of the slot table wrap as in the code.

  \<^bold>\<open>Not modelled.\<close>
  \<^item> The memory model below the interleaving of \<open>Payment_System\<close>: the steps are the stretches of code between
    requests, so data races inside a ring operation are out of scope.
  \<^item> RapidJSON: allocators, SIMD variants, in-situ parsing, streams and encodings other than UTF-8 strings, schema.h,
    pointer.h, uri.h, regex.h, prettywriter.h; none of them is instantiated by the service.
  \<^item> Restbed and its network layer, which appear as arguments of the handlers.
  \<^item> The RocksDB headers (src/include/rocksdb) are not included by any source file. The files under src/infra, the
    Docker files and the test suites of Restbed are configuration and tests.
\<close>

end
